(* ===== verification/Prelude.thy ===== *)
theory Prelude
  imports Main "HOL-Library.Word" "HOL-Library.Multiset"
begin

text \<open>
  What every component of the development shares: the names of the machine integers of the
  source, the collections of rewrite rules that the component proofs switch on, and the generic
  lemmas on words and lists.

  Machine integers keep their width. \<open>uint8_t\<close>, \<open>uint32_t\<close> and \<open>uint64_t\<close> (and \<open>size_t\<close>, which
  is 64 bits wide on the platforms the node supports) are words, whose \<open>+\<close>, \<open>-\<close> and \<open>*\<close> wrap as
  the C++ operators do. Boost's \<open>uint128_t\<close> and \<open>uint256_t\<close> are words too.
\<close>

unbundle bit_operations_syntax

type_synonym u8 = "8 word"
type_synonym u16 = "16 word"
type_synonym u32 = "32 word"
type_synonym u64 = "64 word"
type_synonym u128 = "128 word"
type_synonym u256 = "256 word"

text \<open>A byte string of the source (\<open>std::string\<close> used as a buffer, \<open>blobdata\<close>).\<close>

type_synonym bytes = "u8 list"

named_theorems unat_simps \<open>reading word operations as operations on natural numbers\<close>
named_theorems inv_intros \<open>operations keep the invariant of their component\<close>

section \<open>Words read as natural numbers\<close>

lemma unat_u128_less [simp]: "unat (x :: u128) < 340282366920938463463374607431768211456"
  using unsigned_less [of x] by simp

lemma unat_u64_less [simp]: "unat (x :: u64) < 18446744073709551616"
  using unsigned_less [of x] by simp

lemma unat_u32_less [simp]: "unat (x :: u32) < 4294967296"
  using unsigned_less [of x] by simp

lemma unat_u8_less [simp]: "unat (x :: u8) < 256"
  using unsigned_less [of x] by simp

lemma unat_add_no_overflow [unat_simps]:
  fixes x y :: "'a::len word"
  assumes "unat x + unat y < 2 ^ LENGTH('a)"
  shows "unat (x + y) = unat x + unat y"
  using assms by (simp add: unat_word_ariths)

lemma unat_mult_no_overflow [unat_simps]:
  fixes x y :: "'a::len word"
  assumes "unat x * unat y < 2 ^ LENGTH('a)"
  shows "unat (x * y) = unat x * unat y"
  using assms by (simp add: unat_word_ariths)

lemma unat_sub_no_underflow [unat_simps]:
  fixes x y :: "'a::len word"
  assumes "unat y \<le> unat x"
  shows "unat (x - y) = unat x - unat y"
  using assms by (simp add: unat_sub word_le_nat_alt)

lemma unat_drop_bit [unat_simps]:
  "unat (drop_bit n x) = unat x div 2 ^ n" for x :: "'a::len word"
  by (subst unat_drop_bit_eq) (rule drop_bit_eq_div)

lemma unat_take_bit [unat_simps]:
  "unat (take_bit n x) = unat x mod 2 ^ n" for x :: "'a::len word"
  by (subst unsigned_take_bit_eq) (rule take_bit_eq_mod)

lemma unat_push_bit [unat_simps]:
  "unat (push_bit n x) = unat x * 2 ^ n mod 2 ^ LENGTH('a)" for x :: "'a::len word"
  by (subst unsigned_push_bit_eq) (simp add: take_bit_eq_mod push_bit_eq_mult)

lemma push_bit_or_take_bit:
  "push_bit n x OR take_bit n y = push_bit n x + take_bit n y" for x y :: "'a::len word"
  by (rule disjunctive_add [symmetric]) (auto simp: bit_push_bit_iff bit_take_bit_iff)

lemma unat_ucast_up [unat_simps]:
  fixes x :: "'a::len word"
  assumes "LENGTH('a) \<le> LENGTH('b)"
  shows "unat (ucast x :: 'b::len word) = unat x"
proof -
  have "unat x < 2 ^ LENGTH('b)"
    using unsigned_less [of x] assms by (rule order.strict_trans2 [OF _ power_increasing]) simp_all
  then show ?thesis by (simp add: unsigned_ucast_eq take_bit_eq_mod)
qed

text \<open>The carry of an addition, as the code detects it: the sum is below an operand.\<close>

lemma word_add_carry:
  fixes x y :: "'a::len word"
  shows "unat x + unat y = unat (x + y) + (if x + y < x then 2 ^ LENGTH('a) else 0)"
proof (cases "unat x + unat y < 2 ^ LENGTH('a)")
  case True
  then show ?thesis by (simp add: unat_add_no_overflow word_less_nat_alt)
next
  case False
  have x: "unat x < 2 ^ LENGTH('a)" and y: "unat y < 2 ^ LENGTH('a)"
    by (rule unsigned_less)+
  have "unat (x + y) = (unat x + unat y) mod 2 ^ LENGTH('a)"
    by (simp add: unat_word_ariths)
  also have "\<dots> = unat x + unat y - 2 ^ LENGTH('a)"
    using False x y by (simp only: not_less le_mod_geq mod_less less_diff_conv2)
  finally have s: "unat (x + y) = unat x + unat y - 2 ^ LENGTH('a)" .
  then have "unat (x + y) < unat x" using False x y by linarith
  with s False show ?thesis by (simp add: word_less_nat_alt)
qed

section \<open>Natural numbers\<close>

text \<open>Division that rounds up, the way the code writes it.\<close>

lemma ceil_div:
  fixes n s :: nat
  assumes "0 < s"
  shows "n \<le> (n + s - 1) div s * s"
    and "0 < n \<Longrightarrow> ((n + s - 1) div s - 1) * s < n"
    and "0 < n \<Longrightarrow> 0 < (n + s - 1) div s"
proof -
  have "n + s - 1 < s + (n + s - 1) div s * s" using assms by (rule dividend_less_div_times)
  then show "n \<le> (n + s - 1) div s * s" by linarith
  have "(n + s - 1) div s * s \<le> n + s - 1" by (rule div_times_less_eq_dividend)
  then show "((n + s - 1) div s - 1) * s < n" if "0 < n"
    using that assms unfolding diff_mult_distrib mult_1 by linarith
  show "0 < (n + s - 1) div s" if "0 < n"
    using that assms by (simp add: div_greater_zero_iff)
qed

text \<open>A sum over blocks of equal length on which the summand is constant.\<close>

lemma sum_div_blocks:
  fixes f :: "nat \<Rightarrow> nat"
  assumes "0 < I"
  shows "(\<Sum>h<I * k. f (h div I)) = I * (\<Sum>i<k. f i)"
proof (induction k)
  case (Suc k)
  have block: "(\<Sum>h = I * k..<I * k + I. f (h div I)) = (\<Sum>h = I * k..<I * k + I. f k)"
  proof (rule sum.cong)
    fix h assume "h \<in> {I * k..<I * k + I}"
    then have "h div I = k" by (intro div_nat_eqI) (auto simp: mult.commute)
    then show "f (h div I) = f k" by simp
  qed simp
  have "(\<Sum>h<I * k + I. f (h div I)) = (\<Sum>h<I * k. f (h div I)) + (\<Sum>h = I * k..<I * k + I. f (h div I))"
    using sum.atLeastLessThan_concat [of 0 "I * k" "I * k + I" "\<lambda>h. f (h div I)"]
    by (simp add: lessThan_atLeast0)
  moreover have "I * Suc k = I * k + I" by simp
  ultimately show ?case by (simp only: block Suc.IH) (simp add: add_mult_distrib2)
qed simp

section \<open>Lists given by their elements\<close>

lemma list_update_numeral: "(x # xs)[numeral k := v] = x # xs[pred_numeral k := v]"
  by (simp add: numeral_eq_Suc)

lemma replicate_numeral: "replicate (numeral k) x = x # replicate (pred_numeral k) x"
  by (simp add: numeral_eq_Suc)

section \<open>Buffers\<close>

text \<open>A little-endian number, and a \<open>memcpy\<close> into a buffer at an offset.\<close>

fun le_nat :: "bytes \<Rightarrow> nat" where
  "le_nat [] = 0"
| "le_nat (b # bs) = unat b + 256 * le_nat bs"

definition write_at :: "nat \<Rightarrow> bytes \<Rightarrow> bytes \<Rightarrow> bytes" where
  "write_at off bs buf = take off buf @ bs @ drop (off + length bs) buf"

lemma le_nat_less: "le_nat bs < 256 ^ length bs"
proof (induction bs)
  case (Cons b bs)
  have "unat b + 256 * le_nat bs < 256 + 256 * le_nat bs" by simp
  also have "\<dots> \<le> 256 * 256 ^ length bs" using Cons.IH by simp
  finally show ?case by simp
qed simp

lemma le_nat_append: "le_nat (xs @ ys) = le_nat xs + 256 ^ length xs * le_nat ys"
  by (induction xs) (simp_all add: algebra_simps)

lemma length_write_at: "off + length bs \<le> length buf \<Longrightarrow> length (write_at off bs buf) = length buf"
  by (simp add: write_at_def)

section \<open>Encodings\<close>

text \<open>
  The interface of an encoding: what is decoded is what was encoded. A canonical encoding accepts
  nothing else, so that texts and data correspond one to one.
\<close>

locale codec =
  fixes enc :: "'a \<Rightarrow> 'b" and dec :: "'b \<Rightarrow> 'a option"
  assumes dec_enc: "dec (enc x) = Some x"
begin

lemma enc_inject: "enc x = enc y \<longleftrightarrow> x = y"
  by (metis dec_enc option.inject)

end

locale canonical_codec = codec +
  assumes enc_dec: "dec y = Some x \<Longrightarrow> enc x = y"
begin

lemma dec_iff: "dec y = Some x \<longleftrightarrow> enc x = y"
  using dec_enc enc_dec by blast

lemma dec_inject: "dec y = Some x \<Longrightarrow> dec y' = Some x \<Longrightarrow> y = y'"
  using enc_dec by blast

lemma dec_None_iff: "dec y = None \<longleftrightarrow> y \<notin> range enc"
  by (metis dec_iff not_None_eq rangeE rangeI)

end

text \<open>
  The interface of a self-delimiting encoding: a reader that finds the end of what was written and
  leaves the rest. Its encodings can be put one after the other without losing the boundaries.
\<close>

locale prefix_codec =
  fixes put :: "'a \<Rightarrow> 'b list" and get :: "'b list \<Rightarrow> ('a \<times> 'b list) option"
  assumes get_put: "get (put x @ rest) = Some (x, rest)"
begin

lemma put_append_inject: "put x @ r = put y @ s \<longleftrightarrow> x = y \<and> r = s"
  by (metis get_put option.inject prod.inject)

lemma put_all_inject: "length xs = length ys \<Longrightarrow> concat (map put xs) = concat (map put ys) \<Longrightarrow> xs = ys"
  by (induction xs ys rule: list_induct2) (auto simp: put_append_inject)

end

end
