(* ===== verification/Int_Util.thy ===== *)
theory Int_Util
  imports Prelude "HOL-Library.Monad_Syntax"
begin

text \<open>
  The 64- and 128-bit arithmetic of \<open>contrib/epee/include/int-util.h\<close> and
  \<open>contrib/epee/src/int-util.cpp\<close>, and the portable multiplication of
  \<open>src/cryptonote_basic/difficulty.cpp\<close>. The lemmas show that the schoolbook multiplications
  compute the exact 128-bit product, that the long division is division with remainder, and that
  the clamped operations saturate.
\<close>

section \<open>Definitions\<close>

definition hi_dword :: "u64 \<Rightarrow> u64" where
  "hi_dword val = drop_bit 32 val"

definition lo_dword :: "u64 \<Rightarrow> u64" where
  "lo_dword val = val AND 0xFFFFFFFF"

text \<open>The result pairs the low half (the return value) with the high half (the out parameter).\<close>

definition mul128 :: "u64 \<Rightarrow> u64 \<Rightarrow> u64 \<times> u64" where
  "mul128 multiplier multiplicand =
    (let a = hi_dword multiplier;
         b = lo_dword multiplier;
         c = hi_dword multiplicand;
         d = lo_dword multiplicand;
         ac = a * c;
         ad = a * d;
         bc = b * c;
         bd = b * d;
         adbc = ad + bc;
         adbc_carry = (if adbc < ad then 1 else 0);
         product_lo = bd + push_bit 32 adbc;
         product_lo_carry = (if product_lo < bd then 1 else 0);
         product_hi = ac + drop_bit 32 adbc + push_bit 32 adbc_carry + product_lo_carry
     in (product_lo, product_hi))"

text \<open>
  The variant that \<open>difficulty.cpp\<close> compiles on targets other than x86-64; the pair is
  (\<open>low\<close>, \<open>high\<close>).
\<close>

definition mul_portable :: "u64 \<Rightarrow> u64 \<Rightarrow> u64 \<times> u64" where
  "mul_portable a b =
    (let aLow = a AND 0xFFFFFFFF;
         aHigh = drop_bit 32 a;
         bLow = b AND 0xFFFFFFFF;
         bHigh = drop_bit 32 b;
         res = aLow * bLow;
         lowRes1 = res AND 0xFFFFFFFF;
         carry = drop_bit 32 res;
         res = aHigh * bLow + carry;
         highResHigh1 = drop_bit 32 res;
         highResLow1 = res AND 0xFFFFFFFF;
         res = aLow * bHigh;
         lowRes2 = res AND 0xFFFFFFFF;
         carry = drop_bit 32 res;
         res = aHigh * bHigh + carry;
         highResHigh2 = drop_bit 32 res;
         highResLow2 = res AND 0xFFFFFFFF;
         r = highResLow1 + lowRes2;
         carry = drop_bit 32 r;
         low = push_bit 32 r OR lowRes1;
         r = highResHigh1 + highResLow2 + carry;
         d3 = r AND 0xFFFFFFFF;
         carry = drop_bit 32 r;
         r = highResHigh2 + carry;
         high = d3 OR push_bit 32 r
     in (low, high))"

text \<open>
  Long division in base \<open>2 ^ 32\<close>: one step divides the remainder so far, followed by the next
  digit; the pair is (quotient digit, new remainder). Dividing by zero is undefined in C: \<open>None\<close>.
\<close>

definition div_with_reminder :: "u64 \<Rightarrow> u32 \<Rightarrow> u32 \<Rightarrow> (u64 \<times> u32) option" where
  "div_with_reminder dividend divisor remainder =
    (if divisor = 0 then None
     else let dividend = dividend OR push_bit 32 (ucast remainder)
          in Some (dividend div ucast divisor, ucast (dividend mod ucast divisor)))"

text \<open>The result lists the quotient's halves and the remainder.\<close>

definition div128_32 :: "u64 \<Rightarrow> u64 \<Rightarrow> u32 \<Rightarrow> ((u64 \<times> u64) \<times> u32) option" where
  "div128_32 dividend_hi dividend_lo divisor = do {
     (q3, remainder) \<leftarrow> div_with_reminder (hi_dword dividend_hi) divisor 0;
     (q2, remainder) \<leftarrow> div_with_reminder (lo_dword dividend_hi) divisor remainder;
     (q1, remainder) \<leftarrow> div_with_reminder (hi_dword dividend_lo) divisor remainder;
     (q0, remainder) \<leftarrow> div_with_reminder (lo_dword dividend_lo) divisor remainder;
     Some ((push_bit 32 q3 OR q2, push_bit 32 q1 OR q0), remainder)
   }"

text \<open>
  \<open>div128_64\<close> works on Boost's \<open>uint128_t\<close>. The result lists the quotient's halves and the
  remainder's halves. A zero divisor makes Boost throw \<open>std::overflow_error\<close>: \<open>None\<close>.
\<close>

definition div128_64 :: "u64 \<Rightarrow> u64 \<Rightarrow> u64 \<Rightarrow> ((u64 \<times> u64) \<times> (u64 \<times> u64)) option" where
  "div128_64 dividend_hi dividend_lo divisor =
    (let dividend = push_bit 64 (ucast dividend_hi :: u128) OR ucast dividend_lo;
         divisor128 = (ucast divisor :: u128)
     in if divisor128 = 0 then None
        else let q = dividend div divisor128; r = dividend mod divisor128
             in Some ((ucast (drop_bit 64 q AND 0xFFFFFFFFFFFFFFFF),
                       ucast (q AND 0xFFFFFFFFFFFFFFFF)),
                      (ucast (drop_bit 64 r AND 0xFFFFFFFFFFFFFFFF),
                       ucast (r AND 0xFFFFFFFFFFFFFFFF))))"

definition add64clamp :: "u64 \<Rightarrow> u64 \<Rightarrow> u64" where
  "add64clamp value add = (if value > -1 - add then -1 else value + add)"

definition sub64clamp :: "u64 \<Rightarrow> u64 \<Rightarrow> u64" where
  "sub64clamp value sub = (if value < sub then 0 else value - sub)"

text \<open>A 128-bit number given by its halves, as the code passes it around.\<close>

definition val128 :: "u64 \<Rightarrow> u64 \<Rightarrow> nat" where
  "val128 hi lo = unat hi * 2 ^ 64 + unat lo"

section \<open>The exact product\<close>

lemma lo_dword_take_bit: "lo_dword x = take_bit 32 x"
  by (simp add: lo_dword_def take_bit_eq_mask mask_eq_exp_minus_1)

lemma unat_hi_dword [unat_simps]: "unat (hi_dword x) = unat x div 2 ^ 32"
  by (simp add: hi_dword_def unat_drop_bit)

lemma unat_lo_dword [unat_simps]: "unat (lo_dword x) = unat x mod 2 ^ 32"
  by (simp add: lo_dword_take_bit unat_take_bit)

lemma unat_push_bit_32:
  "unat (push_bit 32 (x :: u64)) = (unat x mod 2 ^ 32) * 2 ^ 32"
proof -
  have "unat (push_bit 32 x) = (unat x * 2 ^ 32) mod 2 ^ 64"
    by (subst unat_push_bit) simp
  also have "\<dots> = (unat x mod 2 ^ 32) * 2 ^ 32"
    by (simp add: mult_mod_left)
  finally show ?thesis .
qed

lemma half_product_less:
  assumes "(a::nat) < 2 ^ 32" and "b < 2 ^ 32"
  shows "a * b \<le> (2 ^ 32 - 1) * (2 ^ 32 - 1)"
  by (rule mult_le_mono) (use assms in auto)

lemma schoolbook_product:
  fixes x y :: nat
  shows "x * y = (x div 2 ^ 32) * (y div 2 ^ 32) * 2 ^ 64
      + ((x div 2 ^ 32) * (y mod 2 ^ 32) + (x mod 2 ^ 32) * (y div 2 ^ 32)) * 2 ^ 32
      + (x mod 2 ^ 32) * (y mod 2 ^ 32)"
proof -
  have "x = (x div 2 ^ 32) * 2 ^ 32 + x mod 2 ^ 32" "y = (y div 2 ^ 32) * 2 ^ 32 + y mod 2 ^ 32"
    by simp_all
  then have "x * y = ((x div 2 ^ 32) * 2 ^ 32 + x mod 2 ^ 32) * ((y div 2 ^ 32) * 2 ^ 32 + y mod 2 ^ 32)"
    by metis
  also have "\<dots> = (x div 2 ^ 32) * (y div 2 ^ 32) * (2 ^ 32 * 2 ^ 32)
      + ((x div 2 ^ 32) * (y mod 2 ^ 32) + (x mod 2 ^ 32) * (y div 2 ^ 32)) * 2 ^ 32
      + (x mod 2 ^ 32) * (y mod 2 ^ 32)"
    by (simp only: algebra_simps)
  finally show ?thesis by simp
qed

lemma shift_dword: "(n::nat) * 2 ^ 32 = n div 2 ^ 32 * 2 ^ 64 + n mod 2 ^ 32 * 2 ^ 32"
proof -
  have "n * 2 ^ 32 = (n div 2 ^ 32 * 2 ^ 32 + n mod 2 ^ 32) * 2 ^ 32"
    by (simp only: div_mult_mod_eq)
  also have "\<dots> = n div 2 ^ 32 * (2 ^ 32 * 2 ^ 32) + n mod 2 ^ 32 * 2 ^ 32"
    by (simp only: add_mult_distrib mult.assoc)
  finally show ?thesis by simp
qed

lemma unat_half_product [unat_simps]:
  fixes x y :: u64
  assumes "unat x < 2 ^ 32" and "unat y < 2 ^ 32"
  shows "unat (x * y) = unat x * unat y"
  using half_product_less [OF assms] by (intro unat_mult_no_overflow) simp

lemma dword_less:
  "unat (hi_dword x) < 2 ^ 32" "unat (lo_dword x) < 2 ^ 32"
  using unsigned_less [of x] by (simp_all add: unat_hi_dword unat_lo_dword less_mult_imp_div_less)

text \<open>The top half absorbs both carries without wrapping, because the product fits 128 bits.\<close>

lemma high_half_no_wrap:
  fixes ac h c l lo :: u64
  assumes "(unat ac + unat h + unat c + unat l) * 2 ^ 64 + n = p" and "p < 2 ^ 128"
  shows "unat (ac + h + c + l) = unat ac + unat h + unat c + unat l"
proof -
  have "(unat ac + unat h + unat c + unat l) * 2 ^ 64 < 2 ^ 64 * 2 ^ 64"
    using assms by simp
  then have "unat ac + unat h + unat c + unat l < 2 ^ 64" by simp
  then show ?thesis by (simp add: unat_add_no_overflow)
qed

lemma product_less_2p128: "unat (x :: u64) * unat (y :: u64) < 2 ^ 128"
proof -
  have "unat x * unat y < 2 ^ 64 * 2 ^ 64"
    by (rule mult_strict_mono') (use unsigned_less [of x] unsigned_less [of y] in auto)
  then show ?thesis by simp
qed

lemma mul128_correct:
  assumes "mul128 x y = (lo, hi)"
  shows "val128 hi lo = unat x * unat y"
proof -
  define a b c d where abcd: "a = hi_dword x" "b = lo_dword x" "c = hi_dword y" "d = lo_dword y"
  have lt: "unat a < 2 ^ 32" "unat b < 2 ^ 32" "unat c < 2 ^ 32" "unat d < 2 ^ 32"
    by (simp_all only: abcd dword_less)
  define adbc where "adbc = a * d + b * c"
  define k :: u64 where "k = (if adbc < a * d then 1 else 0)"
  define plo where "plo = b * d + push_bit 32 adbc"
  define l :: u64 where "l = (if plo < b * d then 1 else 0)"
  have lo: "lo = plo" and hi: "hi = a * c + drop_bit 32 adbc + push_bit 32 k + l"
    using assms by (auto simp: mul128_def Let_def abcd adbc_def k_def plo_def l_def)
  have mid: "unat a * unat d + unat b * unat c = unat adbc + unat k * 2 ^ 64"
    using word_add_carry [of "a * d" "b * c"] lt
    by (simp add: adbc_def k_def unat_half_product split: if_splits)
  have low: "unat b * unat d + (unat adbc mod 2 ^ 32) * 2 ^ 32 = unat plo + unat l * 2 ^ 64"
    using word_add_carry [of "b * d" "push_bit 32 adbc"] lt
    by (simp add: plo_def l_def unat_half_product unat_push_bit_32 split: if_splits)
  have k32: "unat (push_bit 32 k) = unat k * 2 ^ 32"
    by (simp add: k_def unat_push_bit)
  have prod: "unat x * unat y = unat a * unat c * 2 ^ 64
      + (unat a * unat d + unat b * unat c) * 2 ^ 32 + unat b * unat d"
    using schoolbook_product [of "unat x" "unat y"] by (simp only: abcd unat_hi_dword unat_lo_dword)
  have total: "unat x * unat y
      = (unat (a * c) + unat (drop_bit 32 adbc) + unat (push_bit 32 k) + unat l) * 2 ^ 64 + unat plo"
    using prod mid low shift_dword [of "unat adbc"] lt by (simp add: unat_half_product unat_drop_bit k32)
  then have "unat hi = unat (a * c) + unat (drop_bit 32 adbc) + unat (push_bit 32 k) + unat l"
    unfolding hi by (rule high_half_no_wrap [OF sym product_less_2p128])
  with total show ?thesis by (simp add: val128_def lo)
qed

lemma and_low_dword: "x AND 0xFFFFFFFF = take_bit 32 (x :: u64)"
  using lo_dword_take_bit [of x] by (simp add: lo_dword_def)

lemma unat_half_mult_add [unat_simps]:
  fixes x y c :: u64
  assumes "unat x < 2 ^ 32" and "unat y < 2 ^ 32" and "unat c < 2 ^ 32"
  shows "unat (x * y + c) = unat x * unat y + unat c"
proof -
  have "unat (x * y) + unat c < 2 ^ LENGTH(64)"
    using half_product_less [OF assms(1,2)] assms by (simp add: unat_half_product)
  then show ?thesis using assms by (simp add: unat_add_no_overflow unat_half_product)
qed

lemma dword_take_drop_less:
  "unat (take_bit 32 (x :: u64)) < 2 ^ 32" "unat (drop_bit 32 (x :: u64)) < 2 ^ 32"
  using unsigned_less [of x] by (simp_all add: unat_take_bit unat_drop_bit less_mult_imp_div_less)

lemma unat_push_or_take [unat_simps]:
  fixes x y :: u64
  shows "unat (push_bit 32 x OR take_bit 32 y) = (unat x mod 2 ^ 32) * 2 ^ 32 + unat y mod 2 ^ 32"
proof -
  have "(unat x mod 2 ^ 32) * 2 ^ 32 + unat y mod 2 ^ 32 < 2 ^ 64"
    by (simp; linarith)
  then show ?thesis
    by (simp add: push_bit_or_take_bit unat_add_no_overflow unat_take_bit unat_push_bit_32)
qed

lemma portable_column_sum:
  fixes hh hl lh ll d1 m1 d2 m2 d3 m3 d4 m4 d5 m5 d6 m6 :: nat
  assumes "d1 * B + m1 = ll" "d2 * B + m2 = hl + d1" "d3 * B + m3 = lh" "d4 * B + m4 = hh + d3"
    and "d5 * B + m5 = m2 + m3" "d6 * B + m6 = d2 + m4 + d5"
  shows "hh * (B * B) + (hl + lh) * B + ll = (d4 + d6) * (B * B * B) + m6 * (B * B) + m5 * B + m1"
proof -
  have "hh * (B * B) + (hl + lh) * B + ll + d1 * B + d3 * (B * B)
      = (hh + d3) * (B * B) + (hl + d1 + lh) * B + ll"
    by (simp add: algebra_simps)
  also have "\<dots> = (d4 * B + m4) * (B * B) + (d2 * B + m2 + (d3 * B + m3)) * B + (d1 * B + m1)"
    by (simp only: assms)
  also have "\<dots> = d4 * (B * B * B) + (d2 + m4) * (B * B) + (m2 + m3) * B + m1 + d1 * B + d3 * (B * B)"
    by (simp add: algebra_simps)
  also have "\<dots> = d4 * (B * B * B) + (d2 + m4 + d5) * (B * B) + m5 * B + m1 + d1 * B + d3 * (B * B)"
    by (simp only: assms(5) [symmetric]) (simp add: algebra_simps)
  also have "\<dots> = (d4 + d6) * (B * B * B) + m6 * (B * B) + m5 * B + m1 + d1 * B + d3 * (B * B)"
    by (simp only: assms(6) [symmetric]) (simp add: algebra_simps)
  finally show ?thesis by simp
qed

lemma mul_portable_correct:
  assumes "mul_portable a b = (lo, hi)"
  shows "val128 hi lo = unat a * unat b"
proof -
  define aL aH bL bH where ab: "aL = take_bit 32 a" "aH = drop_bit 32 a" "bL = take_bit 32 b" "bH = drop_bit 32 b"
  have lt: "unat aL < 2 ^ 32" "unat aH < 2 ^ 32" "unat bL < 2 ^ 32" "unat bH < 2 ^ 32"
    by (simp_all only: ab dword_take_drop_less)
  define r1 where "r1 = aL * bL"
  define r2 where "r2 = aH * bL + drop_bit 32 r1"
  define r3 where "r3 = aL * bH"
  define r4 where "r4 = aH * bH + drop_bit 32 r3"
  define r5 where "r5 = take_bit 32 r2 + take_bit 32 r3"
  define r6 where "r6 = drop_bit 32 r2 + take_bit 32 r4 + drop_bit 32 r5"
  define r7 where "r7 = drop_bit 32 r4 + drop_bit 32 r6"
  note rs = r1_def r2_def r3_def r4_def r5_def r6_def r7_def
  have lo: "lo = push_bit 32 r5 OR take_bit 32 r1" and hi: "hi = push_bit 32 r7 OR take_bit 32 r6"
    using assms by (auto simp: mul_portable_def Let_def and_low_dword ab rs or.commute)
  have u: "unat r1 = unat aL * unat bL" "unat r2 = unat aH * unat bL + unat r1 div 2 ^ 32"
    "unat r3 = unat aL * unat bH" "unat r4 = unat aH * unat bH + unat r3 div 2 ^ 32"
    "unat r5 = unat r2 mod 2 ^ 32 + unat r3 mod 2 ^ 32"
    using lt dword_take_drop_less [of r1] dword_take_drop_less [of r2] dword_take_drop_less [of r3]
    by (simp_all add: r1_def r2_def r3_def r4_def r5_def unat_half_product unat_half_mult_add
        unat_drop_bit unat_take_bit unat_add_no_overflow)
  have u6: "unat r6 = unat r2 div 2 ^ 32 + unat r4 mod 2 ^ 32 + unat r5 div 2 ^ 32"
    using dword_take_drop_less [of r2] dword_take_drop_less [of r4] dword_take_drop_less [of r5]
    by (simp add: r6_def unat_drop_bit unat_take_bit unat_add_no_overflow)
  have u7: "unat r7 = unat r4 div 2 ^ 32 + unat r6 div 2 ^ 32"
    using dword_take_drop_less [of r4] dword_take_drop_less [of r6]
    by (simp add: r7_def unat_drop_bit unat_add_no_overflow)
  have "unat a * unat b = unat aH * unat bH * (2 ^ 32 * 2 ^ 32)
      + (unat aH * unat bL + unat aL * unat bH) * 2 ^ 32 + unat aL * unat bL"
    using schoolbook_product [of "unat a" "unat b"] by (simp add: ab unat_drop_bit unat_take_bit)
  also have "\<dots> = (unat r4 div 2 ^ 32 + unat r6 div 2 ^ 32) * (2 ^ 32 * 2 ^ 32 * 2 ^ 32)
      + unat r6 mod 2 ^ 32 * (2 ^ 32 * 2 ^ 32) + unat r5 mod 2 ^ 32 * 2 ^ 32 + unat r1 mod 2 ^ 32"
    by (rule portable_column_sum) (simp_all only: div_mult_mod_eq u u6)
  finally have total: "unat a * unat b = unat r7 * 2 ^ 96 + unat r6 mod 2 ^ 32 * 2 ^ 64
      + unat r5 mod 2 ^ 32 * 2 ^ 32 + unat r1 mod 2 ^ 32"
    by (simp add: u7)
  then have "unat r7 * 2 ^ 96 < 2 ^ 32 * 2 ^ 96"
    using product_less_2p128 [of a b] by simp
  then have "unat r7 < 2 ^ 32" by simp
  with total show ?thesis
    by (simp add: lo hi val128_def unat_push_or_take)
qed

lemma val128_inject: "val128 h l = val128 h' l' \<longleftrightarrow> h = h' \<and> l = l'"
proof
  assume eq: "val128 h l = val128 h' l'"
  have "val128 x y div 2 ^ 64 = unat x" "val128 x y mod 2 ^ 64 = unat y" for x y
    by (simp_all add: val128_def)
  with eq have "unat h = unat h'" "unat l = unat l'" by metis+
  then show "h = h' \<and> l = l'" by (simp add: word_unat_eq_iff)
qed auto

lemma val128_eq_high: "val128 h l = n \<Longrightarrow> h = 0 \<longleftrightarrow> n < 2 ^ 64"
  by (auto simp: val128_def unat_eq_0 [symmetric])

lemma mul128_fits:
  assumes "mul128 x y = (lo, hi)"
  shows "hi = 0 \<longleftrightarrow> unat x * unat y < 2 ^ 64" and "hi = 0 \<Longrightarrow> unat lo = unat x * unat y"
  using val128_eq_high [OF mul128_correct [OF assms]] mul128_correct [OF assms]
  by (auto simp: val128_def)

lemma mul_portable_mul128: "mul_portable a b = mul128 a b"
proof -
  obtain lo hi lo' hi' where eq: "mul_portable a b = (lo, hi)" "mul128 a b = (lo', hi')"
    by (meson surj_pair)
  with mul_portable_correct mul128_correct have "val128 hi lo = val128 hi' lo'" by metis
  with eq show ?thesis by (simp add: val128_inject)
qed

section \<open>Division\<close>

lemma take_bit_dword: "unat (x :: u64) < 2 ^ 32 \<Longrightarrow> take_bit 32 x = x"
  by (simp add: word_unat_eq_iff unat_take_bit)

lemma val128_less: "val128 hi lo < 2 ^ 128"
  using unat_u64_less [of hi] unat_u64_less [of lo] by (simp add: val128_def del: unat_u64_less)

lemma or_ucast_val128:
  "unat (push_bit 64 (ucast hi :: u128) OR ucast (lo :: u64)) = val128 (hi :: u64) lo"
proof -
  have lo: "take_bit 64 (ucast lo :: u128) = ucast lo"
    by (simp add: word_unat_eq_iff unat_take_bit unat_ucast_up)
  have hi: "unat (push_bit 64 (ucast hi :: u128)) = unat hi * 2 ^ 64"
    by (simp add: unat_push_bit unat_ucast_up)
  show ?thesis
    using push_bit_or_take_bit [of 64 "ucast hi :: u128" "ucast lo"] hi val128_less [of hi lo]
    by (simp add: lo val128_def unat_add_no_overflow unat_ucast_up)
qed

lemma val128_halves:
  fixes q :: u128
  shows "val128 (ucast (drop_bit 64 q AND 0xFFFFFFFFFFFFFFFF)) (ucast (q AND 0xFFFFFFFFFFFFFFFF)) = unat q"
proof -
  have mask: "x AND 0xFFFFFFFFFFFFFFFF = take_bit 64 x" for x :: u128
    by (simp add: take_bit_eq_mask mask_eq_exp_minus_1)
  have down: "unat (ucast x :: u64) = unat x mod 2 ^ 64" for x :: u128
    by (simp add: unsigned_ucast_eq take_bit_eq_mod)
  have "unat q div 2 ^ 64 < 2 ^ 64"
    using unsigned_less [of q] by (intro less_mult_imp_div_less) simp
  then show ?thesis
    by (simp add: val128_def mask down unat_take_bit unat_drop_bit)
qed

lemma div128_64_correct:
  assumes "divisor \<noteq> 0"
  obtains qh ql rh rl where "div128_64 hi lo divisor = Some ((qh, ql), (rh, rl))"
    and "val128 qh ql = val128 hi lo div unat divisor"
    and "val128 rh rl = val128 hi lo mod unat divisor"
proof -
  let ?d = "push_bit 64 (ucast hi :: u128) OR ucast lo"
  have nz: "(ucast divisor :: u128) \<noteq> 0"
    using assms by (simp add: word_unat_eq_iff unat_ucast_up)
  have "unat (?d div ucast divisor) = val128 hi lo div unat divisor"
    "unat (?d mod ucast divisor) = val128 hi lo mod unat divisor"
    by (simp_all only: unat_div_distrib unat_mod_distrib or_ucast_val128) (simp_all add: unat_ucast_up)
  with nz show thesis
    by (intro that) (auto simp: div128_64_def Let_def val128_halves)
qed

text \<open>Long division by digits: the quotient digits are below the base and join up.\<close>

lemma div_digit:
  fixes n x d B :: nat
  assumes "0 < d"
  shows "(n * B + x) div d = n div d * B + (n mod d * B + x) div d"
    and "(n * B + x) mod d = (n mod d * B + x) mod d"
proof -
  have "n * B + x = (n div d * d + n mod d) * B + x" by simp
  then have eq: "n * B + x = (n mod d * B + x) + n div d * B * d"
    unfolding distrib_right by (simp only: ac_simps)
  show "(n * B + x) div d = n div d * B + (n mod d * B + x) div d"
    using assms unfolding eq by (subst div_mult_self1) simp_all
  show "(n * B + x) mod d = (n mod d * B + x) mod d"
    unfolding eq by (rule mod_mult_self1)
qed

lemma div_with_reminder_correct:
  fixes r d :: u32
  assumes "unat x < 2 ^ 32" and "r < d"
  obtains q r' where "div_with_reminder x d r = Some (q, r')"
    and "unat q = (unat r * 2 ^ 32 + unat x) div unat d"
    and "unat r' = (unat r * 2 ^ 32 + unat x) mod unat d"
    and "unat q < 2 ^ 32" and "r' < d"
proof -
  let ?n = "x OR push_bit 32 (ucast r :: u64)"
  have d: "0 < unat d" "d \<noteq> 0" using assms(2) by (auto simp: word_less_nat_alt)
  have "unat r < 2 ^ 32" by simp
  then have "unat ?n = unat r * 2 ^ 32 + unat x"
    using unat_push_or_take [of "ucast r :: u64" x] assms(1)
    by (simp add: or.commute unat_ucast_up take_bit_dword)
  then have q: "unat (?n div ucast d) = (unat r * 2 ^ 32 + unat x) div unat d"
    and m: "unat (?n mod ucast d) = (unat r * 2 ^ 32 + unat x) mod unat d"
    by (simp_all only: unat_div_distrib unat_mod_distrib) (simp_all add: unat_ucast_up)
  have lt: "(unat r * 2 ^ 32 + unat x) mod unat d < unat d" using d by simp
  have "unat (ucast (?n mod ucast d) :: u32) = unat (?n mod ucast d) mod 2 ^ 32"
    by (simp add: unsigned_ucast_eq take_bit_eq_mod)
  then have r': "unat (ucast (?n mod ucast d) :: u32) = (unat r * 2 ^ 32 + unat x) mod unat d"
    using lt unat_u32_less [of d] unfolding m by (simp del: unat_u32_less)
  have "unat r + 1 \<le> unat d" using assms(2) by (simp add: word_less_nat_alt)
  then have "(unat r + 1) * 2 ^ 32 \<le> unat d * 2 ^ 32" by (rule mult_le_mono1)
  then have "unat r * 2 ^ 32 + unat x < 2 ^ 32 * unat d" using assms(1) by simp
  then have "(unat r * 2 ^ 32 + unat x) div unat d < 2 ^ 32" by (rule less_mult_imp_div_less)
  with q r' lt d show thesis
    by (intro that [of "?n div ucast d" "ucast (?n mod ucast d)"])
      (simp_all only: div_with_reminder_def word_less_nat_alt Let_def if_False)
qed

lemma join_dwords: "unat (h :: u64) < 2 ^ 32 \<Longrightarrow> unat l < 2 ^ 32 \<Longrightarrow> unat (push_bit 32 h OR l) = unat h * 2 ^ 32 + unat l"
  using unat_push_or_take [of h l] by (simp add: take_bit_dword)

lemma div_with_reminder_step:
  assumes "unat x < 2 ^ 32" and "r < d" and "unat r = n mod unat d"
  obtains q r' where "div_with_reminder x d r = Some (q, r')"
    and "(n * 2 ^ 32 + unat x) div unat d = n div unat d * 2 ^ 32 + unat q"
    and "unat r' = (n * 2 ^ 32 + unat x) mod unat d"
    and "unat q < 2 ^ 32" and "r' < d"
proof -
  have "0 < unat d" using assms(2) by (auto simp: word_less_nat_alt)
  note digit = div_digit [OF this, of n "2 ^ 32" "unat x", folded assms(3)]
  obtain q r' where c: "div_with_reminder x d r = Some (q, r')"
    "unat q = (unat r * 2 ^ 32 + unat x) div unat d" "unat r' = (unat r * 2 ^ 32 + unat x) mod unat d"
    "unat q < 2 ^ 32" "r' < d"
    by (rule div_with_reminder_correct [OF assms(1,2)])
  show thesis
    by (rule that [OF c(1) _ _ c(4,5)]) (simp_all only: digit c(2,3))
qed

lemma div128_32_correct:
  assumes "divisor \<noteq> 0"
  obtains qh ql r where "div128_32 hi lo divisor = Some ((qh, ql), r)"
    and "val128 qh ql = val128 hi lo div unat divisor"
    and "unat r = val128 hi lo mod unat divisor"
proof -
  let ?d = "unat divisor"
  have d: "0 < divisor" using assms by (simp add: word_neq_0_conv)
  have h: "unat (hi_dword x) < 2 ^ 32" and l: "unat (lo_dword x) < 2 ^ 32" for x
    using unat_u64_less [of x] by (auto simp: unat_hi_dword unat_lo_dword simp del: unat_u64_less)
  let ?n3 = "0 * 2 ^ 32 + unat (hi_dword hi)"
  let ?n2 = "?n3 * 2 ^ 32 + unat (lo_dword hi)"
  let ?n1 = "?n2 * 2 ^ 32 + unat (hi_dword lo)"
  let ?n0 = "?n1 * 2 ^ 32 + unat (lo_dword lo)"
  have zero: "unat (0 :: u32) = 0 mod ?d" by simp
  obtain q3 r3 where s3: "div_with_reminder (hi_dword hi) divisor 0 = Some (q3, r3)"
    and q3: "?n3 div ?d = 0 div ?d * 2 ^ 32 + unat q3" and r3: "unat r3 = ?n3 mod ?d"
    and q3_lt: "unat q3 < 2 ^ 32" and r3_lt: "r3 < divisor"
    by (rule div_with_reminder_step [OF h d zero])
  obtain q2 r2 where s2: "div_with_reminder (lo_dword hi) divisor r3 = Some (q2, r2)"
    and q2: "?n2 div ?d = ?n3 div ?d * 2 ^ 32 + unat q2" and r2: "unat r2 = ?n2 mod ?d"
    and q2_lt: "unat q2 < 2 ^ 32" and r2_lt: "r2 < divisor"
    by (rule div_with_reminder_step [OF l r3_lt r3])
  obtain q1 r1 where s1: "div_with_reminder (hi_dword lo) divisor r2 = Some (q1, r1)"
    and q1: "?n1 div ?d = ?n2 div ?d * 2 ^ 32 + unat q1" and r1: "unat r1 = ?n1 mod ?d"
    and q1_lt: "unat q1 < 2 ^ 32" and r1_lt: "r1 < divisor"
    by (rule div_with_reminder_step [OF h r2_lt r2])
  obtain q0 r0 where s0: "div_with_reminder (lo_dword lo) divisor r1 = Some (q0, r0)"
    and q0: "?n0 div ?d = ?n1 div ?d * 2 ^ 32 + unat q0" and r0: "unat r0 = ?n0 mod ?d"
    and q0_lt: "unat q0 < 2 ^ 32"
    by (rule div_with_reminder_step [OF l r1_lt r1])
  have n: "?n0 = val128 hi lo"
    unfolding val128_def unat_hi_dword unat_lo_dword by (simp add: distrib_right)
  show thesis
  proof (rule that)
    show "div128_32 hi lo divisor = Some ((push_bit 32 q3 OR q2, push_bit 32 q1 OR q0), r0)"
      by (simp add: div128_32_def s3 s2 s1 s0)
    show "val128 (push_bit 32 q3 OR q2) (push_bit 32 q1 OR q0) = val128 hi lo div ?d"
      unfolding n [symmetric] unfolding q0 q1 q2 q3 val128_def join_dwords [OF q3_lt q2_lt] join_dwords [OF q1_lt q0_lt]
      by simp
    show "unat r0 = val128 hi lo mod ?d" unfolding n [symmetric] by (rule r0)
  qed
qed

lemma div128_64_zero: "div128_64 hi lo 0 = None"
  by (simp add: div128_64_def)

section \<open>Clamping\<close>

lemma add64clamp_correct: "unat (add64clamp v a) = min (unat v + unat a) (2 ^ 64 - 1)"
proof -
  have m: "unat (-1 :: u64) = 2 ^ 64 - 1"
    by (simp add: unsigned_minus_1_eq_mask mask_eq_exp_minus_1)
  then have "unat (-1 - a :: u64) = 2 ^ 64 - 1 - unat a"
    using unat_u64_less [of a] by (subst unat_sub_no_underflow) (auto simp del: unat_u64_less)
  then have guard: "-1 - a < v \<longleftrightarrow> 2 ^ 64 - 1 < unat v + unat a"
    using unat_u64_less [of a] by (auto simp: word_less_nat_alt simp del: unat_u64_less)
  show ?thesis
  proof (cases "2 ^ 64 - 1 < unat v + unat a")
    case True
    then show ?thesis using guard m by (simp add: add64clamp_def)
  next
    case False
    then have "unat (v + a) = unat v + unat a" by (simp add: unat_add_no_overflow)
    with False guard show ?thesis by (simp add: add64clamp_def)
  qed
qed

lemma sub64clamp_correct: "unat (sub64clamp v s) = unat v - unat s"
  by (auto simp: sub64clamp_def word_less_nat_alt unat_sub_no_underflow)

section \<open>Properties\<close>

text \<open>
  The schoolbook multiplication on 32-bit halves computes the exact 128-bit product of two
  64-bit words, and the portable variant returns the same two words.
\<close>

lemma multiplication_exact:
  "mul_portable a b = mul128 a b
    \<and> (let (lo, hi) = mul128 a b in unat hi * 2 ^ 64 + unat lo = unat a * unat b)"
  using mul128_correct [of a b] by (auto simp: mul_portable_mul128 val128_def split: prod.split)

text \<open>
  Division of a 128-bit number by a non-zero 32-bit divisor: the long division by digits and
  the division on 128-bit integers return the same quotient and remainder, and these are the
  quotient and the remainder.
\<close>

lemma divisions_agree:
  fixes d :: u32
  assumes "d \<noteq> 0"
  shows "\<exists>qh ql r. div128_32 hi lo d = Some ((qh, ql), r)
    \<and> div128_64 hi lo (ucast d) = Some ((qh, ql), (0, ucast r))
    \<and> unat qh * 2 ^ 64 + unat ql = (unat hi * 2 ^ 64 + unat lo) div unat d
    \<and> unat r = (unat hi * 2 ^ 64 + unat lo) mod unat d"
proof -
  have d: "unat (ucast d :: u64) = unat d" by (simp add: unat_ucast_up)
  have nz: "(ucast d :: u64) \<noteq> 0" using assms d by (auto simp: word_unat_eq_iff)
  obtain qh ql r where small: "div128_32 hi lo d = Some ((qh, ql), r)"
    "val128 qh ql = val128 hi lo div unat d" "unat r = val128 hi lo mod unat d"
    using assms by (rule div128_32_correct)
  obtain qh' ql' rh rl where big: "div128_64 hi lo (ucast d) = Some ((qh', ql'), (rh, rl))"
    "val128 qh' ql' = val128 hi lo div unat d" "val128 rh rl = val128 hi lo mod unat d"
    using nz unfolding d [symmetric] by (rule div128_64_correct)
  have "val128 rh rl = val128 0 (ucast r)"
    using small(3) big(3) by (simp add: val128_def unat_ucast_up)
  then have "rh = 0" "rl = ucast r" by (simp_all only: val128_inject)
  moreover have "qh' = qh" "ql' = ql" using small(2) big(2) val128_inject by metis+
  ultimately show ?thesis using small big by (simp add: val128_def)
qed

lemma divisions_agree_witness:
  "\<exists>qh ql r. div128_32 5 1 7 = Some ((qh, ql), r) \<and> unat r = (5 * 2 ^ 64 + 1) mod 7"
  using divisions_agree [of 7 5 1] by auto

end
