(* ===== verification/Block_Reward.thy ===== *)
theory Block_Reward
  imports Int_Util
begin

text \<open>
  The block subsidy: \<open>get_min_block_weight\<close> and \<open>get_block_reward\<close> of
  \<open>src/cryptonote_basic/cryptonote_basic_impl.cpp\<close>, with the constants of
  \<open>src/cryptonote_config.h\<close>, and the update of the generated coins that
  \<open>Blockchain::handle_block_to_main_chain\<close> stores with each block.

  The lemmas give the halving schedule, the quadratic penalty for blocks heavier than the median,
  the cap on the money supply, and the exact number of coins the schedule emits.
\<close>

section \<open>Definitions\<close>

definition MONEY_SUPPLY :: u64 where
  "MONEY_SUPPLY = 10000000000000000"

definition COIN :: u64 where
  "COIN = 100000000"

definition CRYPTONOTE_BLOCK_GRANTED_FULL_REWARD_ZONE_V1 :: u64 where
  "CRYPTONOTE_BLOCK_GRANTED_FULL_REWARD_ZONE_V1 = 20000"

definition CRYPTONOTE_BLOCK_GRANTED_FULL_REWARD_ZONE_V2 :: u64 where
  "CRYPTONOTE_BLOCK_GRANTED_FULL_REWARD_ZONE_V2 = 60000"

definition CRYPTONOTE_BLOCK_GRANTED_FULL_REWARD_ZONE_V5 :: u64 where
  "CRYPTONOTE_BLOCK_GRANTED_FULL_REWARD_ZONE_V5 = 300000"

definition HALVING_INTERVAL :: u64 where
  "HALVING_INTERVAL = 500000"

definition INITIAL_REWARD :: u64 where
  "INITIAL_REWARD = 10000000000"

definition get_min_block_weight :: "u8 \<Rightarrow> u64" where
  "get_min_block_weight version =
    (if version < 2 then CRYPTONOTE_BLOCK_GRANTED_FULL_REWARD_ZONE_V1
     else if version < 5 then CRYPTONOTE_BLOCK_GRANTED_FULL_REWARD_ZONE_V2
     else CRYPTONOTE_BLOCK_GRANTED_FULL_REWARD_ZONE_V5)"

text \<open>The first half of \<open>get_block_reward\<close>: the subsidy before any weight penalty.\<close>

definition base_block_reward :: "u64 \<Rightarrow> u64 \<Rightarrow> u64" where
  "base_block_reward already_generated_coins height =
    (if height = 0 then 0
     else if already_generated_coins \<ge> MONEY_SUPPLY then 0
     else
       let halvings = height div HALVING_INTERVAL;
           base_reward = (if halvings \<ge> 63 then 0 else drop_bit (unat halvings) INITIAL_REWARD)
       in if already_generated_coins + base_reward > MONEY_SUPPLY
          then MONEY_SUPPLY - already_generated_coins else base_reward)"

text \<open>
  \<open>None\<close> is the \<open>false\<close> of a block that is too heavy. The divisor of the two divisions is the
  median, which is at least the full reward zone and so never zero: \<open>div128_64\<close> always returns.
\<close>

definition get_block_reward :: "u64 \<Rightarrow> u64 \<Rightarrow> u64 \<Rightarrow> u8 \<Rightarrow> u64 \<Rightarrow> u64 option" where
  "get_block_reward median_weight current_block_weight already_generated_coins version height =
    (let base_reward = base_block_reward already_generated_coins height;
         full_reward_zone = get_min_block_weight version;
         median_weight = (if median_weight < full_reward_zone then full_reward_zone else median_weight)
     in if current_block_weight \<le> median_weight then Some base_reward
        else if current_block_weight > 2 * median_weight then None
        else
          let multiplicand = 2 * median_weight - current_block_weight;
              multiplicand = multiplicand * current_block_weight;
              (product_lo, product_hi) = mul128 base_reward multiplicand
          in case div128_64 product_hi product_lo median_weight of
               None \<Rightarrow> None
             | Some ((reward_hi, reward_lo), _) \<Rightarrow>
                 (case div128_64 reward_hi reward_lo median_weight of
                    None \<Rightarrow> None
                  | Some ((reward_hi, reward_lo), _) \<Rightarrow> Some reward_lo))"

text \<open>The generated coins stored with a block, from those of its parent and the block's subsidy.\<close>

definition next_generated_coins :: "u64 \<Rightarrow> u64 \<Rightarrow> u64" where
  "next_generated_coins already_generated_coins base_reward =
    (if base_reward < MONEY_SUPPLY - already_generated_coins
     then already_generated_coins + base_reward else MONEY_SUPPLY)"

text \<open>What the subsidy is meant to be, over the natural numbers.\<close>

definition era_reward :: "nat \<Rightarrow> nat" where
  "era_reward h = (if h = 0 then 0 else 10000000000 div 2 ^ (h div 500000))"

definition effective_median :: "u64 \<Rightarrow> u8 \<Rightarrow> u64" where
  "effective_median median_weight version = max median_weight (get_min_block_weight version)"

text \<open>
  A chain of full-reward blocks: the coins generated by the blocks below height \<open>n\<close>, each block
  claiming the whole subsidy of its height.
\<close>

fun emitted :: "nat \<Rightarrow> u64" where
  "emitted 0 = 0"
| "emitted (Suc n) = next_generated_coins (emitted n) (base_block_reward (emitted n) (of_nat n))"

section \<open>The halving schedule\<close>

lemmas reward_consts = MONEY_SUPPLY_def HALVING_INTERVAL_def INITIAL_REWARD_def

lemma zone_pos: "0 < get_min_block_weight version"
  by (simp add: get_min_block_weight_def CRYPTONOTE_BLOCK_GRANTED_FULL_REWARD_ZONE_V1_def
      CRYPTONOTE_BLOCK_GRANTED_FULL_REWARD_ZONE_V2_def CRYPTONOTE_BLOCK_GRANTED_FULL_REWARD_ZONE_V5_def)

lemma era_reward_le: "era_reward h \<le> 10000000000"
  by (simp add: era_reward_def)

lemma unat_base_block_reward:
  assumes "unat already \<le> 10000000000000000"
  shows "unat (base_block_reward already height)
    = min (era_reward (unat height)) (10000000000000000 - unat already)"
proof (cases "height = 0 \<or> unat already = 10000000000000000")
  case True
  then show ?thesis
    by (auto simp: base_block_reward_def era_reward_def reward_consts word_le_nat_alt)
next
  case False
  define k where "k = unat height div 500000"
  define r :: u64 where "r = (if height div HALVING_INTERVAL \<ge> 63 then 0
    else drop_bit (unat (height div HALVING_INTERVAL)) INITIAL_REWARD)"
  have k: "unat (height div HALVING_INTERVAL) = k"
    by (simp add: HALVING_INTERVAL_def unat_div_distrib k_def)
  have zero: "(10000000000 :: nat) div 2 ^ k = 0" if "63 \<le> k"
  proof -
    have "(10000000000 :: nat) < 2 ^ 63" by simp
    also have "\<dots> \<le> 2 ^ k" using that by (intro power_increasing) simp_all
    finally show ?thesis by simp
  qed
  have h: "unat height \<noteq> 0" using False by (simp add: unat_eq_0)
  have r: "unat r = era_reward (unat height)"
    using k zero h by (auto simp: r_def era_reward_def k_def [symmetric] word_le_nat_alt unat_drop_bit INITIAL_REWARD_def)
  have sum: "unat (already + r) = unat already + unat r"
    using assms r era_reward_le [of "unat height"] by (intro unat_add_no_overflow) simp
  have code: "base_block_reward already height = (if already + r > MONEY_SUPPLY then MONEY_SUPPLY - already else r)"
    using False assms by (auto simp: base_block_reward_def Let_def r_def reward_consts word_le_nat_alt word_unat_eq_iff)
  show ?thesis
    using assms sum r by (auto simp: code reward_consts word_less_nat_alt unat_sub_no_underflow)
qed

lemma base_block_reward_cap:
  assumes "already \<le> MONEY_SUPPLY"
  shows "unat already + unat (base_block_reward already height) \<le> unat MONEY_SUPPLY"
  using assms unat_base_block_reward [of already height]
  by (simp add: MONEY_SUPPLY_def word_le_nat_alt)

section \<open>The weight penalty\<close>

lemma effective_median_code:
  "(if m < get_min_block_weight v then get_min_block_weight v else m) = effective_median m v"
  by (auto simp: effective_median_def max_def)

lemma get_block_reward_eq:
  "get_block_reward m w already v h =
    (if w \<le> effective_median m v then Some (base_block_reward already h)
     else if w > 2 * effective_median m v then None
     else
       let (lo, hi) = mul128 (base_block_reward already h) ((2 * effective_median m v - w) * w)
       in case div128_64 hi lo (effective_median m v) of
            None \<Rightarrow> None
          | Some ((hi, lo), _) \<Rightarrow>
              (case div128_64 hi lo (effective_median m v) of
                 None \<Rightarrow> None
               | Some ((hi, lo), _) \<Rightarrow> Some lo))"
  by (simp only: get_block_reward_def Let_def effective_median_code)

lemma effective_median_pos: "0 < effective_median m v"
  using zone_pos [of v] by (simp add: effective_median_def less_max_iff_disj)

lemma get_block_reward_light:
  assumes "w \<le> effective_median m v"
  shows "get_block_reward m w already v h = Some (base_block_reward already h)"
  using assms by (simp add: get_block_reward_eq)

lemma get_block_reward_heavy:
  assumes "2 * unat (effective_median m v) < unat w"
  shows "get_block_reward m w already v h = None"
proof -
  have "unat (2 * effective_median m v) = 2 * unat (effective_median m v)"
    using assms unat_u64_less [of w] by (subst unat_mult_no_overflow) (simp_all del: unat_u64_less)
  then show ?thesis using assms
    by (simp add: get_block_reward_eq word_less_nat_alt word_le_nat_alt)
qed

lemma penalty_square:
  fixes m w :: nat
  assumes "m \<le> w" and "w \<le> 2 * m"
  shows "(2 * m - w) * w = m * m - (w - m) * (w - m)"
proof -
  obtain d where d: "w = m + d" "d \<le> m" using assms by (metis le_iff_add mult_2 nat_add_left_cancel_le)
  have "(2 * m - w) * w + d * d = m * m"
    using d mult_le_mono [OF d(2) d(2)] by (simp add: algebra_simps diff_mult_distrib)
  then show ?thesis using d by simp
qed

lemma penalized_less:
  fixes r :: nat
  assumes "0 < r" and "0 < m" and "0 < d"
  shows "r * (m * m - d * d) div (m * m) < r"
proof (rule less_mult_imp_div_less)
  have "m * m - d * d < m * m" using assms by simp
  then show "r * (m * m - d * d) < r * (m * m)" using assms by simp
qed

lemma get_block_reward_penalty:
  fixes m w already h :: u64 and v :: u8
  defines "M \<equiv> unat (effective_median m v)" and "R \<equiv> unat (base_block_reward already h)"
  assumes over: "M < unat w" "unat w \<le> 2 * M" and small: "M \<le> 2 ^ 32"
  obtains rew where "get_block_reward m w already v h = Some rew"
    and "unat rew = R * (M * M - (unat w - M) * (unat w - M)) div (M * M)"
    and "0 < R \<Longrightarrow> unat rew < R"
proof -
  let ?e = "effective_median m v" and ?b = "base_block_reward already h"
  have pos: "0 < M" using effective_median_pos [of m v] by (simp add: M_def word_less_nat_alt)
  have two: "unat (2 * ?e) = 2 * M"
    using small by (subst unat_mult_no_overflow) (simp_all add: M_def)
  have sq: "(2 * M - unat w) * unat w = M * M - (unat w - M) * (unat w - M)"
    using over by (intro penalty_square) simp_all
  have MM: "M * M \<le> 2 ^ 32 * 2 ^ 32" using small by (intro mult_le_mono)
  have "M * M - (unat w - M) * (unat w - M) < M * M" using over pos by simp
  then have lt: "(2 * M - unat w) * unat w < 2 ^ 64" using MM sq by simp
  have mult: "unat ((2 * ?e - w) * w) = M * M - (unat w - M) * (unat w - M)"
  proof -
    have "unat (2 * ?e - w) = 2 * M - unat w" using over two by (simp add: unat_sub_no_underflow)
    then show ?thesis using lt sq by (subst unat_mult_no_overflow) simp_all
  qed
  obtain lo hi where prod: "mul128 ?b ((2 * ?e - w) * w) = (lo, hi)" by fastforce
  note val = mul128_correct [OF prod, unfolded mult, folded R_def]
  have nz: "?e \<noteq> 0" using effective_median_pos [of m v] by auto
  obtain h1 l1 a1 b1 where d1: "div128_64 hi lo ?e = Some ((h1, l1), (a1, b1))"
    and q1: "val128 h1 l1 = val128 hi lo div M"
    unfolding M_def by (rule div128_64_correct [OF nz])
  obtain h2 l2 a2 b2 where d2: "div128_64 h1 l1 ?e = Some ((h2, l2), (a2, b2))"
    and q2: "val128 h2 l2 = val128 h1 l1 div M"
    unfolding M_def by (rule div128_64_correct [OF nz])
  have q: "val128 h2 l2 = R * (M * M - (unat w - M) * (unat w - M)) div (M * M)"
    by (simp only: q2 q1 val div_mult2_eq)
  have le: "R * (M * M - (unat w - M) * (unat w - M)) div (M * M) \<le> R"
  proof -
    have "R * (M * M - (unat w - M) * (unat w - M)) div (M * M) \<le> R * (M * M) div (M * M)"
      by (intro div_le_mono mult_le_mono2) simp
    then show ?thesis using pos by simp
  qed
  have "R < 2 ^ 64" by (simp add: R_def)
  with le have "h2 = 0" unfolding val128_eq_high [OF q] by (rule le_less_trans)
  then have l2: "unat l2 = R * (M * M - (unat w - M) * (unat w - M)) div (M * M)"
    unfolding q [symmetric] by (simp add: val128_def)
  show thesis
  proof (rule that)
    show "get_block_reward m w already v h = Some l2"
      using over two d1 d2 prod
      by (simp add: get_block_reward_eq M_def word_le_nat_alt word_less_nat_alt)
    show "unat l2 = R * (M * M - (unat w - M) * (unat w - M)) div (M * M)" by (rule l2)
    show "unat l2 < R" if "0 < R"
      unfolding l2 using that pos over by (intro penalized_less) simp_all
  qed
qed

text \<open>Whatever the weight, the reward never exceeds the subsidy.\<close>

lemma get_block_reward_le_base:
  assumes "get_block_reward m w already v h = Some rew" and "unat (effective_median m v) \<le> 2 ^ 32"
  shows "unat rew \<le> unat (base_block_reward already h)"
proof -
  consider "w \<le> effective_median m v" | "2 * unat (effective_median m v) < unat w"
    | "unat (effective_median m v) < unat w" "unat w \<le> 2 * unat (effective_median m v)"
    by (metis not_le word_le_nat_alt)
  then show ?thesis
  proof cases
    case 1
    then show ?thesis using assms(1) by (simp add: get_block_reward_light)
  next
    case 2
    then show ?thesis using assms(1) by (simp add: get_block_reward_heavy)
  next
    case 3
    let ?M = "unat (effective_median m v)"
    obtain r where "get_block_reward m w already v h = Some r"
      and r: "unat r = unat (base_block_reward already h) * (?M * ?M - (unat w - ?M) * (unat w - ?M)) div (?M * ?M)"
      using get_block_reward_penalty [OF 3 assms(2)] by metis
    then have "rew = r" using assms(1) by simp
    moreover have "unat r \<le> unat (base_block_reward already h) * (?M * ?M) div (?M * ?M)"
      unfolding r by (intro div_le_mono mult_le_mono2) simp
    ultimately show ?thesis using effective_median_pos [of m v] by (simp add: word_less_nat_alt)
  qed
qed

section \<open>The supply\<close>

lemma unat_next_generated_coins:
  assumes "already \<le> MONEY_SUPPLY"
  shows "unat (next_generated_coins already r) = min (unat already + unat r) (unat MONEY_SUPPLY)"
proof -
  have sub: "unat (MONEY_SUPPLY - already) = unat MONEY_SUPPLY - unat already"
    using assms by (simp add: unat_sub_no_underflow word_le_nat_alt)
  show ?thesis
  proof (cases "r < MONEY_SUPPLY - already")
    case True
    then have lt: "unat already + unat r < unat MONEY_SUPPLY" using sub by (simp add: word_less_nat_alt)
    also have "\<dots> < 2 ^ 64" by (simp add: MONEY_SUPPLY_def)
    finally have "unat (already + r) = unat already + unat r" by (simp add: unat_add_no_overflow)
    then show ?thesis using True lt by (simp add: next_generated_coins_def)
  next
    case False
    then have "unat MONEY_SUPPLY \<le> unat already + unat r" using sub by (simp add: word_less_nat_alt)
    then show ?thesis using False by (simp add: next_generated_coins_def)
  qed
qed

lemma next_generated_coins_le: "next_generated_coins already r \<le> MONEY_SUPPLY" if "already \<le> MONEY_SUPPLY"
  using unat_next_generated_coins [OF that] by (simp add: word_le_nat_alt)

text \<open>The closed form of the full-reward emission: whole eras, then the blocks of the current one.\<close>

definition era_sum :: "nat \<Rightarrow> nat" where
  "era_sum k = (\<Sum>i<k. 10000000000 div 2 ^ i)"

definition emission :: "nat \<Rightarrow> nat" where
  "emission n = (\<Sum>h<n. era_reward h)"

lemma era_reward_zero: "17000000 \<le> h \<Longrightarrow> era_reward h = 0"
proof -
  assume "17000000 \<le> h"
  then have "34 \<le> h div 500000" by (simp add: less_eq_div_iff_mult_less_eq)
  then have "(2 ^ 34 :: nat) \<le> 2 ^ (h div 500000)" by (intro power_increasing) simp_all
  then show ?thesis by (simp add: era_reward_def)
qed

lemma emission_eras: "(\<Sum>h<500000 * k. 10000000000 div 2 ^ (h div 500000)) = 500000 * era_sum k"
  unfolding era_sum_def by (rule sum_div_blocks) simp

lemma era_sum_numeral:
  "era_sum (numeral k) = era_sum (pred_numeral k) + 10000000000 div 2 ^ pred_numeral k"
  by (simp add: era_sum_def lessThan_nat_numeral)

lemma era_sum_34: "era_sum 34 = 19999999989"
  by (simp add: era_sum_numeral) (simp add: era_sum_def)

lemma emission_split:
  assumes "0 < n"
  shows "(\<Sum>h<n. 10000000000 div 2 ^ (h div 500000)) = emission n + 10000000000"
proof -
  obtain m where n: "n = Suc m" using assms by (cases n) simp_all
  have "emission n = (\<Sum>h<m. 10000000000 div 2 ^ (Suc h div 500000))"
    unfolding emission_def n sum.lessThan_Suc_shift by (simp add: era_reward_def)
  then show ?thesis unfolding n sum.lessThan_Suc_shift by simp
qed

lemma emission_mono: "m \<le> n \<Longrightarrow> emission m \<le> emission n"
  unfolding emission_def by (rule sum_mono2) auto

lemma emission_final: "emission 17000000 = 9999989994500000"
proof -
  have "emission 17000000 + 10000000000 = 500000 * era_sum 34"
    using emission_split [of "500000 * 34"] emission_eras [of 34] by simp
  then show ?thesis by (simp add: era_sum_34)
qed

lemma emission_stable: "17000000 \<le> n \<Longrightarrow> emission n = 9999989994500000"
proof (induction n rule: dec_induct)
  case base
  show ?case by (rule emission_final)
next
  case (step n)
  then show ?case by (simp add: emission_def era_reward_zero)
qed

lemma emission_bound: "emission n \<le> 9999989994500000"
  using emission_mono [of n 17000000] emission_stable [of n] emission_final
  by (cases "n \<le> 17000000") simp_all

lemma unat_emitted: "n \<le> 2 ^ 64 \<Longrightarrow> unat (emitted n) = emission n"
proof (induction n)
  case 0
  show ?case by (simp add: emission_def)
next
  case (Suc n)
  then have IH: "unat (emitted n) = emission n" by simp
  have h: "unat (of_nat n :: u64) = n" using Suc.prems by (simp add: unat_of_nat)
  have next_le: "emission n + era_reward n \<le> 9999989994500000"
    using emission_bound [of "Suc n"] by (simp add: emission_def)
  then have b: "unat (base_block_reward (emitted n) (of_nat n)) = era_reward n"
    by (subst unat_base_block_reward) (simp_all add: IH h)
  have "emitted n \<le> MONEY_SUPPLY" using next_le by (simp add: word_le_nat_alt IH MONEY_SUPPLY_def)
  then show ?case
    using next_le b IH by (simp add: unat_next_generated_coins MONEY_SUPPLY_def emission_def)
qed

section \<open>Properties\<close>







end
