(* ===== verification/Difficulty.thy ===== *)
theory Difficulty
  imports Int_Util
begin

text \<open>
  Proof-of-work targets: \<open>src/cryptonote_basic/difficulty.cpp\<close>. \<open>check_hash\<close> decides whether a
  256-bit hash meets a difficulty, with a 64-bit path that multiplies word by word and a 128-bit
  path on Boost integers; \<open>next_difficulty\<close> (and its 64-bit predecessor) computes the difficulty of
  the next block from the timestamps and cumulative difficulties of the last blocks.

  The lemmas show that both paths decide \<open>hash * difficulty < 2 ^ 256\<close>, that the indices used on
  the sorted window are in range for every window length, that the result is the rounded-up
  quotient of work and time, and how the two implementations agree.
\<close>

section \<open>Definitions\<close>

text \<open>
  A \<open>crypto::hash\<close> is 32 bytes. \<open>hash_word h i\<close> is the source's
  \<open>swap64le(((const uint64_t *) &hash)[i])\<close>: the \<open>i\<close>-th group of eight bytes, little endian.
\<close>

type_synonym hash = bytes

type_synonym difficulty_type = u128

definition hash_word :: "hash \<Rightarrow> nat \<Rightarrow> u64" where
  "hash_word h i = of_nat (le_nat (take 8 (drop (8 * i) h)))"

definition mul :: "u64 \<Rightarrow> u64 \<Rightarrow> u64 \<times> u64" where
  "mul a b = mul128 a b"

definition cadd :: "u64 \<Rightarrow> u64 \<Rightarrow> bool" where
  "cadd a b \<longleftrightarrow> a + b < a"

definition cadc :: "u64 \<Rightarrow> u64 \<Rightarrow> bool \<Rightarrow> bool" where
  "cadc a b c \<longleftrightarrow> a + b < a \<or> (c \<and> a + b = -1)"

definition check_hash_64 :: "hash \<Rightarrow> u64 \<Rightarrow> bool" where
  "check_hash_64 hash difficulty =
    (let (top, high) = mul (hash_word hash 3) difficulty
     in if high \<noteq> 0 then False
        else
          let (low, cur) = mul (hash_word hash 0) difficulty;
              (low, high) = mul (hash_word hash 1) difficulty;
              carry = cadd cur low;
              cur = high;
              (low, high) = mul (hash_word hash 2) difficulty;
              carry = cadc cur low carry;
              carry = cadc high top carry
          in \<not> carry)"

text \<open>The 128-bit path accumulates the hash in a \<open>uint512_t\<close>, highest word first.\<close>

definition check_hash_128 :: "hash \<Rightarrow> difficulty_type \<Rightarrow> bool" where
  "check_hash_128 hash difficulty =
    (let hashVal = fold (\<lambda>i acc. push_bit 64 acc OR ucast (hash_word hash (3 - i))) [0..<4] (0 :: 512 word)
     in hashVal * ucast difficulty \<le> 2 ^ 256 - 1)"

definition check_hash :: "hash \<Rightarrow> difficulty_type \<Rightarrow> bool" where
  "check_hash hash difficulty =
    (if difficulty \<le> 0xFFFFFFFFFFFFFFFF then check_hash_64 hash (ucast difficulty)
     else check_hash_128 hash difficulty)"

text \<open>\<open>std::vector::resize\<close>: cut to the new size, or extend with zeros.\<close>

definition resize :: "nat \<Rightarrow> 'a::zero list \<Rightarrow> 'a list" where
  "resize n xs = take n xs @ replicate (n - length xs) 0"

definition DIFFICULTY_WINDOW :: nat where "DIFFICULTY_WINDOW = 720"
definition DIFFICULTY_LAG :: nat where "DIFFICULTY_LAG = 15"
definition DIFFICULTY_CUT :: nat where "DIFFICULTY_CUT = 60"
definition DIFFICULTY_TARGET_V1 :: u64 where "DIFFICULTY_TARGET_V1 = 60"
definition DIFFICULTY_TARGET_V2 :: u64 where "DIFFICULTY_TARGET_V2 = 120"

text \<open>The part of the sorted window that is used: (\<open>cut_begin\<close>, \<open>cut_end\<close>).\<close>

definition cut_range :: "nat \<Rightarrow> nat \<times> nat" where
  "cut_range len =
    (if len \<le> DIFFICULTY_WINDOW - 2 * DIFFICULTY_CUT then (0, len)
     else let cut_begin = (len - (DIFFICULTY_WINDOW - 2 * DIFFICULTY_CUT) + 1) div 2
          in (cut_begin, cut_begin + (DIFFICULTY_WINDOW - 2 * DIFFICULTY_CUT)))"

text \<open>
  \<open>None\<close> stands for the failed assertion that the two vectors have the same length, past which
  the code would read out of range.
\<close>

definition next_difficulty :: "u64 list \<Rightarrow> difficulty_type list \<Rightarrow> u64 \<Rightarrow> difficulty_type option" where
  "next_difficulty timestamps cumulative_difficulties target_seconds =
    (let (timestamps, cumulative_difficulties) =
           (if length timestamps > DIFFICULTY_WINDOW
            then (resize DIFFICULTY_WINDOW timestamps, resize DIFFICULTY_WINDOW cumulative_difficulties)
            else (timestamps, cumulative_difficulties));
         len = length timestamps
     in if len \<noteq> length cumulative_difficulties then None
        else if len \<le> 1 then Some 1
        else
          let timestamps = sort timestamps;
              (cut_begin, cut_end) = cut_range len;
              time_span = timestamps ! (cut_end - 1) - timestamps ! cut_begin;
              time_span = (if time_span = 0 then 1 else time_span);
              total_work = cumulative_difficulties ! (cut_end - 1) - cumulative_difficulties ! cut_begin;
              res = ((ucast total_work :: u256) * ucast target_seconds + ucast time_span - 1) div ucast time_span
          in if res > 2 ^ 128 - 1 then Some 0 else Some (ucast res))"

definition next_difficulty_64 :: "u64 list \<Rightarrow> u64 list \<Rightarrow> u64 \<Rightarrow> u64 option" where
  "next_difficulty_64 timestamps cumulative_difficulties target_seconds =
    (let (timestamps, cumulative_difficulties) =
           (if length timestamps > DIFFICULTY_WINDOW
            then (resize DIFFICULTY_WINDOW timestamps, resize DIFFICULTY_WINDOW cumulative_difficulties)
            else (timestamps, cumulative_difficulties));
         len = length timestamps
     in if len \<noteq> length cumulative_difficulties then None
        else if len \<le> 1 then Some 1
        else
          let timestamps = sort timestamps;
              (cut_begin, cut_end) = cut_range len;
              time_span = timestamps ! (cut_end - 1) - timestamps ! cut_begin;
              time_span = (if time_span = 0 then 1 else time_span);
              total_work = cumulative_difficulties ! (cut_end - 1) - cumulative_difficulties ! cut_begin;
              (low, high) = mul total_work target_seconds
          in if high \<noteq> 0 \<or> low + time_span - 1 < low then Some 0
             else Some ((low + time_span - 1) div time_span))"

text \<open>\<open>hex\<close> collects digits from the least significant end and reverses them.\<close>

definition hex_char :: "nat \<Rightarrow> char" where
  "hex_char d = ''0123456789abcdef'' ! d"

function hex_loop :: "difficulty_type \<Rightarrow> string \<Rightarrow> string" where
  "hex_loop v s = (if v > 0 then hex_loop (drop_bit 4 v) (s @ [hex_char (unat (v AND 0xf))]) else s)"
  by pat_completeness auto
termination
  by (relation "measure (\<lambda>(v, s). unat v)")
    (auto simp: unat_drop_bit word_less_nat_alt)

definition hex :: "difficulty_type \<Rightarrow> string" where
  "hex v = (let s = hex_loop v []; s = (if s = [] then ''0'' else s) in ''0x'' @ rev s)"

text \<open>
  What the next difficulty is meant to be: the work of the window times the target time, divided by
  the time the window took (at least one second), rounded up.
\<close>

definition window_span :: "u64 list \<Rightarrow> nat" where
  "window_span timestamps =
    (let (b, e) = cut_range (length timestamps); s = sort timestamps
     in max 1 (unat (s ! (e - 1)) - unat (s ! b)))"

definition window_work :: "'a::len word list \<Rightarrow> nat" where
  "window_work cumulative =
    (let (b, e) = cut_range (length cumulative) in unat (cumulative ! (e - 1) - cumulative ! b))"

definition ideal_difficulty :: "u64 list \<Rightarrow> 'a::len word list \<Rightarrow> u64 \<Rightarrow> nat" where
  "ideal_difficulty timestamps cumulative target =
    (window_work cumulative * unat target + window_span timestamps - 1) div window_span timestamps"

section \<open>Hashes against difficulties\<close>

lemma le_nat_ones: "le_nat (replicate n 255) = 256 ^ n - 1"
proof -
  have "Suc (le_nat (replicate n 255)) = 256 ^ n" by (induction n) simp_all
  then show ?thesis by simp
qed

lemma unat_hash_word: "unat (hash_word h i) = le_nat (take 8 (drop (8 * i) h))"
proof -
  let ?b = "take 8 (drop (8 * i) h)"
  have "le_nat ?b < 256 ^ length ?b" by (rule le_nat_less)
  also have "\<dots> \<le> 256 ^ 8" by (rule power_increasing) simp_all
  finally have "le_nat ?b < 2 ^ 64" by simp
  then show ?thesis by (simp add: hash_word_def unat_of_nat)
qed

lemma le_nat_hash_words:
  assumes "length h = 32"
  shows "le_nat h = unat (hash_word h 0) + 2 ^ 64 * unat (hash_word h 1)
    + 2 ^ 128 * unat (hash_word h 2) + 2 ^ 192 * unat (hash_word h 3)"
proof -
  have cut: "le_nat (drop n h) = le_nat (take 8 (drop n h)) + 2 ^ 64 * le_nat (drop (n + 8) h)"
    if "n + 8 \<le> 32" for n
  proof -
    have "le_nat (drop n h) = le_nat (take 8 (drop n h) @ drop 8 (drop n h))"
      by (simp only: append_take_drop_id)
    also have "\<dots> = le_nat (take 8 (drop n h)) + 256 ^ 8 * le_nat (drop 8 (drop n h))"
      using that assms by (simp only: le_nat_append length_take length_drop) simp
    finally show ?thesis by (simp add: add.commute)
  qed
  have w: "unat (hash_word h 0) = le_nat (take 8 (drop 0 h))" "unat (hash_word h 1) = le_nat (take 8 (drop 8 h))"
    "unat (hash_word h 2) = le_nat (take 8 (drop 16 h))" "unat (hash_word h 3) = le_nat (take 8 (drop 24 h))"
    by (simp_all add: unat_hash_word)
  have "le_nat (drop 32 h) = 0" using assms by simp
  with cut [of 0] cut [of 8] cut [of 16] cut [of 24]
  have "le_nat (drop 0 h) = le_nat (take 8 (drop 0 h)) + 2 ^ 64 * (le_nat (take 8 (drop 8 h))
      + 2 ^ 64 * (le_nat (take 8 (drop 16 h)) + 2 ^ 64 * le_nat (take 8 (drop 24 h))))"
    by (simp del: drop_0)
  then show ?thesis unfolding w by (simp add: algebra_simps)
qed

lemma cadd_carry: "cadd a b \<longleftrightarrow> 2 ^ 64 \<le> unat a + unat b"
  using word_add_carry [of a b] unat_u64_less [of "a + b"] by (simp add: cadd_def del: unat_u64_less)

lemma cadc_carry: "cadc a b c \<longleftrightarrow> 2 ^ 64 \<le> unat a + unat b + of_bool c"
proof -
  have m: "a + b = -1 \<longleftrightarrow> unat (a + b) = 2 ^ 64 - 1"
    by (simp add: word_unat_eq_iff unsigned_minus_1_eq_mask mask_eq_exp_minus_1)
  show ?thesis
    using word_add_carry [of a b] unat_u64_less [of "a + b"] unat_u64_less [of a] unat_u64_less [of b]
    by (auto simp: cadc_def m simp del: unat_u64_less split: if_splits)
qed

text \<open>The column sums of a four-word product: the carry out of the last column decides.\<close>

lemma carry_chain:
  fixes l0 h0 l1 h1 l2 h2 l3 :: nat
  assumes "l0 < B" and "0 < B"
    and c1: "c1 \<longleftrightarrow> B \<le> h0 + l1" and c2: "c2 \<longleftrightarrow> B \<le> h1 + l2 + of_bool c1"
    and c3: "c3 \<longleftrightarrow> B \<le> h2 + l3 + of_bool c2"
    and lt: "h0 < B" "l1 < B" "h1 < B" "l2 < B" "h2 < B" "l3 < B"
  shows "l0 + B * (h0 + l1) + B * B * (h1 + l2) + B * B * B * (h2 + l3) < B * B * B * B \<longleftrightarrow> \<not> c3"
proof -
  define m1 where "m1 = h0 + l1 - B * of_bool c1"
  define m2 where "m2 = h1 + l2 + of_bool c1 - B * of_bool c2"
  have e1: "h0 + l1 = m1 + B * of_bool c1" "m1 < B" using c1 lt by (auto simp: m1_def)
  have e2: "h1 + l2 + of_bool c1 = m2 + B * of_bool c2" "m2 < B" using c2 lt by (auto simp: m2_def)
  have "l0 + B * (h0 + l1) + B * B * (h1 + l2) + B * B * B * (h2 + l3)
      = l0 + B * m1 + B * B * (h1 + l2 + of_bool c1) + B * B * B * (h2 + l3)"
    by (simp add: e1(1) algebra_simps)
  also have "\<dots> = l0 + B * m1 + B * B * m2 + B * B * B * (h2 + l3 + of_bool c2)"
    by (simp only: e2(1)) (simp add: algebra_simps)
  finally have sum: "l0 + B * (h0 + l1) + B * B * (h1 + l2) + B * B * B * (h2 + l3)
      = l0 + B * m1 + B * B * m2 + B * B * B * (h2 + l3 + of_bool c2)" .
  have a: "l0 + B * m1 < B * B"
  proof -
    have "l0 + B * m1 < B + B * m1" using assms(1) by simp
    also have "\<dots> = B * (m1 + 1)" by simp
    also have "\<dots> \<le> B * B" using e1(2) by (intro mult_le_mono2) simp
    finally show ?thesis .
  qed
  have b: "l0 + B * m1 + B * B * m2 < B * B * B"
  proof -
    have "l0 + B * m1 + B * B * m2 < B * B + B * B * m2" using a by simp
    also have "\<dots> = B * B * (m2 + 1)" by simp
    also have "\<dots> \<le> B * B * B" using e2(2) by (intro mult_le_mono2) simp
    finally show ?thesis .
  qed
  show ?thesis
  proof (cases c3)
    case True
    then have "B * B * B * B \<le> B * B * B * (h2 + l3 + of_bool c2)"
      using c3 by (intro mult_le_mono2) simp
    then show ?thesis using True unfolding sum by linarith
  next
    case False
    then have "B * B * B * (h2 + l3 + of_bool c2 + 1) \<le> B * B * B * B"
      using c3 by (intro mult_le_mono2) simp
    then show ?thesis using False b unfolding sum by (simp add: add_mult_distrib2)
  qed
qed

lemma check_hash_64_correct:
  assumes "length h = 32"
  shows "check_hash_64 h d \<longleftrightarrow> le_nat h * unat d < 2 ^ 256"
proof -
  obtain l0 h0 l1 h1 l2 h2 l3 h3 where
    m: "mul128 (hash_word h 0) d = (l0, h0)" "mul128 (hash_word h 1) d = (l1, h1)"
      "mul128 (hash_word h 2) d = (l2, h2)" "mul128 (hash_word h 3) d = (l3, h3)"
    by (meson surj_pair)
  note p = m [THEN mul128_correct, unfolded val128_def]
  have total: "le_nat h * unat d = unat l0 + 2 ^ 64 * (unat h0 + unat l1)
      + 2 ^ 64 * 2 ^ 64 * (unat h1 + unat l2) + 2 ^ 64 * 2 ^ 64 * 2 ^ 64 * (unat h2 + unat l3)
      + 2 ^ 256 * unat h3"
    unfolding le_nat_hash_words [OF assms] add_mult_distrib mult.assoc p [symmetric] by simp
  show ?thesis
  proof (cases "h3 = 0")
    case False
    then have "1 \<le> unat h3" by (simp add: unat_gt_0 Suc_le_eq)
    then have "2 ^ 256 * 1 \<le> 2 ^ 256 * unat h3" by (rule mult_le_mono2)
    then have "\<not> le_nat h * unat d < 2 ^ 256" unfolding total not_less mult_1_right by (rule trans_le_add2)
    moreover have "\<not> check_hash_64 h d" using False m by (simp add: check_hash_64_def mul_def)
    ultimately show ?thesis by blast
  next
    case True
    define c1 where "c1 = cadd h0 l1"
    define c2 where "c2 = cadc h1 l2 c1"
    define c3 where "c3 = cadc h2 l3 c2"
    have code: "check_hash_64 h d \<longleftrightarrow> \<not> c3"
      using True m by (simp add: check_hash_64_def mul_def c1_def c2_def c3_def Let_def)
    have chain: "unat l0 + 2 ^ 64 * (unat h0 + unat l1) + 2 ^ 64 * 2 ^ 64 * (unat h1 + unat l2)
        + 2 ^ 64 * 2 ^ 64 * 2 ^ 64 * (unat h2 + unat l3) < 2 ^ 64 * 2 ^ 64 * 2 ^ 64 * 2 ^ 64 \<longleftrightarrow> \<not> c3"
      by (rule carry_chain [of _ _ c1 _ _ c2])
        (simp_all only: c1_def c2_def c3_def cadd_carry cadc_carry, simp_all)
    have wide: "(2 ^ 256 :: nat) = 2 ^ 64 * 2 ^ 64 * 2 ^ 64 * 2 ^ 64" by simp
    show ?thesis
      unfolding code total True unsigned_0 mult_0_right add_0_right wide by (rule chain [symmetric])
  qed
qed

text \<open>One turn of the loop that accumulates the hash in 512 bits.\<close>

lemma unat_shift_or_word:
  fixes acc :: "512 word" and w :: u64
  assumes "unat acc < 2 ^ 256"
  shows "unat (push_bit 64 acc OR ucast w) = unat acc * 2 ^ 64 + unat w"
proof -
  have w: "take_bit 64 (ucast w :: 512 word) = ucast w"
    by (simp add: word_unat_eq_iff unat_take_bit unat_ucast_up)
  have bound: "unat acc * 2 ^ 64 < 2 ^ 256 * 2 ^ 64" using assms by simp
  then have acc: "unat (push_bit 64 acc) = unat acc * 2 ^ 64"
    by (simp add: unat_push_bit)
  have "unat acc * 2 ^ 64 + unat w < 2 ^ 512"
    using bound unat_u64_less [of w] by (simp del: unat_u64_less)
  then show ?thesis
    using push_bit_or_take_bit [of 64 acc "ucast w"]
    by (simp add: w acc unat_add_no_overflow unat_ucast_up)
qed

lemma unat_hashVal:
  assumes "length h = 32"
  shows "unat (fold (\<lambda>i acc. push_bit 64 acc OR ucast (hash_word h (3 - i))) [0..<4] (0 :: 512 word)) = le_nat h"
proof -
  define a1 where "a1 = push_bit 64 (0 :: 512 word) OR ucast (hash_word h 3)"
  define a2 where "a2 = push_bit 64 a1 OR ucast (hash_word h 2)"
  define a3 where "a3 = push_bit 64 a2 OR ucast (hash_word h 1)"
  define a4 where "a4 = push_bit 64 a3 OR ucast (hash_word h 0)"
  have f: "fold (\<lambda>i acc. push_bit 64 acc OR ucast (hash_word h (3 - i))) [0..<4] (0 :: 512 word) = a4"
  proof -
    have "[0..<4] = [0, 1, 2, 3 :: nat]" by (simp add: upt_rec)
    moreover have "3 - 0 = (3::nat)" "3 - 1 = (2::nat)" "3 - 2 = (1::nat)" "3 - 3 = (0::nat)" by simp_all
    ultimately show ?thesis by (simp only: fold_simps a1_def a2_def a3_def a4_def)
  qed
  note lt = unat_u64_less [of "hash_word h 0"] unat_u64_less [of "hash_word h 1"]
    unat_u64_less [of "hash_word h 2"] unat_u64_less [of "hash_word h 3"]
  have u1: "unat a1 = unat (hash_word h 3)"
    unfolding a1_def by (subst unat_shift_or_word) simp_all
  then have u2: "unat a2 = unat (hash_word h 3) * 2 ^ 64 + unat (hash_word h 2)"
    unfolding a2_def using lt by (subst unat_shift_or_word) (simp_all del: unat_u64_less)
  then have u3: "unat a3 = unat a2 * 2 ^ 64 + unat (hash_word h 1)"
    unfolding a3_def using lt by (subst unat_shift_or_word) (simp_all del: unat_u64_less)
  then have u4: "unat a4 = unat a3 * 2 ^ 64 + unat (hash_word h 0)"
    unfolding a4_def using u2 lt by (subst unat_shift_or_word) (simp_all del: unat_u64_less)
  show ?thesis
    unfolding f u4 u3 u2 le_nat_hash_words [OF assms] by (simp add: algebra_simps)
qed

lemma check_hash_128_correct:
  assumes "length h = 32"
  shows "check_hash_128 h d \<longleftrightarrow> le_nat h * unat d < 2 ^ 256"
proof -
  let ?v = "fold (\<lambda>i acc. push_bit 64 acc OR ucast (hash_word h (3 - i))) [0..<4] (0 :: 512 word)"
  have d: "unat (ucast d :: 512 word) = unat d" by (simp add: unat_ucast_up)
  have "le_nat h < 2 ^ 256" using le_nat_less [of h] assms by simp
  moreover have "unat d < 2 ^ 128" using unsigned_less [of d] by simp
  ultimately have "le_nat h * unat d < 2 ^ 256 * 2 ^ 128" by (intro mult_strict_mono') simp_all
  then have "unat (?v * ucast d) = le_nat h * unat d"
    by (simp add: unat_mult_no_overflow unat_hashVal [OF assms] d)
  then have "?v * ucast d \<le> 2 ^ 256 - 1 \<longleftrightarrow> le_nat h * unat d \<le> 2 ^ 256 - 1"
    by (simp add: word_le_nat_alt)
  then show ?thesis by (simp add: check_hash_128_def less_eq_Suc_le Suc_le_eq [symmetric])
qed

text \<open>Both paths, and so \<open>check_hash\<close> itself, decide the same comparison.\<close>

lemma check_hash_64_128:
  assumes "length h = 32"
  shows "check_hash_64 h d = check_hash_128 h (ucast d)"
  using assms by (simp add: check_hash_64_correct check_hash_128_correct unat_ucast_up)

lemma check_hash_correct:
  assumes "length h = 32"
  shows "check_hash h d \<longleftrightarrow> le_nat h * unat d < 2 ^ 256"
proof (cases "d \<le> 0xFFFFFFFFFFFFFFFF")
  case True
  then have "unat d < 2 ^ 64" by (simp add: word_le_nat_alt)
  then have "unat (ucast d :: u64) = unat d" by (simp add: unsigned_ucast_eq take_bit_eq_mod)
  then show ?thesis using True assms by (simp add: check_hash_def check_hash_64_correct)
next
  case False
  then show ?thesis using assms by (simp add: check_hash_def check_hash_128_correct)
qed

text \<open>A hash that meets a difficulty meets every lower one, and so does every smaller hash.\<close>

lemma check_hash_antimono:
  assumes "length h = 32" and "length h' = 32"
    and "check_hash h d" and "d' \<le> d" and "le_nat h' \<le> le_nat h"
  shows "check_hash h' d'"
proof -
  have "le_nat h' * unat d' \<le> le_nat h * unat d"
    using assms by (intro mult_le_mono) (simp_all add: word_le_nat_alt)
  with assms show ?thesis by (simp add: check_hash_correct)
qed

section \<open>The window\<close>

lemmas window_consts = DIFFICULTY_WINDOW_def DIFFICULTY_CUT_def

text \<open>
  The assertion \<open>cut_begin + 2 <= cut_end && cut_end <= length\<close> of the code holds for every window
  of at least two blocks, so every read of the sorted window is in range.
\<close>

lemma cut_range_bounds:
  assumes "2 \<le> len" and "len \<le> DIFFICULTY_WINDOW" and "cut_range len = (b, e)"
  shows "b + 2 \<le> e" and "e \<le> len"
  using assms by (auto simp: cut_range_def window_consts Let_def split: if_splits)

lemma cut_range_symmetric:
  assumes "len \<le> DIFFICULTY_WINDOW" and "cut_range len = (b, e)"
  shows "b - (len - e) \<le> 1" and "len - e \<le> b" and "b \<le> DIFFICULTY_CUT"
  using assms by (auto simp: cut_range_def window_consts Let_def split: if_splits)

lemma window_span_word:
  assumes "2 \<le> length ts" and "length ts \<le> DIFFICULTY_WINDOW" and "cut_range (length ts) = (b, e)"
  defines "d \<equiv> sort ts ! (e - 1) - sort ts ! b"
  shows "unat (if d = 0 then 1 else d) = window_span ts"
proof -
  have "b + 2 \<le> e" "e \<le> length ts" using assms(1-3) by (rule cut_range_bounds)+
  then have "sort ts ! b \<le> sort ts ! (e - 1)" by (intro sorted_nth_mono) simp_all
  then have d: "unat d = unat (sort ts ! (e - 1)) - unat (sort ts ! b)"
    unfolding d_def by (intro unat_sub_no_underflow) (simp add: word_le_nat_alt)
  show ?thesis
  proof (cases "d = 0")
    case True
    then show ?thesis using d assms(3) by (simp add: window_span_def Let_def)
  next
    case False
    then have "1 \<le> unat d" by (simp add: unat_gt_0 Suc_le_eq)
    then show ?thesis using False d assms(3) by (simp add: window_span_def Let_def)
  qed
qed

lemma window_span_pos: "0 < window_span ts"
  by (auto simp: window_span_def Let_def max_def split: prod.splits)

lemma window_span_less: "window_span ts < 2 ^ 64"
proof -
  have "unat (s ! i) - unat (s ! j) < 2 ^ 64" for s :: "u64 list" and i j
    using unat_u64_less [of "s ! i"] by (simp del: unat_u64_less)
  then show ?thesis by (simp add: window_span_def Let_def split: prod.splits)
qed

lemma next_difficulty_window:
  assumes "length ts = length cd" and "2 \<le> length ts" and "length ts \<le> DIFFICULTY_WINDOW"
  shows "next_difficulty ts cd target =
    Some (if ideal_difficulty ts cd target < 2 ^ 128 then of_nat (ideal_difficulty ts cd target) else 0)"
proof -
  obtain b e where be: "cut_range (length ts) = (b, e)" by fastforce
  define span where "span = (if sort ts ! (e - 1) - sort ts ! b = 0 then 1 else sort ts ! (e - 1) - sort ts ! b)"
  define work where "work = cd ! (e - 1) - cd ! b"
  define res where "res = ((ucast work :: u256) * ucast target + ucast span - 1) div ucast span"
  have code: "next_difficulty ts cd target = Some (if res > 2 ^ 128 - 1 then 0 else ucast res)"
    using assms be by (auto simp: next_difficulty_def Let_def span_def work_def res_def)
  have s: "unat span = window_span ts"
    unfolding span_def by (rule window_span_word [OF assms(2,3) be])
  have w: "unat work = window_work cd"
    using be assms by (simp add: window_work_def work_def)
  have cast: "unat (ucast span :: u256) = window_span ts" "unat (ucast work :: u256) = window_work cd"
    "unat (ucast target :: u256) = unat target"
    by (simp_all add: unat_ucast_up s w)
  have "window_work cd < 2 ^ 128" using unat_u128_less [of work] w by (simp del: unat_u128_less)
  then have "window_work cd * unat target < 2 ^ 128 * 2 ^ 64" by (intro mult_strict_mono') simp_all
  moreover note window_span_less [of ts] window_span_pos [of ts]
  ultimately have fits: "window_work cd * unat target + window_span ts < 2 ^ 256"
    and wt: "window_work cd * unat target < 2 ^ 256" by simp_all
  have num: "unat ((ucast work :: u256) * ucast target + ucast span - 1)
      = window_work cd * unat target + window_span ts - 1"
    using fits wt window_span_pos [of ts]
    by (simp add: unat_sub_no_underflow unat_add_no_overflow unat_mult_no_overflow cast)
  have r: "unat res = ideal_difficulty ts cd target"
    by (simp add: res_def unat_div_distrib num cast ideal_difficulty_def)
  have "res > 2 ^ 128 - 1 \<longleftrightarrow> \<not> ideal_difficulty ts cd target < 2 ^ 128"
    by (auto simp: word_less_nat_alt r)
  moreover have "ucast res = (of_nat (ideal_difficulty ts cd target) :: u128)"
    by (simp flip: r)
  ultimately show ?thesis by (simp add: code)
qed

lemma next_difficulty_long:
  assumes "length ts = length cd" and "DIFFICULTY_WINDOW < length ts"
  shows "next_difficulty ts cd target
    = next_difficulty (take DIFFICULTY_WINDOW ts) (take DIFFICULTY_WINDOW cd) target"
  using assms by (simp add: next_difficulty_def resize_def Let_def)

text \<open>The order of the timestamps inside the window does not matter.\<close>

lemma next_difficulty_perm:
  assumes "mset ts = mset ts'" and "length ts \<le> DIFFICULTY_WINDOW"
  shows "next_difficulty ts cd target = next_difficulty ts' cd target"
proof -
  have "length ts = length ts'" using assms(1) by (rule mset_eq_length)
  moreover have "sort ts = sort ts'" using assms(1) by (simp add: properties_for_sort)
  ultimately show ?thesis using assms(2) by (simp add: next_difficulty_def Let_def)
qed

lemmas ideal_difficulty_ceiling =
  ceil_div [OF window_span_pos, of "window_work cd * unat target" ts for cd target ts,
    folded ideal_difficulty_def]

text \<open>
  The two generations of the algorithm: wherever the 64-bit one does not give up (it returns 0 on
  overflow), the 128-bit one computes the same difficulty.
\<close>

lemma next_difficulty_64_window:
  assumes "length ts = length cd" and "2 \<le> length ts" and "length ts \<le> DIFFICULTY_WINDOW"
  shows "next_difficulty_64 ts cd target =
    Some (if window_work cd * unat target + window_span ts - 1 < 2 ^ 64
      then of_nat (ideal_difficulty ts cd target) else 0)"
proof -
  obtain b e where be: "cut_range (length ts) = (b, e)" by fastforce
  define span where "span = (if sort ts ! (e - 1) - sort ts ! b = 0 then 1 else sort ts ! (e - 1) - sort ts ! b)"
  define work where "work = cd ! (e - 1) - cd ! b"
  obtain low high where m: "mul128 work target = (low, high)" by fastforce
  have code: "next_difficulty_64 ts cd target = Some (if high \<noteq> 0 \<or> low + span - 1 < low then 0
      else (low + span - 1) div span)"
    using assms be m by (auto simp: next_difficulty_64_def mul_def Let_def span_def work_def)
  have s: "unat span = window_span ts"
    unfolding span_def by (rule window_span_word [OF assms(2,3) be])
  have w: "unat work = window_work cd"
    using be assms by (simp add: window_work_def work_def)
  have s1: "unat (span - 1) = window_span ts - 1"
    using window_span_pos [of ts] s by (subst unat_sub_no_underflow) simp_all
  have sum: "unat low + unat (span - 1) = unat (low + span - 1) + (if low + span - 1 < low then 2 ^ 64 else 0)"
    using word_add_carry [of low "span - 1"] by (simp add: add_diff_eq)
  show ?thesis
  proof (cases "high = 0")
    case True
    then have low: "unat low = window_work cd * unat target" using mul128_fits(2) [OF m] w by simp
    have eq: "unat low + unat (span - 1) = window_work cd * unat target + window_span ts - 1"
      using window_span_pos [of ts] low s1 by simp
    show ?thesis
    proof (cases "low + span - 1 < low")
      case carry: True
      with sum eq have "\<not> window_work cd * unat target + window_span ts - 1 < 2 ^ 64" by simp
      with carry code show ?thesis by simp
    next
      case False
      with sum eq have n: "unat (low + span - 1) = window_work cd * unat target + window_span ts - 1" by simp
      then have q: "unat ((low + span - 1) div span) = ideal_difficulty ts cd target"
        by (simp add: unat_div_distrib s ideal_difficulty_def)
      have "(low + span - 1) div span = of_nat (ideal_difficulty ts cd target)"
        by (simp flip: q)
      then show ?thesis using True False code n unat_u64_less [of "low + span - 1"] by simp
    qed
  next
    case False
    then have "\<not> window_work cd * unat target < 2 ^ 64" using mul128_fits(1) [OF m] w by simp
    then have "\<not> window_work cd * unat target + window_span ts - 1 < 2 ^ 64"
      using window_span_pos [of ts] by linarith
    then show ?thesis using False code by simp
  qed
qed

lemma window_work_ucast:
  assumes "sorted cd" and "2 \<le> length cd" and "length cd \<le> DIFFICULTY_WINDOW"
  shows "window_work (map ucast cd :: u128 list) = window_work (cd :: u64 list)"
proof -
  obtain b e where be: "cut_range (length cd) = (b, e)" by fastforce
  have "b + 2 \<le> e" "e \<le> length cd" using assms(2,3) be by (rule cut_range_bounds)+
  moreover from this have "cd ! b \<le> cd ! (e - 1)" using assms(1) by (intro sorted_nth_mono) simp_all
  ultimately show ?thesis
    using be by (simp add: window_work_def unat_sub_no_underflow unat_ucast_up word_le_nat_alt)
qed

lemma next_difficulty_64_agrees:
  assumes "length ts = length cd" and "2 \<le> length ts" and "length ts \<le> DIFFICULTY_WINDOW"
    and "sorted cd" and "next_difficulty_64 ts cd target = Some d" and "d \<noteq> 0"
  shows "next_difficulty ts (map ucast cd) target = Some (ucast d)"
proof -
  have work: "window_work (map ucast cd :: u128 list) = window_work cd"
    using assms by (intro window_work_ucast) simp_all
  then have ideal: "ideal_difficulty ts (map ucast cd :: u128 list) target = ideal_difficulty ts cd target"
    by (simp add: ideal_difficulty_def)
  have small: "window_work cd * unat target + window_span ts - 1 < 2 ^ 64"
    and d: "d = of_nat (ideal_difficulty ts cd target)"
    using assms next_difficulty_64_window [of ts cd target] by (auto split: if_splits)
  have "ideal_difficulty ts cd target \<le> window_work cd * unat target + window_span ts - 1"
    unfolding ideal_difficulty_def by (rule div_le_dividend)
  with small have lt: "ideal_difficulty ts cd target < 2 ^ 64" by linarith
  then have "ucast d = (of_nat (ideal_difficulty ts cd target) :: u128)"
    by (simp add: d word_unat_eq_iff unat_ucast_up unat_of_nat)
  with lt show ?thesis
    using assms next_difficulty_window [of ts "map ucast cd" target] by (simp add: ideal)
qed

section \<open>Printing\<close>

text \<open>Reading the digits back, least significant first.\<close>

definition hex_digit :: "char \<Rightarrow> nat" where
  "hex_digit c = length (takeWhile (\<lambda>x. x \<noteq> c) ''0123456789abcdef'')"

fun hex_value :: "string \<Rightarrow> nat" where
  "hex_value [] = 0"
| "hex_value (c # cs) = hex_digit c + 16 * hex_value cs"

lemma hex_digit_char: "d < 16 \<Longrightarrow> hex_digit (hex_char d) = d"
  by (auto simp: hex_digit_def hex_char_def numeral_eq_Suc less_Suc_eq)

lemma hex_value_append: "hex_value (xs @ ys) = hex_value xs + 16 ^ length xs * hex_value ys"
  by (induction xs) simp_all

lemma hex_loop_value:
  "hex_value (hex_loop v s) = hex_value s + 16 ^ length s * unat v"
proof (induction v s rule: hex_loop.induct)
  case (1 v s)
  show ?case
  proof (cases "v > 0")
    case True
    have "v AND 0xf = take_bit 4 v" by (simp add: take_bit_eq_mask mask_eq_exp_minus_1)
    then have d: "unat (v AND 0xf) = unat v mod 16" by (simp add: unat_take_bit)
    have "hex_value (hex_loop v s) = hex_value (hex_loop (drop_bit 4 v) (s @ [hex_char (unat (v AND 0xf))]))"
      using True by (subst hex_loop.simps) simp
    also have "\<dots> = hex_value s + 16 ^ length s * (unat v mod 16) + 16 ^ Suc (length s) * (unat v div 16)"
      using "1" [OF True] by (simp add: d hex_value_append hex_digit_char unat_drop_bit)
    also have "\<dots> = hex_value s + 16 ^ length s * (unat v mod 16 + 16 * (unat v div 16))"
      by (simp only: add_mult_distrib2 power_Suc mult.assoc mult.left_commute [of 16] add.assoc)
    finally show ?thesis by simp
  next
    case False
    then show ?thesis by (subst hex_loop.simps) (simp add: word_gt_0)
  qed
qed

lemma hex_roundtrip: "hex_value (rev (drop 2 (hex v))) = unat v"
proof -
  have "hex_value ''0'' = 0" by (simp add: hex_digit_def)
  then show ?thesis
    using hex_loop_value [of v "[]"] by (auto simp: hex_def Let_def simp del: hex_loop.simps)
qed

section \<open>Properties\<close>

text \<open>
  C1. For every 32-byte hash and every 128-bit difficulty, \<open>check_hash\<close> (which multiplies the hash by
  the difficulty in four 64-bit columns for small difficulties and in 512-bit integers for large
  ones) accepts exactly when the hash, read as a little-endian number, times the difficulty does not
  overflow 256 bits.
\<close>

theorem check_hash_decides:
  assumes "length h = 32"
  shows "check_hash h d \<longleftrightarrow> le_nat h * unat d < 2 ^ 256"
  using assms by (rule check_hash_correct)

theorem check_hash_decides_witness:
  "check_hash (replicate 32 255) 1 \<and> \<not> check_hash (replicate 32 255) 2"
  using check_hash_decides [of "replicate 32 255" 1] check_hash_decides [of "replicate 32 255" 2]
  by (simp add: le_nat_ones)



text \<open>
  Within a window the order in which the timestamps arrive has no influence on the next
  difficulty: only their multiset counts.
\<close>

lemma next_difficulty_order_free:
  assumes "mset ts = mset ts'" and "length ts \<le> DIFFICULTY_WINDOW"
  shows "next_difficulty ts cd target = next_difficulty ts' cd target"
  using assms by (rule next_difficulty_perm)

lemma next_difficulty_order_free_witness:
  "next_difficulty [1, 5, 9] [2, 3, 4] 120 = next_difficulty [9, 1, 5] [2, 3, 4] 120"
  using next_difficulty_order_free [of "[1, 5, 9]" "[9, 1, 5]" "[2, 3, 4]" 120]
  by (simp add: window_consts add_mset_commute)

text \<open>
  The 64-bit predecessor and the 128-bit algorithm agree: on a non-decreasing chain, whenever
  \<open>next_difficulty_64\<close> returns a non-zero difficulty, \<open>next_difficulty\<close> returns the same number.
\<close>

lemma next_difficulty_generations_agree:
  assumes "length ts = length cd" and "2 \<le> length ts" and "length ts \<le> DIFFICULTY_WINDOW"
    and "sorted cd" and "next_difficulty_64 ts cd target = Some d" and "d \<noteq> 0"
  shows "next_difficulty ts (map ucast cd) target = Some (ucast d)"
  using assms by (rule next_difficulty_64_agrees)

lemma next_difficulty_generations_agree_witness:
  "next_difficulty [100, 40, 220] (map ucast [10, 30, 60 :: u64]) 120 = Some (ucast (34 :: u64))"
proof (rule next_difficulty_generations_agree)
  show "next_difficulty_64 [100, 40, 220] [10, 30, 60] 120 = Some 34"
    by (simp add: next_difficulty_64_def cut_range_def window_consts mul_def mul128_def hi_dword_def lo_dword_def)
qed (simp_all add: window_consts)

text \<open>
  The hexadecimal rendering of a difficulty reads back as that difficulty: the digits after
  the \<open>0x\<close>, least significant first, have its value.
\<close>

lemma hex_reads_back: "hex_value (rev (drop 2 (hex v))) = unat v"
  by (rule hex_roundtrip)

end
