(* ===== verification/Block_Weight.thy ===== *)
theory Block_Weight
  imports Block_Reward Difficulty
begin

text \<open>
  What the chain derives from the recent blocks: the median of \<open>contrib/epee/include/misc_language.h\<close>
  and, of \<open>src/cryptonote_core/blockchain.cpp\<close>, the checks of timestamps, the long-term weight of a
  block, the limit on the weight of the next one, and the fee per byte. The long-term median is an
  argument (the code takes it from a cache). \<open>None\<close> is an exception or a failed assertion.

  The lemmas show that the median is exact and free of overflow, how far weights and the limit can
  move, and that the fee is the rounded quotient that the comments of the code announce.
\<close>

section \<open>Definitions\<close>

definition get_mid :: "u64 \<Rightarrow> u64 \<Rightarrow> u64" where
  "get_mid a b = (a div 2) + (b div 2) + ((a - 2 * (a div 2)) + (b - 2 * (b div 2))) div 2"

definition median :: "u64 list \<Rightarrow> u64" where
  "median v =
    (if v = [] then 0
     else if length v = 1 then v ! 0
     else
       let n = length v div 2;
           v = sort v
       in if length v mod 2 \<noteq> 0 then v ! n else get_mid (v ! (n - 1)) (v ! n))"

definition BLOCKCHAIN_TIMESTAMP_CHECK_WINDOW :: nat where "BLOCKCHAIN_TIMESTAMP_CHECK_WINDOW = 60"
definition CRYPTONOTE_BLOCK_FUTURE_TIME_LIMIT :: u64 where "CRYPTONOTE_BLOCK_FUTURE_TIME_LIMIT = 60 * 60 * 2"

text \<open>The timestamps of the chain are listed by height; \<open>now\<close> is the clock.\<close>

definition check_block_timestamp :: "u64 \<Rightarrow> u64 list \<Rightarrow> u64 \<Rightarrow> bool" where
  "check_block_timestamp now chain timestamp =
    (if timestamp > now + CRYPTONOTE_BLOCK_FUTURE_TIME_LIMIT then False
     else
       let h = length chain
       in if h < BLOCKCHAIN_TIMESTAMP_CHECK_WINDOW then True
          else
            let offset = h - BLOCKCHAIN_TIMESTAMP_CHECK_WINDOW;
                median_ts = median (drop offset chain)
            in if timestamp < median_ts then False else True)"

definition get_adjusted_time :: "u64 \<Rightarrow> u64 list \<Rightarrow> nat \<Rightarrow> u64 option" where
  "get_adjusted_time now chain height =
    (if height < BLOCKCHAIN_TIMESTAMP_CHECK_WINDOW then Some now
     else if height > length chain then None
     else
       let offset = height - BLOCKCHAIN_TIMESTAMP_CHECK_WINDOW;
           timestamps = take (height - offset) (drop offset chain);
           median_ts = median timestamps;
           median_ts = median_ts + (of_nat BLOCKCHAIN_TIMESTAMP_CHECK_WINDOW + 1) * DIFFICULTY_TARGET_V2 div 2;
           adjusted_current_block_ts = last timestamps + DIFFICULTY_TARGET_V2
       in Some (if adjusted_current_block_ts < median_ts then adjusted_current_block_ts else median_ts))"

definition HF_VERSION_LONG_TERM_BLOCK_WEIGHT :: u8 where "HF_VERSION_LONG_TERM_BLOCK_WEIGHT = 10"
definition HF_VERSION_2021_SCALING :: u8 where "HF_VERSION_2021_SCALING = 15"
definition HF_VERSION_PER_BYTE_FEE :: u8 where "HF_VERSION_PER_BYTE_FEE = 8"
definition HF_VERSION_DYNAMIC_FEE :: u8 where "HF_VERSION_DYNAMIC_FEE = 4"
definition CRYPTONOTE_SHORT_TERM_BLOCK_WEIGHT_SURGE_FACTOR :: u64 where
  "CRYPTONOTE_SHORT_TERM_BLOCK_WEIGHT_SURGE_FACTOR = 50"
definition CRYPTONOTE_REWARD_BLOCKS_WINDOW :: nat where "CRYPTONOTE_REWARD_BLOCKS_WINDOW = 100"

definition get_next_long_term_block_weight :: "u8 \<Rightarrow> u64 \<Rightarrow> u64 \<Rightarrow> u64" where
  "get_next_long_term_block_weight hf_version long_term_median block_weight =
    (if hf_version < HF_VERSION_LONG_TERM_BLOCK_WEIGHT then block_weight
     else
       let effective = max CRYPTONOTE_BLOCK_GRANTED_FULL_REWARD_ZONE_V5 long_term_median;
           (block_weight, short_term_constraint) =
             (if hf_version \<ge> HF_VERSION_2021_SCALING
              then (max block_weight (effective * 10 div 17), effective + effective * 7 div 10)
              else (block_weight, effective + effective * 2 div 5))
       in min block_weight short_term_constraint)"

record weight_state =
  m_long_term_effective_median_block_weight :: u64
  m_current_block_cumul_weight_median :: u64
  m_current_block_cumul_weight_limit :: u64

text \<open>The weights of the last blocks of the chain, whose weights are listed by height.\<close>

definition get_last_n_blocks_weights :: "u64 list \<Rightarrow> nat \<Rightarrow> u64 list" where
  "get_last_n_blocks_weights chain n = drop (length chain - min (length chain) n) chain"

definition update_next_cumulative_weight_limit :: "u8 \<Rightarrow> u64 list \<Rightarrow> u64 \<Rightarrow> weight_state \<Rightarrow> weight_state" where
  "update_next_cumulative_weight_limit hf_version chain long_term_median s =
    (let full_reward_zone = get_min_block_weight hf_version;
         weights = get_last_n_blocks_weights chain CRYPTONOTE_REWARD_BLOCKS_WINDOW;
         s = (if hf_version < HF_VERSION_LONG_TERM_BLOCK_WEIGHT
              then s\<lparr>m_current_block_cumul_weight_median := median weights\<rparr>
              else
                let effective = max CRYPTONOTE_BLOCK_GRANTED_FULL_REWARD_ZONE_V5 long_term_median;
                    short_term_median = median weights;
                    effective_median_block_weight =
                      (if hf_version \<ge> HF_VERSION_2021_SCALING
                       then min (max effective short_term_median) (CRYPTONOTE_SHORT_TERM_BLOCK_WEIGHT_SURGE_FACTOR * effective)
                       else min (max CRYPTONOTE_BLOCK_GRANTED_FULL_REWARD_ZONE_V5 short_term_median)
                         (CRYPTONOTE_SHORT_TERM_BLOCK_WEIGHT_SURGE_FACTOR * effective))
                in s\<lparr>m_long_term_effective_median_block_weight := effective,
                     m_current_block_cumul_weight_median := effective_median_block_weight\<rparr>);
         s = (if m_current_block_cumul_weight_median s \<le> full_reward_zone
              then s\<lparr>m_current_block_cumul_weight_median := full_reward_zone\<rparr> else s)
     in s\<lparr>m_current_block_cumul_weight_limit := m_current_block_cumul_weight_median s * 2\<rparr>)"

definition DYNAMIC_FEE_REFERENCE_TRANSACTION_WEIGHT :: u64 where "DYNAMIC_FEE_REFERENCE_TRANSACTION_WEIGHT = 3000"
definition FEE_PER_KB :: u64 where "FEE_PER_KB = 2000000000"
definition DYNAMIC_FEE_PER_KB_BASE_FEE :: u64 where "DYNAMIC_FEE_PER_KB_BASE_FEE = 2000000000"
definition DYNAMIC_FEE_PER_KB_BASE_BLOCK_REWARD :: u64 where "DYNAMIC_FEE_PER_KB_BASE_BLOCK_REWARD = 10000000000000"
definition DYNAMIC_FEE_PER_KB_BASE_FEE_V5 :: u64 where
  "DYNAMIC_FEE_PER_KB_BASE_FEE_V5 =
    2000000000 * CRYPTONOTE_BLOCK_GRANTED_FULL_REWARD_ZONE_V2 div CRYPTONOTE_BLOCK_GRANTED_FULL_REWARD_ZONE_V5"

text \<open>Ten to the difference of the display decimals (8) and the quantisation decimals (8).\<close>

definition get_fee_quantization_mask :: u64 where "get_fee_quantization_mask = 10 ^ (8 - 8)"

definition get_dynamic_base_fee :: "u64 \<Rightarrow> u64 \<Rightarrow> u8 \<Rightarrow> u64 option" where
  "get_dynamic_base_fee block_reward median_block_weight version =
    (let min_block_weight = get_min_block_weight version;
         median_block_weight = (if median_block_weight < min_block_weight then min_block_weight else median_block_weight)
     in if version \<ge> HF_VERSION_PER_BYTE_FEE then
          let (lo, hi) = mul128 block_reward DYNAMIC_FEE_REFERENCE_TRANSACTION_WEIGHT
          in case div128_64 hi lo median_block_weight of
               None \<Rightarrow> None
             | Some ((hi, lo), _) \<Rightarrow>
                 if version \<ge> HF_VERSION_2021_SCALING then
                   (case div128_64 hi lo median_block_weight of
                      None \<Rightarrow> None
                    | Some ((hi, lo), _) \<Rightarrow>
                        if hi \<noteq> 0 then None else let lo = lo - lo div 20 in Some (if lo = 0 then 1 else lo))
                 else
                   (case div128_64 hi lo min_block_weight of
                      None \<Rightarrow> None
                    | Some ((hi, lo), _) \<Rightarrow> if hi \<noteq> 0 then None else Some (lo div 5))
        else
          let fee_base = (if version \<ge> 5 then DYNAMIC_FEE_PER_KB_BASE_FEE_V5 else DYNAMIC_FEE_PER_KB_BASE_FEE);
              unscaled_fee_base = fee_base * min_block_weight div median_block_weight;
              (lo, hi) = mul128 unscaled_fee_base block_reward
          in case div128_64 hi lo DYNAMIC_FEE_PER_KB_BASE_BLOCK_REWARD of
               None \<Rightarrow> None
             | Some ((hi, lo), _) \<Rightarrow>
                 if hi \<noteq> 0 then None
                 else let mask = get_fee_quantization_mask in Some ((lo + mask - 1) div mask * mask))"

text \<open>
  The acceptance of a fee, with the chain's height, generated coins and weight state as arguments. The
  result is \<open>None\<close> where the calculation of the base fee fails an assertion.
\<close>

definition check_fee :: "u8 \<Rightarrow> u64 \<Rightarrow> u64 \<Rightarrow> weight_state \<Rightarrow> u64 \<Rightarrow> u64 \<Rightarrow> bool option" where
  "check_fee version blockchain_height already_generated_coins s tx_weight fee =
    (let median = m_current_block_cumul_weight_limit s div 2
     in case (if version \<ge> HF_VERSION_DYNAMIC_FEE
              then get_block_reward median 1 already_generated_coins version blockchain_height else Some 0) of
          None \<Rightarrow> Some False
        | Some base_reward \<Rightarrow>
            let enough = (\<lambda>needed_fee. \<not> fee < needed_fee - needed_fee div 50)
            in if version \<ge> HF_VERSION_PER_BYTE_FEE then
                 let fee_median = (if version \<ge> HF_VERSION_LONG_TERM_BLOCK_WEIGHT
                       then min median (m_long_term_effective_median_block_weight s) else median);
                     mask = get_fee_quantization_mask
                 in map_option (\<lambda>fee_per_byte.
                      let needed_fee = tx_weight * fee_per_byte;
                          needed_fee = (needed_fee + mask - 1) div mask * mask
                      in enough needed_fee) (get_dynamic_base_fee base_reward fee_median version)
               else
                 map_option (\<lambda>fee_per_kb.
                     let needed_fee = tx_weight div 1024;
                         needed_fee = needed_fee + (if tx_weight mod 1024 \<noteq> 0 then 1 else 0)
                     in enough (needed_fee * fee_per_kb))
                   (if version < HF_VERSION_DYNAMIC_FEE then Some FEE_PER_KB
                    else get_dynamic_base_fee base_reward median version))"

section \<open>The median\<close>

lemma len64: "2 ^ LENGTH(64) = (2 :: nat) ^ 64"
  by simp

lemma unat_get_mid: "unat (get_mid a b) = (unat a + unat b) div 2"
proof -
  have h: "unat (x div 2) = unat x div 2" for x :: u64 by (simp add: unat_div)
  have s: "unat (x - 2 * (x div 2)) = unat x mod 2" for x :: u64
    using unat_mod [of x 2] by (simp add: minus_mult_div_eq_mod)
  have ab: "unat a < 2 ^ 64" "unat b < 2 ^ 64" by simp_all
  have mid: "unat a div 2 + unat b div 2 + (unat a mod 2 + unat b mod 2) div 2 = (unat a + unat b) div 2" by presburger
  have o: "unat a div 2 + unat b div 2 < 2 ^ 64" "unat a div 2 + unat b div 2 + (unat a mod 2 + unat b mod 2) div 2 < 2 ^ 64"
    unfolding mid using ab by linarith+
  have 1: "unat (a div 2 + b div 2) = unat a div 2 + unat b div 2"
    using o(1) by (subst unat_add_no_overflow) (simp_all add: h)
  have 2: "unat ((a - 2 * (a div 2)) + (b - 2 * (b div 2))) = unat a mod 2 + unat b mod 2"
    by (subst unat_add_no_overflow) (auto simp: s)
  have 3: "unat (((a - 2 * (a div 2)) + (b - 2 * (b div 2))) div 2) = (unat a mod 2 + unat b mod 2) div 2"
    unfolding h 2 ..
  have "unat (get_mid a b) = unat (a div 2 + b div 2) + unat (((a - 2 * (a div 2)) + (b - 2 * (b div 2))) div 2)"
    unfolding get_mid_def by (rule unat_add_no_overflow) (unfold 1 3 len64, rule o(2))
  also have "\<dots> = unat a div 2 + unat b div 2 + (unat a mod 2 + unat b mod 2) div 2" unfolding 1 3 ..
  also have "\<dots> = (unat a + unat b) div 2" by (rule mid)
  finally show ?thesis .
qed

text \<open>The median over the natural numbers.\<close>

definition median_nat :: "nat list \<Rightarrow> nat" where
  "median_nat v =
    (if v = [] then 0
     else let s = sort v; n = length v in (s ! ((n - 1) div 2) + s ! (n div 2)) div 2)"

lemma sort_unat: "map unat (sort v) = sort (map unat (v :: u64 list))"
proof (rule properties_for_sort [symmetric])
  have "sorted (sort v)" by simp
  then show "sorted (map unat (sort v))" by (simp add: sorted_wrt_map word_le_nat_alt [symmetric])
qed simp

lemma unat_median: "unat (median v) = median_nat (map unat v)"
proof -
  consider "v = []" | "length v = 1" | "2 \<le> length v" by (cases v; cases "tl v") auto
  then show ?thesis
  proof cases
    case 2
    then obtain x where "v = [x]" by (auto simp: length_Suc_conv)
    then show ?thesis by (simp add: median_def median_nat_def)
  next
    case 3
    let ?n = "length v" and ?s = "sort v"
    have nth: "sort (map unat v) ! i = unat (?s ! i)" if "i < ?n" for i
      unfolding sort_unat [symmetric] using that by simp
    have i: "?n div 2 < ?n" "(?n - 1) div 2 < ?n" "?n div 2 - 1 < ?n" using 3 by linarith+
    show ?thesis
    proof (cases "odd ?n")
      case True
      then have "(?n - 1) div 2 = ?n div 2" by presburger
      moreover have "median v = ?s ! (?n div 2)" using True 3 by (auto simp: median_def Let_def mod2_eq_if)
      ultimately show ?thesis using 3 i nth by (auto simp: median_nat_def Let_def)
    next
      case False
      then have "(?n - 1) div 2 = ?n div 2 - 1" using 3 by presburger
      moreover have "median v = get_mid (?s ! (?n div 2 - 1)) (?s ! (?n div 2))" using False 3 by (auto simp: median_def Let_def mod2_eq_if)
      ultimately show ?thesis using 3 i nth unat_get_mid by (auto simp: median_nat_def Let_def)
    qed
  qed (simp add: median_def median_nat_def)
qed

text \<open>At least half of the values are not above the median, and at least half are not below it.\<close>

lemma sorted_count_le:
  assumes "sorted s" and "k < length s" and "s ! k \<le> m"
  shows "k + 1 \<le> length (filter (\<lambda>x. x \<le> m) s)"
proof -
  have "filter (\<lambda>x. x \<le> m) (take (k + 1) s) = take (k + 1) s"
  proof (rule filter_True, rule ballI)
    fix x assume "x \<in> set (take (k + 1) s)"
    then obtain i where "i < k + 1" "x = s ! i" by (auto simp: in_set_conv_nth)
    then show "x \<le> m" using assms sorted_nth_mono [of s i k] by auto
  qed
  then have "k + 1 \<le> length (filter (\<lambda>x. x \<le> m) (take (k + 1) s))" using assms(2) by simp
  also have "\<dots> \<le> length (filter (\<lambda>x. x \<le> m) (take (k + 1) s @ drop (k + 1) s))" by (simp only: filter_append length_append)
  finally show ?thesis by simp
qed

lemma sorted_count_ge:
  assumes "sorted s" and "k < length s" and "m \<le> s ! k"
  shows "length s - k \<le> length (filter (\<lambda>x. m \<le> x) s)"
proof -
  have "filter (\<lambda>x. m \<le> x) (drop k s) = drop k s"
  proof (rule filter_True, rule ballI)
    fix x assume "x \<in> set (drop k s)"
    then obtain i where "i < length s - k" "x = s ! (k + i)" by (auto simp: in_set_conv_nth)
    moreover have "s ! k \<le> s ! (k + i)" using assms(1) \<open>i < length s - k\<close> by (intro sorted_nth_mono) simp_all
    ultimately show "m \<le> x" using assms(3) by simp
  qed
  then have "length s - k \<le> length (filter (\<lambda>x. m \<le> x) (drop k s))" using assms(2) by simp
  also have "\<dots> \<le> length (filter (\<lambda>x. m \<le> x) (take k s @ drop k s))" by (simp only: filter_append length_append)
  finally show ?thesis by simp
qed

lemma length_filter_sort: "length (filter P (sort xs)) = length (filter P xs)"
  by (metis mset_filter mset_sort size_mset)

lemma median_nat_halves:
  fixes v :: "nat list"
  shows "length v \<le> 2 * length (filter (\<lambda>x. x \<le> median_nat v) v)" and "length v \<le> 2 * length (filter (\<lambda>x. median_nat v \<le> x) v)"
proof -
  have "length v \<le> 2 * length (filter (\<lambda>x. x \<le> median_nat v) (sort v)) \<and> length v \<le> 2 * length (filter (\<lambda>x. median_nat v \<le> x) (sort v))"
  proof (cases "v = []")
    case False
    let ?s = "sort v" and ?n = "length v"
    have i: "(?n - 1) div 2 < length ?s" "?n div 2 < length ?s" "(?n - 1) div 2 \<le> ?n div 2" using False by (cases v; simp)+
    have "?s ! ((?n - 1) div 2) \<le> ?s ! (?n div 2)" using i by (intro sorted_nth_mono) simp_all
    then have "?s ! ((?n - 1) div 2) \<le> median_nat v" "median_nat v \<le> ?s ! (?n div 2)"
      using False by (simp_all add: median_nat_def Let_def)
    note c = sorted_count_le [OF sorted_sort i(1) this(1)] sorted_count_ge [OF sorted_sort i(2) this(2)]
    moreover have "?n \<le> 2 * ((?n - 1) div 2 + 1)" "?n \<le> 2 * (?n - ?n div 2)" by presburger+
    ultimately show ?thesis unfolding length_sort by linarith
  qed simp
  then show "length v \<le> 2 * length (filter (\<lambda>x. x \<le> median_nat v) v)" "length v \<le> 2 * length (filter (\<lambda>x. median_nat v \<le> x) v)"
    by (simp_all only: length_filter_sort)
qed

section \<open>Weights and fees\<close>

lemma unat_max: "unat (max a b) = max (unat a) (unat (b :: 'a::len word))"
  by (simp add: max_def word_le_nat_alt)

lemma unat_min: "unat (min a b) = min (unat a) (unat (b :: 'a::len word))"
  by (simp add: min_def word_le_nat_alt)

text \<open>The effective long-term median, as a number.\<close>

definition effective_long_term :: "u64 \<Rightarrow> nat" where
  "effective_long_term ltm = max 300000 (unat ltm)"

lemma unat_effective: "unat (max CRYPTONOTE_BLOCK_GRANTED_FULL_REWARD_ZONE_V5 ltm) = effective_long_term ltm"
  by (simp add: unat_max effective_long_term_def CRYPTONOTE_BLOCK_GRANTED_FULL_REWARD_ZONE_V5_def)

lemma unat_times_div:
  fixes x :: u64
  assumes "unat x * k < 2 ^ 64" and "k < 2 ^ 64" and "j < 2 ^ 64"
  shows "unat (x * of_nat k div of_nat j) = unat x * k div j"
proof -
  have "unat (of_nat k :: u64) = k" "unat (of_nat j :: u64) = j" using assms(2,3) by (simp_all add: unat_of_nat take_bit_nat_eq_self)
  moreover from this have "unat (x * of_nat k) = unat x * k" using assms(1) by (subst unat_mult_no_overflow) simp_all
  ultimately show ?thesis by (simp add: unat_div)
qed

lemma long_term_weight_scaling:
  assumes "15 \<le> hf" and "effective_long_term ltm < 2 ^ 57"
  shows "unat (get_next_long_term_block_weight hf ltm w) =
    min (max (unat w) (effective_long_term ltm * 10 div 17)) (effective_long_term ltm + effective_long_term ltm * 7 div 10)"
proof -
  define e where "e = max CRYPTONOTE_BLOCK_GRANTED_FULL_REWARD_ZONE_V5 ltm"
  have e: "unat e = effective_long_term ltm" unfolding e_def by (rule unat_effective)
  have a: "unat (e * 10 div 17) = unat e * 10 div 17" "unat (e * 7 div 10) = unat e * 7 div 10"
    using assms(2) e unat_times_div [of e 10 17] unat_times_div [of e 7 10] by simp_all
  have "unat e + unat e * 7 div 10 < 2 ^ 64" using assms(2) unfolding e by simp
  then have b: "unat (e + e * 7 div 10) = unat e + unat e * 7 div 10"
    unfolding a(2) [symmetric] by (intro unat_add_no_overflow) simp
  have v: "\<not> hf < 10" using assms(1) by (simp add: word_less_nat_alt word_le_nat_alt)
  have "get_next_long_term_block_weight hf ltm w = min (max w (e * 10 div 17)) (e + e * 7 div 10)"
    using assms(1) v
    by (simp add: get_next_long_term_block_weight_def HF_VERSION_LONG_TERM_BLOCK_WEIGHT_def HF_VERSION_2021_SCALING_def e_def Let_def)
  then show ?thesis by (simp only: unat_min unat_max a(1) b e)
qed

lemma weight_limit_scaling:
  fixes chain :: "u64 list" and s :: weight_state
  assumes "15 \<le> hf" and "effective_long_term ltm < 2 ^ 57"
  defines "s' \<equiv> update_next_cumulative_weight_limit hf chain ltm s"
  shows "unat (m_current_block_cumul_weight_median s') =
      min (max (effective_long_term ltm) (median_nat (map unat (get_last_n_blocks_weights chain 100)))) (50 * effective_long_term ltm)"
    and "unat (m_current_block_cumul_weight_limit s') = 2 * unat (m_current_block_cumul_weight_median s')"
proof -
  define e where "e = max CRYPTONOTE_BLOCK_GRANTED_FULL_REWARD_ZONE_V5 ltm"
  have e: "unat e = effective_long_term ltm" unfolding e_def by (rule unat_effective)
  have 50: "unat (50 * e) = 50 * unat e" using assms(2) e by (subst unat_mult_no_overflow) simp_all
  let ?m = "min (max e (median (get_last_n_blocks_weights chain 100))) (50 * e)"
  have m: "unat ?m = min (max (unat e) (median_nat (map unat (get_last_n_blocks_weights chain 100)))) (50 * unat e)"
    by (simp only: unat_min unat_max unat_median 50)
  have v: "\<not> hf < 10" "\<not> hf < 2" "\<not> hf < 5" using assms(1) by (simp_all add: word_less_nat_alt word_le_nat_alt)
  have zone: "unat (get_min_block_weight hf) = 300000"
    using v by (simp add: get_min_block_weight_def CRYPTONOTE_BLOCK_GRANTED_FULL_REWARD_ZONE_V5_def)
  have big: "300000 \<le> unat ?m" unfolding m e by (auto simp: effective_long_term_def max_def min_def)
  have med: "m_current_block_cumul_weight_median s' = ?m"
  proof (cases "?m \<le> get_min_block_weight hf")
    case True
    then have "unat ?m \<le> 300000" using zone by (simp add: word_le_nat_alt)
    then have "?m = get_min_block_weight hf" using big zone by (intro word_unat_eq_iff [THEN iffD2]) linarith
    then show ?thesis using assms(1) v
      by (simp add: s'_def update_next_cumulative_weight_limit_def HF_VERSION_LONG_TERM_BLOCK_WEIGHT_def HF_VERSION_2021_SCALING_def
          CRYPTONOTE_SHORT_TERM_BLOCK_WEIGHT_SURGE_FACTOR_def CRYPTONOTE_REWARD_BLOCKS_WINDOW_def e_def [symmetric] Let_def)
  next
    case False
    then show ?thesis using assms(1) v
      by (simp add: s'_def update_next_cumulative_weight_limit_def HF_VERSION_LONG_TERM_BLOCK_WEIGHT_def HF_VERSION_2021_SCALING_def
          CRYPTONOTE_SHORT_TERM_BLOCK_WEIGHT_SURGE_FACTOR_def CRYPTONOTE_REWARD_BLOCKS_WINDOW_def e_def [symmetric] Let_def)
  qed
  then show med': "unat (m_current_block_cumul_weight_median s') =
      min (max (effective_long_term ltm) (median_nat (map unat (get_last_n_blocks_weights chain 100)))) (50 * effective_long_term ltm)"
    using m e by simp
  have "m_current_block_cumul_weight_limit s' = m_current_block_cumul_weight_median s' * 2"
    by (simp add: s'_def update_next_cumulative_weight_limit_def Let_def)
  moreover have "unat (m_current_block_cumul_weight_median s') * 2 < 2 ^ 64" using assms(2) unfolding med' by (auto simp: min_def)
  ultimately show "unat (m_current_block_cumul_weight_limit s') = 2 * unat (m_current_block_cumul_weight_median s')"
    by (simp add: unat_mult_no_overflow)
qed

lemma dynamic_fee_scaling:
  fixes m r :: u64
  assumes "15 \<le> v"
  defines "M \<equiv> max 300000 (unat m)"
  shows "\<exists>f. get_dynamic_base_fee r m v = Some f
    \<and> unat f = max 1 (unat r * 3000 div (M * M) - unat r * 3000 div (M * M) div 20)"
proof -
  define e where "e = (if m < get_min_block_weight v then get_min_block_weight v else m)"
  have v: "\<not> v < 2" "\<not> v < 5" "8 \<le> v" using assms(1) by (simp_all add: word_less_nat_alt word_le_nat_alt)
  have e: "unat e = M" using v(1,2)
    by (auto simp: e_def M_def get_min_block_weight_def CRYPTONOTE_BLOCK_GRANTED_FULL_REWARD_ZONE_V5_def word_less_nat_alt)
  have nz: "e \<noteq> 0" using e by (auto simp: M_def)
  obtain lo hi where p: "mul128 r 3000 = (lo, hi)" by (cases "mul128 r 3000")
  have pv: "val128 hi lo = unat r * 3000" using mul128_correct [of r 3000] p by (simp add: val128_def)
  obtain h1 l1 a1 b1 where d1: "div128_64 hi lo e = Some ((h1, l1), (a1, b1))" "val128 h1 l1 = val128 hi lo div unat e"
    by (rule div128_64_correct [OF nz])
  obtain h2 l2 a2 b2 where d2: "div128_64 h1 l1 e = Some ((h2, l2), (a2, b2))" "val128 h2 l2 = val128 h1 l1 div unat e"
    by (rule div128_64_correct [OF nz])
  have q: "val128 h2 l2 = unat r * 3000 div (M * M)" using d1(2) d2(2) pv e by (simp add: div_mult2_eq)
  have "unat r * 3000 div (M * M) \<le> unat r * 3000 div (300000 * 300000)" by (intro div_le_mono2 mult_le_mono) (simp_all add: M_def)
  also have "\<dots> < 2 ^ 64" using unat_u64_less [of r] by (simp add: less_mult_imp_div_less del: unat_u64_less)
  finally have small: "val128 h2 l2 < 2 ^ 64" unfolding q .
  then have h2: "h2 = 0" by (cases "h2 = 0") (auto simp: val128_def unat_eq_0 [symmetric])
  then have l2: "unat l2 = unat r * 3000 div (M * M)" using q by (simp add: val128_def)
  have "unat (l2 div 20) = unat l2 div 20" by (simp add: unat_div)
  then have f: "unat (l2 - l2 div 20) = unat l2 - unat l2 div 20" by (subst unat_sub_no_underflow) simp_all
  have "get_dynamic_base_fee r m v = Some (if l2 - l2 div 20 = 0 then 1 else l2 - l2 div 20)"
    using assms(1) v(3) p d1(1) d2(1) h2
    by (simp add: get_dynamic_base_fee_def HF_VERSION_PER_BYTE_FEE_def HF_VERSION_2021_SCALING_def
        DYNAMIC_FEE_REFERENCE_TRANSACTION_WEIGHT_def e_def [symmetric] Let_def)
  moreover have "unat (if l2 - l2 div 20 = 0 then 1 else l2 - l2 div 20) = max 1 (unat l2 - unat l2 div 20)"
    using f by (auto simp: max_def unat_eq_0 [symmetric])
  ultimately show ?thesis unfolding l2 by blast
qed

section \<open>Properties\<close>

text \<open>
  The median, computed in 64-bit words: it is the middle value of the sorted list, or the average of
  the two middle values rounded down, without overflow; at least half of the values are not above it
  and at least half are not below it.
\<close>

lemma median_exact:
  "unat (median v) = median_nat (map unat v)
    \<and> length v \<le> 2 * length (filter (\<lambda>x. x \<le> median v) v) \<and> length v \<le> 2 * length (filter (\<lambda>x. median v \<le> x) v)"
proof -
  have "length (filter P (map unat v)) = length (filter (\<lambda>x. P (unat x)) v)" for P by (simp add: filter_map comp_def)
  then show ?thesis
    using unat_median [of v] median_nat_halves [of "map unat v"] by (simp add: word_le_nat_alt)
qed



text \<open>
  The fee per byte under the current rules, with \<open>M\<close> the larger of the median and 300000: 95 percent of
  the reward times 3000 over \<open>M\<close> squared, rounded, and at least 1. The two 128-bit divisions lose nothing
  but the rounding and the assertion on the high half never fails.
\<close>

lemma dynamic_fee_exact:
  assumes "15 \<le> version"
  shows "\<exists>f. get_dynamic_base_fee reward m version = Some f
    \<and> (let M = max 300000 (unat m); q = unat reward * 3000 div (M * M) in unat f = max 1 (q - q div 20))"
  using dynamic_fee_scaling [OF assms, of reward m] by (simp add: Let_def)

lemma dynamic_fee_exact_witness: "map_option unat (get_dynamic_base_fee 10000000000 300000 16) = Some 317"
  using dynamic_fee_exact [of 16 10000000000 300000] by (auto simp: Let_def)

end
