(* ===== verification/Varint.thy ===== *)
theory Varint
  imports Prelude
begin

text \<open>
  Variable-length integers: \<open>src/common/varint.h\<close>. \<open>write_varint\<close> emits seven bits per byte, least
  significant first, with the top bit set on every byte but the last; \<open>read_varint\<close> reads them back
  and rejects values that do not fit and encodings that end in a zero byte.

  The lemmas show the round trip for every unsigned type of at least eight bits, and that an accepted
  encoding is either the one \<open>write_varint\<close> produces or a truncated one.
\<close>

section \<open>Definitions\<close>

definition EVARINT_OVERFLOW :: int where "EVARINT_OVERFLOW = -1"
definition EVARINT_REPRESENT :: int where "EVARINT_REPRESENT = -2"

function write_varint :: "'a::len word \<Rightarrow> bytes" where
  "write_varint i =
    (if unat i \<ge> 0x80 then ((ucast i AND 0x7f) OR 0x80) # write_varint (drop_bit 7 i)
     else [ucast i])"
  by pat_completeness auto
termination
  by (relation "measure unat") (auto simp: unat_drop_bit)

declare write_varint.simps [simp del]

definition get_varint_data :: "'a::len word \<Rightarrow> bytes" where
  "get_varint_data v = write_varint v"

text \<open>
  The reader returns the count of bytes read or an error code, the value written so far, and the
  bytes after the advanced iterator. The loop stops at the end of the input with the count so far.
\<close>

fun read_varint_loop :: "nat \<Rightarrow> bytes \<Rightarrow> nat \<Rightarrow> int \<Rightarrow> 'a::len word \<Rightarrow> int \<times> 'a word \<times> bytes" where
  "read_varint_loop bits [] shift nread acc = (nread, acc, [])"
| "read_varint_loop bits (byte # first) shift nread acc =
    (let nread = nread + 1
     in if shift + 7 \<ge> bits \<and> unat byte \<ge> 2 ^ (bits - shift) then (EVARINT_OVERFLOW, acc, first)
        else if byte = 0 \<and> shift \<noteq> 0 then (EVARINT_REPRESENT, acc, first)
        else
          let acc = acc OR push_bit shift (ucast (byte AND 0x7f))
          in if byte AND 0x80 = 0 then (nread, acc, first)
             else read_varint_loop bits first (shift + 7) nread acc)"

definition read_varint_bits :: "nat \<Rightarrow> bytes \<Rightarrow> int \<times> 'a::len word \<times> bytes" where
  "read_varint_bits bits first = read_varint_loop bits first 0 0 0"

definition read_varint :: "bytes \<Rightarrow> int \<times> 'a::len word \<times> bytes" where
  "read_varint first = read_varint_bits LENGTH('a) first"

section \<open>Bytes and groups of seven bits\<close>

lemma low_seven_bits: "byte AND 0x7f = take_bit 7 byte" for byte :: "'a::len word"
  by (simp add: take_bit_eq_mask mask_eq_exp_minus_1)

lemma byte_continues: "byte AND 0x80 = 0 \<longleftrightarrow> unat byte < 128" for byte :: u8
proof -
  have "byte AND 2 ^ 7 = 0 \<longleftrightarrow> \<not> bit byte 7" by (rule and_exp_eq_0_iff_not_bit)
  moreover have "bit byte 7 \<longleftrightarrow> odd (unat byte div 2 ^ 7)"
    using bit_unsigned_iff [where 'a = nat, of byte 7] by (simp add: bit_iff_odd)
  moreover have "unat byte div 2 ^ 7 < 2"
    using unat_u8_less [of byte] by (intro less_mult_imp_div_less) (simp del: unat_u8_less)
  moreover have "unat byte div 2 ^ 7 = 0 \<longleftrightarrow> unat byte < 128" by (simp add: div_eq_0_iff)
  ultimately show ?thesis by (auto simp: less_2_cases_iff)
qed

lemma unat_continuation_byte:
  assumes "8 \<le> LENGTH('a)"
  shows "unat ((ucast (i :: 'a::len word) AND 0x7f) OR 0x80 :: u8) = 128 + unat i mod 128"
proof -
  have e: "(ucast i AND 0x7f) OR 0x80 = push_bit 7 1 + take_bit 7 (ucast i :: u8)"
    using push_bit_or_take_bit [of 7 "1 :: u8" "ucast i"]
    by (simp add: low_seven_bits or.commute push_bit_eq_mult)
  have t: "unat (take_bit 7 (ucast i :: u8)) = unat i mod 128"
    by (subst unat_take_bit) (simp add: unsigned_ucast_eq take_bit_eq_mod mod_mod_cancel)
  have p: "unat (push_bit 7 (1 :: u8)) = 128" by (simp add: unat_push_bit)
  have "unat i mod 128 < 128" by simp
  then show ?thesis unfolding e by (subst unat_add_no_overflow) (simp_all add: t p)
qed

lemma seven_bits_of_byte:
  assumes "8 \<le> LENGTH('a)"
  shows "unat (ucast (byte AND 0x7f) :: 'a::len word) = unat (byte :: u8) mod 128"
  using assms by (simp add: low_seven_bits unat_ucast_up unat_take_bit)

lemma unat_write_last:
  assumes "unat (i :: 'a::len word) < 128"
  shows "unat (ucast i :: u8) = unat i"
  using assms by (simp add: unsigned_ucast_eq take_bit_eq_mod)

text \<open>Joining the low seven bits with the rest.\<close>

lemma push_seven: "push_bit s (take_bit 7 i) OR push_bit (s + 7) (drop_bit 7 i) = push_bit s i"
  for i :: "'a::len word"
proof (rule bit_word_eqI)
  fix n assume "n < LENGTH('a)"
  show "bit (push_bit s (take_bit 7 i) OR push_bit (s + 7) (drop_bit 7 i)) n \<longleftrightarrow> bit (push_bit s i) n"
  proof (cases "n < s + 7")
    case True
    then show ?thesis by (auto simp: bit_or_iff bit_push_bit_iff bit_take_bit_iff)
  next
    case False
    then have "7 + (n - (s + 7)) = n - s" "\<not> n - s < 7" by simp_all
    with False show ?thesis by (simp add: bit_or_iff bit_push_bit_iff bit_take_bit_iff bit_drop_bit_eq)
  qed
qed

lemma write_varint_last: "unat i < 128 \<Longrightarrow> write_varint i = [ucast i]"
  by (subst write_varint.simps) simp

lemma write_varint_step:
  "128 \<le> unat i \<Longrightarrow> write_varint i = ((ucast i AND 0x7f) OR 0x80) # write_varint (drop_bit 7 i)"
  by (subst write_varint.simps) simp

lemma write_varint_not_Nil [simp]: "write_varint i \<noteq> []"
  by (subst write_varint.simps) simp

section \<open>The round trip\<close>

lemma shifted_bound:
  assumes "n < 2 ^ (b - s)" and "128 \<le> (n :: nat)"
  shows "s + 7 < b" and "n div 128 < 2 ^ (b - (s + 7))"
proof -
  have "(2 :: nat) ^ 7 < 2 ^ (b - s)" using assms by simp
  then have "7 < b - s" by (rule power_less_imp_less_exp [rotated]) simp
  then show "s + 7 < b" by simp
  then have "(2 :: nat) ^ (b - s) = 2 ^ (b - (s + 7)) * 128"
    using power_add [of "2 :: nat" "b - (s + 7)" 7] by simp
  then show "n div 128 < 2 ^ (b - (s + 7))"
    using assms(1) by (intro less_mult_imp_div_less) simp
qed

lemma read_write_loop:
  fixes i acc :: "'a::len word"
  assumes "8 \<le> LENGTH('a)" and "bits \<le> LENGTH('a)" and "unat i < 2 ^ (bits - shift)"
    and "shift \<noteq> 0 \<longrightarrow> i \<noteq> 0"
  shows "read_varint_loop bits (write_varint i @ rest) shift nread acc
    = (nread + int (length (write_varint i)), acc OR push_bit shift i, rest)"
  using assms(3,4)
proof (induction i arbitrary: shift nread acc rule: write_varint.induct)
  case (1 i)
  show ?case
  proof (cases "128 \<le> unat i")
    case True
    let ?b = "(ucast i AND 0x7f) OR 0x80 :: u8"
    have b: "unat ?b = 128 + unat i mod 128" using assms(1) by (rule unat_continuation_byte)
    have s: "shift + 7 < bits" and lt: "unat (drop_bit 7 i) < 2 ^ (bits - (shift + 7))"
      using shifted_bound [OF 1(2) True] by (simp_all add: unat_drop_bit)
    have nz: "drop_bit 7 i \<noteq> 0"
      using True by (auto simp: word_unat_eq_iff unat_drop_bit div_eq_0_iff)
    have "?b \<noteq> 0" using b by (auto simp: word_unat_eq_iff)
    moreover have "?b AND 0x80 \<noteq> 0" using b by (simp add: byte_continues)
    moreover have "(ucast (?b AND 0x7f) :: 'a word) = take_bit 7 i"
      using assms(1) by (simp add: word_unat_eq_iff seven_bits_of_byte b unat_take_bit)
    moreover note 1(1) [OF _ lt] True nz s
    ultimately show ?thesis
      by (simp add: write_varint_step Let_def or.assoc push_seven)
  next
    case False
    then have i: "unat i < 128" by simp
    have b: "unat (ucast i :: u8) = unat i" using i by (rule unat_write_last)
    have "(ucast i :: u8) AND 0x80 = 0" using i b by (simp add: byte_continues)
    moreover have "(ucast (ucast i AND 0x7f :: u8) :: 'a word) = i"
      using assms(1) i b by (simp add: word_unat_eq_iff seven_bits_of_byte)
    moreover have "(ucast i :: u8) = 0 \<longleftrightarrow> i = 0" using b by (simp add: word_unat_eq_iff)
    ultimately show ?thesis using i b 1(2,3)
      by (auto simp: write_varint_last Let_def)
  qed
qed

lemma read_write_varint:
  fixes i :: "'a::len word"
  assumes "8 \<le> LENGTH('a)"
  shows "read_varint (write_varint i @ rest) = (int (length (write_varint i)), i, rest)"
  using read_write_loop [of "LENGTH('a)" i 0 rest 0 0] assms
  by (simp add: read_varint_def read_varint_bits_def unsigned_less)

text \<open>The self-delimiting encoding of 64-bit integers that the serialisation uses.\<close>

definition get_uvarint :: "bytes \<Rightarrow> (u64 \<times> bytes) option" where
  "get_uvarint bs = (let (n, v, rest) = read_varint bs in if n \<le> 0 then None else Some (v, rest))"

interpretation uvarint: prefix_codec "write_varint :: u64 \<Rightarrow> bytes" get_uvarint
  by unfold_locales (simp add: get_uvarint_def read_write_varint)

section \<open>Accepted encodings\<close>

lemma varint_join:
  fixes x :: "'a::len word" and b :: u8
  defines "l \<equiv> ucast (b AND 0x7f) :: 'a word"
  assumes "8 \<le> LENGTH('a)" and b: "128 \<le> unat b"
    and fits: "unat x * 128 + unat b mod 128 < 2 ^ LENGTH('a)" and "x \<noteq> 0"
  shows "unat (push_bit 7 x OR l) = unat x * 128 + unat b mod 128"
    and "write_varint (push_bit 7 x OR l) = b # write_varint x"
    and "push_bit s l OR push_bit (s + 7) x = push_bit s (push_bit 7 x OR l)"
proof -
  let ?y = "push_bit 7 x OR l"
  have l: "unat l = unat b mod 128" unfolding l_def using assms(2) by (rule seven_bits_of_byte)
  then have t: "take_bit 7 l = l" by (simp only: word_unat_eq_iff unat_take_bit) simp
  have p: "unat (push_bit 7 x) = unat x * 128" using fits by (subst unat_push_bit) simp
  show y: "unat ?y = unat x * 128 + unat b mod 128"
    using push_bit_or_take_bit [of 7 x l] fits p l unfolding t by (simp only: unat_add_no_overflow)
  have d: "drop_bit 7 ?y = x" by (simp only: word_unat_eq_iff unat_drop_bit y) simp
  have "take_bit 7 ?y = l" by (simp only: word_unat_eq_iff unat_take_bit y l) simp
  with d push_seven [of s ?y] show "push_bit s l OR push_bit (s + 7) x = push_bit s ?y" by (simp only:)
  have "0 < unat x" using \<open>x \<noteq> 0\<close> by (simp add: unat_gt_0)
  then have big: "128 \<le> unat ?y" unfolding y by linarith
  have "128 + unat b mod 128 = unat b" using b unat_u8_less [of b] by (simp add: le_mod_geq del: unat_u8_less)
  moreover have "(unat x * 128 + unat b mod 128) mod 128 = unat b mod 128" by simp
  ultimately have "unat ((ucast ?y AND 0x7f) OR 0x80 :: u8) = unat b"
    unfolding unat_continuation_byte [OF assms(2)] y by (simp only:)
  then show "write_varint ?y = b # write_varint x"
    using write_varint_step [OF big] unfolding d by (simp only: word_unat_eq_iff [symmetric])
qed

lemma read_varint_loop_cases:
  fixes acc v :: "'a::len word"
  assumes "8 \<le> LENGTH('a)" and "bits \<le> LENGTH('a)"
    and "read_varint_loop bits bs shift nread acc = (n, v, rest)" and "0 \<le> n" and "shift \<le> bits"
  shows "(\<exists>x. bs = write_varint x @ rest \<and> n = nread + int (length (write_varint x))
        \<and> v = acc OR push_bit shift x \<and> unat x < 2 ^ (bits - shift) \<and> (shift \<noteq> 0 \<longrightarrow> x \<noteq> 0))
    \<or> (rest = [] \<and> n = nread + int (length bs) \<and> (\<forall>b\<in>set bs. 128 \<le> unat b))"
  using assms(3,5)
proof (induction bs arbitrary: shift nread acc)
  case Nil
  then show ?case by simp
next
  case (Cons b bs)
  let ?l = "ucast (b AND 0x7f) :: 'a word"
  have over: "\<not> (bits \<le> shift + 7 \<and> 2 ^ (bits - shift) \<le> unat b)" and nz: "\<not> (b = 0 \<and> shift \<noteq> 0)"
    using Cons.prems(1) assms(4) by (auto simp: Let_def EVARINT_OVERFLOW_def EVARINT_REPRESENT_def split: if_splits)
  note l = seven_bits_of_byte [OF assms(1), of b]
  show ?case
  proof (cases "unat b < 128")
    case True
    then have fin: "n = nread + 1" "v = acc OR push_bit shift ?l" "rest = bs"
      using Cons.prems(1) over nz by (auto simp: Let_def byte_continues split: if_splits)
    have ul: "unat ?l = unat b" using l True by simp
    have "write_varint ?l = [b]"
      using ul True by (simp add: write_varint_last word_unat_eq_iff unat_write_last)
    moreover have "unat ?l < 2 ^ (bits - shift)"
    proof (cases "bits \<le> shift + 7")
      case False
      then have "(2 :: nat) ^ 7 \<le> 2 ^ (bits - shift)" by (intro power_increasing) auto
      then show ?thesis using ul True by simp
    qed (use over ul in simp)
    moreover have "shift \<noteq> 0 \<longrightarrow> ?l \<noteq> 0" using nz ul by (auto simp: word_unat_eq_iff)
    ultimately show ?thesis using fin by (intro disjI1 exI [of _ ?l]) simp
  next
    case False
    then have s: "shift + 7 < bits"
      using over power_increasing [of "bits - shift" 7 "2 :: nat"] by (cases "shift + 7 < bits") fastforce+
    have rec: "read_varint_loop bits bs (shift + 7) (nread + 1) (acc OR push_bit shift ?l) = (n, v, rest)"
      using Cons.prems(1) over nz False by (auto simp: Let_def byte_continues split: if_splits)
    have s': "shift + 7 \<le> bits" using s by simp
    show ?thesis using Cons.IH [OF rec s']
    proof (elim disjE exE conjE)
      fix x :: "'a word"
      assume x: "bs = write_varint x @ rest" "n = nread + 1 + int (length (write_varint x))"
        "v = (acc OR push_bit shift ?l) OR push_bit (shift + 7) x" "unat x < 2 ^ (bits - (shift + 7))"
        "shift + 7 \<noteq> 0 \<longrightarrow> x \<noteq> 0"
      let ?x = "push_bit 7 x OR ?l"
      have "(2 :: nat) ^ (bits - (shift + 7)) * 128 = 2 ^ (bits - shift)"
        using s power_add [of "2 :: nat" "bits - (shift + 7)" 7] by simp
      then have lt: "unat x * 128 + unat b mod 128 < 2 ^ (bits - shift)" using x(4) by linarith
      also have "\<dots> \<le> 2 ^ LENGTH('a)" using assms(2) by (intro power_increasing) simp_all
      finally have fits: "unat x * 128 + unat b mod 128 < 2 ^ LENGTH('a)" .
      have "128 \<le> unat b" "x \<noteq> 0" using False x(5) by simp_all
      note j = varint_join [OF assms(1) this(1) fits this(2)]
      have "?x \<noteq> 0" using j(1) \<open>x \<noteq> 0\<close> by (auto simp: word_unat_eq_iff)
      with x lt j show ?thesis
        by (intro disjI1 exI [of _ ?x]) (simp add: or.assoc)
    qed (use False in auto)
  qed
qed

lemma read_varint_loop_code:
  "0 \<le> nread \<Longrightarrow> case read_varint_loop bits bs shift nread acc of
    (n, _) \<Rightarrow> 0 \<le> n \<or> n = EVARINT_OVERFLOW \<or> n = EVARINT_REPRESENT"
  by (induction bs arbitrary: shift nread acc) (auto simp: Let_def)

lemma read_varint_cases:
  fixes v :: "'a::len word"
  assumes "8 \<le> LENGTH('a)" and "read_varint bs = (n, v, rest)" and "0 \<le> n"
  shows "bs = write_varint v @ rest \<and> n = int (length (write_varint v))
    \<or> rest = [] \<and> n = int (length bs) \<and> (\<forall>b\<in>set bs. 128 \<le> unat b)"
  using read_varint_loop_cases [of "LENGTH('a)" bs 0 0 0 n v rest] assms
  by (auto simp: read_varint_def read_varint_bits_def)

text \<open>The number of bytes: seven bits each.\<close>

lemma length_write_varint:
  assumes "unat i < 2 ^ (7 * Suc k)"
  shows "length (write_varint i) \<le> Suc k"
  using assms
proof (induction i arbitrary: k rule: write_varint.induct)
  case (1 i)
  show ?case
  proof (cases "128 \<le> unat i")
    case True
    then obtain k' where k: "k = Suc k'" using 1(2) by (cases k) auto
    have "unat (drop_bit 7 i) < 2 ^ (7 * Suc k')"
      using 1(2) unfolding k by (subst unat_drop_bit) (intro less_mult_imp_div_less, simp add: power_add)
    with 1(1) True show ?thesis by (simp add: write_varint_step k)
  qed (simp add: write_varint_last)
qed

section \<open>Properties\<close>

text \<open>
  Writing an unsigned integer of any width of at least eight bits and reading it back returns
  the integer, counts the bytes written and leaves the iterator just after them, whatever follows.
\<close>

lemma varint_roundtrip:
  fixes i :: "'a::len word"
  assumes "8 \<le> LENGTH('a)"
  shows "read_varint (get_varint_data i @ rest) = (int (length (get_varint_data i)), i, rest)"
  unfolding get_varint_data_def using assms by (rule read_write_varint)

lemma varint_roundtrip_witness:
  "read_varint (get_varint_data (0x17f :: u64) @ [7]) = (int (length (get_varint_data (0x17f :: u64))), 0x17f :: u64, [7])"
  by (rule varint_roundtrip) simp

text \<open>
  Encodings are unique: whenever \<open>read_varint\<close> does not report an error, the bytes it consumed
  are the ones \<open>write_varint\<close> produces for the value read, unless the input ended inside a varint
  (every byte of it asks for another one).
\<close>

lemma varint_canonical:
  fixes v :: u64
  assumes "read_varint bs = (n, v, rest)" and "n \<noteq> EVARINT_OVERFLOW" and "n \<noteq> EVARINT_REPRESENT"
  shows "bs = get_varint_data v @ rest \<and> n = int (length (get_varint_data v))
    \<or> rest = [] \<and> n = int (length bs) \<and> (\<forall>b\<in>set bs. 128 \<le> unat b)"
  unfolding get_varint_data_def
proof (rule read_varint_cases [OF _ assms(1)])
  show "0 \<le> n"
    using read_varint_loop_code [of 0 64 bs 0 "0 :: u64"] assms
    by (auto simp: read_varint_def read_varint_bits_def)
qed simp

lemma varint_canonical_witness:
  "read_varint [0xff, 0x02, 9] = (2, 0x17f :: u64, [9]) \<and> [0xff, 0x02, 9] = get_varint_data (0x17f :: u64) @ [9]"
proof -
  have r: "read_varint [0xff, 0x02, 9] = (2, 0x17f :: u64, [9])"
    by (simp add: read_varint_def read_varint_bits_def push_bit_eq_mult)
  show ?thesis using r varint_canonical [OF r] by (auto simp: EVARINT_OVERFLOW_def EVARINT_REPRESENT_def)
qed

end
