(* ===== verification/Binary_Archive.thy ===== *)
theory Binary_Archive
  imports Varint "HOL-Library.Monad_Syntax"
begin

text \<open>
  Binary serialisation: \<open>src/serialization/binary_archive.h\<close> and the templates of \<open>serialization.h\<close>,
  \<open>container.h\<close>, \<open>variant.h\<close> and \<open>string.h\<close> beside it. The source describes each type once and uses the
  description for reading and for writing; so does the model. A \<open>serializer\<close> has a writer, which
  returns the bytes it appends or \<open>None\<close> where the code returns false, and a reader, which takes the bytes
  that are left and returns the value and the bytes after it, or \<open>None\<close> where the code returns false or
  leaves the archive in its failed state, which every caller checks. Its third part, \<open>typed\<close>, says which
  values of the model are values of the C++ type whose unsaved members are as constructed.

  What readers and writers promise each other is the locale \<open>wire\<close>: typed values are written and read
  back, and only typed values are read. A varint that is cut short by the end of the input is accepted,
  so that a reader may accept other bytes than those written, but only if it uses up the input (\<open>tight\<close>).
  Readers that never do are \<open>strict_wire\<close>; those that consume at least a byte are \<open>item\<close>. The lemmas carry
  the contracts through the combinators, so that a type described with them keeps its contract.
\<close>

section \<open>Definitions\<close>

record 'a serializer =
  put :: "'a \<Rightarrow> bytes option"
  get :: "bytes \<Rightarrow> ('a \<times> bytes) option"
  typed :: "'a \<Rightarrow> bool"

definition varint_field :: "'a::len word serializer" where
  "varint_field =
    \<lparr>put = \<lambda>v. Some (write_varint v),
     get = \<lambda>bs. case read_varint bs of (n, v, rest) \<Rightarrow> if 0 \<le> n then Some (v, rest) else None,
     typed = \<lambda>_. True\<rparr>"

definition blob :: "nat \<Rightarrow> bytes serializer" where
  "blob len =
    \<lparr>put = Some,
     get = \<lambda>bs. if len \<le> length bs then Some (take len bs, drop len bs) else None,
     typed = \<lambda>b. length b = len\<rparr>"

text \<open>Integers that are not written as varints, of one and of four bytes, in little-endian order.\<close>

definition uint8 :: "u8 serializer" where
  "uint8 =
    \<lparr>put = \<lambda>v. Some [v],
     get = \<lambda>bs. case bs of [] \<Rightarrow> None | b # rest \<Rightarrow> Some (b, rest),
     typed = \<lambda>_. True\<rparr>"

definition uint32 :: "u32 serializer" where
  "uint32 =
    \<lparr>put = \<lambda>v. Some (map (\<lambda>i. ucast (drop_bit (8 * i) v AND 0xff)) [0..<4]),
     get = \<lambda>bs. if 4 \<le> length bs then Some (of_nat (le_nat (take 4 bs)), drop 4 bs) else None,
     typed = \<lambda>_. True\<rparr>"

text \<open>One field after another; what follows may depend on what was read.\<close>

definition seq :: "'a serializer \<Rightarrow> ('a \<Rightarrow> 'b serializer) \<Rightarrow> ('a \<times> 'b) serializer" where
  "seq s t =
    \<lparr>put = \<lambda>(x, y). do { a \<leftarrow> put s x; b \<leftarrow> put (t x) y; Some (a @ b) },
     get = \<lambda>bs. do { (x, bs) \<leftarrow> get s bs; (y, bs) \<leftarrow> get (t x) bs; Some ((x, y), bs) },
     typed = \<lambda>(x, y). typed s x \<and> typed (t x) y\<rparr>"

text \<open>An object with its members; members that are not saved get their initial values.\<close>

definition object :: "('a \<Rightarrow> 'b) \<Rightarrow> ('b \<Rightarrow> 'a) \<Rightarrow> 'a serializer \<Rightarrow> 'b serializer" where
  "object con members s =
    \<lparr>put = \<lambda>y. put s (members y),
     get = \<lambda>bs. do { (x, bs) \<leftarrow> get s bs; Some (con x, bs) },
     typed = \<lambda>y. typed s (members y) \<and> con (members y) = y\<rparr>"

text \<open>A condition under which the code returns false.\<close>

definition require :: "('a \<Rightarrow> bool) \<Rightarrow> 'a serializer \<Rightarrow> 'a serializer" where
  "require P s =
    \<lparr>put = \<lambda>x. if P x then put s x else None,
     get = \<lambda>bs. do { (x, bs) \<leftarrow> get s bs; if P x then Some (x, bs) else None },
     typed = \<lambda>x. P x \<and> typed s x\<rparr>"

definition refuse :: "'a serializer" where
  "refuse = \<lparr>put = \<lambda>_. None, get = \<lambda>_. None, typed = \<lambda>_. False\<rparr>"

text \<open>A member that is not saved for the type at hand.\<close>

definition unsaved :: "'a \<Rightarrow> 'a serializer" where
  "unsaved c = \<lparr>put = \<lambda>_. Some [], get = \<lambda>bs. Some (c, bs), typed = \<lambda>x. x = c\<rparr>"

text \<open>Values in a row, each with its serialiser; a vector of known size; a container with its size.\<close>

fun put_each :: "'a serializer list \<Rightarrow> 'a list \<Rightarrow> bytes option" where
  "put_each [] [] = Some []"
| "put_each (s # ss) (x # xs) = do { a \<leftarrow> put s x; b \<leftarrow> put_each ss xs; Some (a @ b) }"
| "put_each _ _ = None"

fun get_each :: "'a serializer list \<Rightarrow> bytes \<Rightarrow> ('a list \<times> bytes) option" where
  "get_each [] bs = Some ([], bs)"
| "get_each (s # ss) bs = do { (x, bs) \<leftarrow> get s bs; (xs, bs) \<leftarrow> get_each ss bs; Some (x # xs, bs) }"

definition each :: "'a serializer list \<Rightarrow> 'a list serializer" where
  "each ss = \<lparr>put = put_each ss, get = get_each ss, typed = list_all2 typed ss\<rparr>"

definition elements :: "nat \<Rightarrow> 'a serializer \<Rightarrow> 'a list serializer" where
  "elements n s = each (replicate n s)"

definition container :: "'a serializer \<Rightarrow> 'a list serializer" where
  "container s =
    \<lparr>put = \<lambda>xs. do { a \<leftarrow> put varint_field (of_nat (length xs) :: u64); b \<leftarrow> put (elements (length xs) s) xs; Some (a @ b) },
     get = \<lambda>bs. do { (cnt :: u64, bs) \<leftarrow> get varint_field bs;
                     if length bs < unat cnt then None else get (elements (unat cnt) s) bs },
     typed = \<lambda>xs. length xs < 2 ^ 64 \<and> list_all (typed s) xs\<rparr>"

text \<open>
  Variants: a tag byte, which selects the serialiser of the alternative. \<open>alternative\<close> makes the variant
  of the value and takes it out again.
\<close>

definition alternative :: "('a \<Rightarrow> 'b) \<Rightarrow> ('b \<Rightarrow> 'a option) \<Rightarrow> 'a serializer \<Rightarrow> 'b serializer" where
  "alternative con value s =
    \<lparr>put = \<lambda>y. do { x \<leftarrow> value y; put s x },
     get = \<lambda>bs. do { (x, bs) \<leftarrow> get s bs; Some (con x, bs) },
     typed = \<lambda>y. case value y of None \<Rightarrow> False | Some x \<Rightarrow> typed s x \<and> con x = y\<rparr>"

definition variant :: "('a \<Rightarrow> u8) \<Rightarrow> (u8 \<Rightarrow> 'a serializer) \<Rightarrow> 'a serializer" where
  "variant tag alts =
    \<lparr>put = \<lambda>x. do { a \<leftarrow> put uint8 (tag x); b \<leftarrow> put (alts (tag x)) x; Some (a @ b) },
     get = \<lambda>bs. do { (t, bs) \<leftarrow> get uint8 bs; get (alts t) bs },
     typed = \<lambda>x. typed (alts (tag x)) x\<rparr>"

text \<open>A vector whose size is written as a 32-bit integer, in the form and under the condition given.\<close>

definition counted :: "u32 serializer \<Rightarrow> (u32 \<Rightarrow> bool) \<Rightarrow> 'a serializer \<Rightarrow> 'a list serializer" where
  "counted c P s =
    object snd (\<lambda>xs. (of_nat (length xs), take (unat (of_nat (length xs) :: u32)) xs))
      (seq (require P c) (\<lambda>n. elements (unat n) s))"

text \<open>A string: its size and its bytes.\<close>

definition string_field :: "bytes serializer" where
  "string_field =
    \<lparr>put = \<lambda>str. do { a \<leftarrow> put varint_field (of_nat (length str) :: u64); b \<leftarrow> put (blob (length str)) str; Some (a @ b) },
     get = \<lambda>bs. do { (size :: u64, bs) \<leftarrow> get varint_field bs;
                     if length bs < unat size then None else get (blob (unat size)) bs },
     typed = \<lambda>str. length str < 2 ^ 64\<rparr>"

text \<open>\<open>serialize\<close> on a reading archive: the whole input is used.\<close>

definition serialize :: "'a serializer \<Rightarrow> bytes \<Rightarrow> 'a option" where
  "serialize s bs = (case get s bs of Some (x, []) \<Rightarrow> Some x | _ \<Rightarrow> None)"

definition serialize_noeof :: "'a serializer \<Rightarrow> bytes \<Rightarrow> 'a option" where
  "serialize_noeof s bs = map_option fst (get s bs)"

section \<open>Contracts\<close>

locale wire =
  fixes s :: "'a serializer"
  assumes put_typed: "typed s x \<Longrightarrow> \<exists>w. put s x = Some w"
    and get_put: "typed s x \<Longrightarrow> put s x = Some w \<Longrightarrow> get s (w @ rest) = Some (x, rest)"
    and get_typed: "get s bs = Some (x, rest) \<Longrightarrow> typed s x"
    and tight: "get s bs = Some (x, rest) \<Longrightarrow> rest \<noteq> [] \<Longrightarrow> put s x = Some w \<Longrightarrow> bs = w @ rest"
begin

lemma got:
  assumes "get s bs = Some (x, rest)"
  obtains w where "typed s x" and "put s x = Some w" and "rest \<noteq> [] \<longrightarrow> bs = w @ rest"
  using assms get_typed put_typed tight by metis

lemma serialize_put: "typed s x \<Longrightarrow> put s x = Some w \<Longrightarrow> serialize s w = Some x"
  using get_put [of x w "[]"] by (simp add: serialize_def)

lemma serialize_typed: "serialize s bs = Some x \<Longrightarrow> typed s x"
  by (auto simp: serialize_def dest: get_typed split: option.splits list.splits)

lemma put_inject: "typed s x \<Longrightarrow> typed s y \<Longrightarrow> put s x = Some w \<Longrightarrow> put s y = Some w \<Longrightarrow> x = y"
  using get_put [of x w "[]"] get_put [of y w "[]"] by simp

lemma put_prefix_inject:
  assumes "typed s x" and "typed s y" and "put s x = Some w" and "put s y = Some v" and "w @ a = v @ b"
  shows "x = y \<and> a = b"
  using get_put [OF assms(1,3), of a] get_put [OF assms(2,4), of b] assms(5) by simp

end

locale strict_wire = wire +
  assumes strict: "get s bs = Some (x, rest) \<Longrightarrow> put s x = Some w \<Longrightarrow> bs = w @ rest"
begin

lemma serialize_strict: "serialize s bs = Some x \<Longrightarrow> put s x = Some bs"
proof -
  assume "serialize s bs = Some x"
  then have g: "get s bs = Some (x, [])" by (auto simp: serialize_def split: option.splits list.splits)
  then show ?thesis by (rule got) (use strict [OF g] in simp)
qed

end

locale item = wire +
  assumes put_not_Nil: "typed s x \<Longrightarrow> put s x \<noteq> Some []"

locale strict_item = strict_wire + item

named_theorems wires \<open>the contracts of serialisers, from those of their parts\<close>

lemma strict_wireI:
  assumes "\<And>x. typed s x \<Longrightarrow> \<exists>w. put s x = Some w"
    and "\<And>x w rest. typed s x \<Longrightarrow> put s x = Some w \<Longrightarrow> get s (w @ rest) = Some (x, rest)"
    and "\<And>bs x rest. get s bs = Some (x, rest) \<Longrightarrow> typed s x"
    and "\<And>bs x rest w. get s bs = Some (x, rest) \<Longrightarrow> put s x = Some w \<Longrightarrow> bs = w @ rest"
  shows "strict_wire s"
  using assms by unfold_locales blast+

lemma strict_itemI: "strict_wire s \<Longrightarrow> (\<And>x. typed s x \<Longrightarrow> put s x \<noteq> Some []) \<Longrightarrow> strict_item s"
  by (simp add: strict_item_def item_def item_axioms_def strict_wire_def)

lemma itemI: "wire s \<Longrightarrow> (\<And>x. typed s x \<Longrightarrow> put s x \<noteq> Some []) \<Longrightarrow> item s"
  by (simp add: item_def item_axioms_def)

lemma strict_wire_wire: "strict_wire s \<Longrightarrow> wire s"
  by (simp add: strict_wire_def)

lemma item_wire: "item s \<Longrightarrow> wire s"
  by (simp add: item_def)

lemma strict_item_item: "strict_item s \<Longrightarrow> item s"
  by (simp add: strict_item_def)

lemma strict_item_strict: "strict_item s \<Longrightarrow> strict_wire s"
  by (simp add: strict_item_def)

section \<open>The contracts of the combinators\<close>

lemma item_varint: "8 \<le> LENGTH('a) \<Longrightarrow> item (varint_field :: 'a::len word serializer)"
proof unfold_locales
  assume w: "8 \<le> LENGTH('a)"
  fix x :: "'a word" and bs rest w
  show "\<exists>w. put varint_field x = Some w" "typed varint_field x" "put varint_field x \<noteq> Some []"
    by (simp_all add: varint_field_def write_varint_not_Nil)
  show "get varint_field (w @ rest) = Some (x, rest)" if "put varint_field x = Some w"
    using that w by (auto simp: varint_field_def read_write_varint)
  show "bs = w @ rest" if "get varint_field bs = Some (x, rest)" "rest \<noteq> []" "put varint_field x = Some w"
    using read_varint_cases [OF \<open>8 \<le> LENGTH('a)\<close>] that by (fastforce simp: varint_field_def split: prod.splits if_splits)
qed

lemma strict_blob: "strict_wire (blob n)"
  by (rule strict_wireI) (auto simp: blob_def split: if_splits)

lemma blob_typed: "typed (blob n) b \<longleftrightarrow> length b = n"
  by (simp add: blob_def)

lemma strict_item_blob: "0 < n \<Longrightarrow> strict_item (blob n)"
  by (rule strict_itemI [OF strict_blob]) (auto simp: blob_def)

lemma strict_uint8: "strict_item uint8"
  by (intro strict_itemI strict_wireI) (auto simp: uint8_def split: list.splits)

lemma strict_unsaved: "strict_wire (unsaved c)"
  by (rule strict_wireI) (auto simp: unsaved_def)

lemma strict_refuse: "strict_item refuse"
  by (intro strict_itemI strict_wireI) (auto simp: refuse_def)

lemma seq_put: "put (seq s t) (x, y) = Some w \<longleftrightarrow> (\<exists>a b. put s x = Some a \<and> put (t x) y = Some b \<and> w = a @ b)"
  by (auto simp: seq_def split: bind_splits)

lemma seq_get: "get (seq s t) bs = Some (xy, rest) \<longleftrightarrow>
  (\<exists>bs1. get s bs = Some (fst xy, bs1) \<and> get (t (fst xy)) bs1 = Some (snd xy, rest))"
  by (cases xy) (auto simp: seq_def split: bind_splits)

lemma seq_typed: "typed (seq s t) (x, y) \<longleftrightarrow> typed s x \<and> typed (t x) y"
  by (simp add: seq_def)

lemma wire_seq:
  fixes s :: "'a serializer" and t :: "'a \<Rightarrow> 'b serializer"
  assumes "wire s" and "\<And>x. wire (t x)"
  shows "wire (seq s t)"
proof unfold_locales
  fix z :: "'a \<times> 'b" and w bs rest
  obtain x y where z: "z = (x, y)" by (cases z)
  show "\<exists>w. put (seq s t) z = Some w" if "typed (seq s t) z"
    using that wire.put_typed [OF assms(1), of x] wire.put_typed [OF assms(2), of x y] by (auto simp: z seq_put seq_typed)
  show "get (seq s t) (w @ rest) = Some (z, rest)" if v: "typed (seq s t) z" "put (seq s t) z = Some w"
  proof -
    obtain a b where "put s x = Some a" "put (t x) y = Some b" "w = a @ b" using v by (auto simp: z seq_put)
    then have "get s (w @ rest) = Some (x, b @ rest)" "get (t x) (b @ rest) = Some (y, rest)"
      using v wire.get_put [OF assms(1)] wire.get_put [OF assms(2)] by (auto simp: z seq_typed)
    then show ?thesis by (auto simp: z seq_get)
  qed
  assume "get (seq s t) bs = Some (z, rest)"
  then obtain bs1 where g: "get s bs = Some (x, bs1)" "get (t x) bs1 = Some (y, rest)" by (auto simp: z seq_get)
  then show "typed (seq s t) z"
    using wire.get_typed [OF assms(1)] wire.get_typed [OF assms(2)] by (auto simp: z seq_typed)
  assume "rest \<noteq> []" and "put (seq s t) z = Some w"
  then obtain a b where p: "put s x = Some a" "put (t x) y = Some b" "w = a @ b" by (auto simp: z seq_put)
  have "bs1 = b @ rest" using wire.tight [OF assms(2) g(2) \<open>rest \<noteq> []\<close> p(2)] .
  then show "bs = w @ rest" using wire.tight [OF assms(1) g(1) _ p(1)] \<open>rest \<noteq> []\<close> p(3) by simp
qed

text \<open>A cut is only possible in the last field that is not empty.\<close>

lemma strict_seq:
  assumes "wire s" and "\<And>x. strict_wire (t x)" and "strict_wire s \<or> (\<forall>x. item (t x))"
  shows "strict_wire (seq s t)"
proof -
  have w: "wire (seq s t)" using assms(1,2) strict_wire_wire by (blast intro: wire_seq)
  have "bs = v @ rest" if g: "get (seq s t) bs = Some (z, rest)" and p: "put (seq s t) z = Some v" for bs z rest v
  proof -
    obtain x y where z: "z = (x, y)" by (cases z)
    obtain bs1 where g: "get s bs = Some (x, bs1)" "get (t x) bs1 = Some (y, rest)" using g by (auto simp: z seq_get)
    obtain a b where p: "put s x = Some a" "put (t x) y = Some b" "v = a @ b" using p by (auto simp: z seq_put)
    have b: "bs1 = b @ rest" using strict_wire.strict [OF assms(2) g(2) p(2)] .
    have "bs = a @ bs1" using assms(3)
    proof
      assume "strict_wire s"
      then show ?thesis by (rule strict_wire.strict [OF _ g(1) p(1)])
    next
      assume "\<forall>x. item (t x)"
      then have "b \<noteq> []" using item.put_not_Nil [of "t x" y] wire.get_typed [OF strict_wire_wire [OF assms(2)] g(2)] p(2) by auto
      then show ?thesis using wire.tight [OF assms(1) g(1) _ p(1)] b by simp
    qed
    then show ?thesis using b p(3) by simp
  qed
  with w show ?thesis by (simp add: strict_wire_def strict_wire_axioms_def)
qed

lemma item_seq:
  assumes "wire s" and "\<And>x. wire (t x)" and "item s \<or> (\<forall>x. item (t x))"
  shows "item (seq s t)"
proof (rule itemI)
  show "wire (seq s t)" using assms(1,2) by (rule wire_seq)
  show "put (seq s t) z \<noteq> Some []" if "typed (seq s t) z" for z
    using assms(3) that by (cases z) (auto simp: seq_put seq_typed dest: item.put_not_Nil)
qed

lemma object_put: "put (object con members s) y = put s (members y)"
  by (simp add: object_def)

lemma object_get: "get (object con members s) bs = Some (y, rest) \<longleftrightarrow> (\<exists>x. get s bs = Some (x, rest) \<and> y = con x)"
  by (auto simp: object_def split: bind_splits)

lemma object_typed: "typed (object con members s) y \<longleftrightarrow> typed s (members y) \<and> con (members y) = y"
  by (simp add: object_def)

lemmas object_simps = object_put object_get object_typed

lemma wire_object:
  assumes "wire s" and "\<And>x. typed s x \<Longrightarrow> members (con x) = x"
  shows "wire (object con members s)"
proof unfold_locales
  fix y w bs rest
  show "\<exists>w. put (object con members s) y = Some w" if "typed (object con members s) y"
    using that wire.put_typed [OF assms(1)] by (simp add: object_simps)
  show "get (object con members s) (w @ rest) = Some (y, rest)"
    if "typed (object con members s) y" "put (object con members s) y = Some w"
    using that wire.get_put [OF assms(1)] by (fastforce simp: object_simps)
  assume "get (object con members s) bs = Some (y, rest)"
  then obtain x where g: "get s bs = Some (x, rest)" "y = con x" by (auto simp: object_simps)
  note t = wire.get_typed [OF assms(1) g(1)]
  show "typed (object con members s) y" using t g(2) assms(2) by (simp add: object_simps)
  show "bs = w @ rest" if "rest \<noteq> []" "put (object con members s) y = Some w"
    using wire.tight [OF assms(1) g(1)] that assms(2) [OF t] g(2) by (simp add: object_simps)
qed

lemma strict_object:
  assumes "strict_wire s" and "\<And>x. typed s x \<Longrightarrow> members (con x) = x"
  shows "strict_wire (object con members s)"
proof -
  have "bs = w @ rest" if g: "get (object con members s) bs = Some (y, rest)" and p: "put (object con members s) y = Some w" for bs y rest w
  proof -
    obtain x where x: "get s bs = Some (x, rest)" "y = con x" using g by (auto simp: object_simps)
    have "put s x = Some w" using assms(2) [OF wire.get_typed [OF strict_wire_wire [OF assms(1)] x(1)]] x(2) p by (simp add: object_simps)
    then show ?thesis by (rule strict_wire.strict [OF assms(1) x(1)])
  qed
  moreover have "wire (object con members s)" by (rule wire_object [OF strict_wire_wire [OF assms(1)]]) (rule assms(2))
  ultimately show ?thesis by (simp add: strict_wire_def strict_wire_axioms_def)
qed

lemma item_object:
  assumes "item s" and "\<And>x. typed s x \<Longrightarrow> members (con x) = x"
  shows "item (object con members s)"
  using item.put_not_Nil [OF assms(1)]
  by (intro itemI wire_object item_wire [OF assms(1)] assms(2)) (simp_all add: object_simps)

lemma require_put: "put (require P s) x = Some w \<longleftrightarrow> P x \<and> put s x = Some w"
  by (simp add: require_def)

lemma require_get: "get (require P s) bs = Some (x, rest) \<longleftrightarrow> P x \<and> get s bs = Some (x, rest)"
  by (auto simp: require_def split: bind_splits)

lemma require_typed: "typed (require P s) x \<longleftrightarrow> P x \<and> typed s x"
  by (simp add: require_def)

lemmas require_simps = require_put require_get require_typed

lemma wire_require: "wire s \<Longrightarrow> wire (require P s)"
  by unfold_locales (auto simp: require_simps intro: wire.put_typed wire.get_put wire.get_typed wire.tight)

lemma strict_require: "strict_wire s \<Longrightarrow> strict_wire (require P s)"
  unfolding strict_wire_def [of "require P s"] strict_wire_axioms_def
  by (auto simp: require_simps intro: wire_require strict_wire_wire strict_wire.strict)

lemma item_require: "item s \<Longrightarrow> item (require P s)"
  by (rule itemI [OF wire_require]) (simp_all add: require_put require_typed item_wire item.put_not_Nil)

lemma each_put: "put (each (s # ss)) (x # xs) = Some w \<longleftrightarrow> (\<exists>a b. put s x = Some a \<and> put (each ss) xs = Some b \<and> w = a @ b)"
  by (auto simp: each_def split: bind_splits)

lemma each_get: "get (each (s # ss)) bs = Some (xs, rest) \<longleftrightarrow>
  (\<exists>y ys bs1. xs = y # ys \<and> get s bs = Some (y, bs1) \<and> get (each ss) bs1 = Some (ys, rest))"
  by (auto simp: each_def split: bind_splits)

lemma each_Nil: "put (each []) xs = (if xs = [] then Some [] else None)" "get (each []) bs = Some ([], bs)"
    "typed (each []) xs \<longleftrightarrow> xs = []" "put (each (s # ss)) [] = None"
  by (cases xs) (simp_all add: each_def)

lemma each_typed: "typed (each (s # ss)) xs \<longleftrightarrow> (\<exists>y ys. xs = y # ys \<and> typed s y \<and> typed (each ss) ys)"
  by (cases xs) (simp_all add: each_def)

text \<open>A row of values is a first value followed by the others.\<close>

lemma each_Cons: "each (s # ss) =
  alternative (\<lambda>(y, ys). y # ys) (\<lambda>xs. case xs of [] \<Rightarrow> None | y # ys \<Rightarrow> Some (y, ys)) (seq s (\<lambda>_. each ss))"
  by (simp add: each_def alternative_def seq_def fun_eq_iff split: list.split)
    (auto simp: fun_eq_iff split: list.split bind_splits)

lemma alternative_put: "put (alternative con value s) y = Some w \<longleftrightarrow> (\<exists>x. value y = Some x \<and> put s x = Some w)"
  by (auto simp: alternative_def split: bind_splits)

lemma alternative_get: "get (alternative con value s) bs = Some (y, rest) \<longleftrightarrow> (\<exists>x. get s bs = Some (x, rest) \<and> y = con x)"
  by (auto simp: alternative_def split: bind_splits)

lemma alternative_typed: "typed (alternative con value s) y \<longleftrightarrow> (\<exists>x. value y = Some x \<and> typed s x \<and> con x = y)"
  by (auto simp: alternative_def split: option.splits)

lemmas alternative_simps = alternative_put alternative_get alternative_typed

lemma wire_alternative: "wire s \<Longrightarrow> (\<And>x. value (con x) = Some x) \<Longrightarrow> wire (alternative con value s)"
proof -
  assume s: "wire s" and v: "\<And>x. value (con x) = Some x"
  show ?thesis
  proof unfold_locales
    show "get (alternative con value s) (w @ rest) = Some (y, rest)"
      if "typed (alternative con value s) y" "put (alternative con value s) y = Some w" for y w rest
      using that wire.get_put [OF s] by (fastforce simp: alternative_simps)
  qed (use s v in \<open>auto simp: alternative_simps intro: wire.put_typed wire.get_typed wire.tight\<close>)
qed

lemma strict_alternative: "strict_wire s \<Longrightarrow> (\<And>x. value (con x) = Some x) \<Longrightarrow> strict_wire (alternative con value s)"
  unfolding strict_wire_def [of "alternative con value s"] strict_wire_axioms_def
  by (auto simp: alternative_simps intro: wire_alternative strict_wire_wire strict_wire.strict)

lemma item_alternative: "item s \<Longrightarrow> (\<And>x. value (con x) = Some x) \<Longrightarrow> item (alternative con value s)"
  by (rule itemI [OF wire_alternative]) (auto simp: alternative_put alternative_typed item_wire item.put_not_Nil)

lemma wire_each: "list_all wire ss \<Longrightarrow> wire (each ss)"
proof (induction ss)
  case Nil
  show ?case by unfold_locales (auto simp: each_Nil split: if_splits)
next
  case (Cons s ss)
  then show ?case unfolding each_Cons by (intro wire_alternative wire_seq) auto
qed

lemma strict_each: "list_all strict_wire ss \<Longrightarrow> strict_wire (each ss)"
proof (induction ss)
  case Nil
  show ?case by (rule strict_wireI) (auto simp: each_Nil split: if_splits)
next
  case (Cons s ss)
  then show ?case unfolding each_Cons by (intro strict_alternative strict_seq) (auto simp: strict_wire_wire)
qed

lemma wire_elements: "wire s \<Longrightarrow> wire (elements n s)"
  unfolding elements_def by (rule wire_each) (simp add: list_all_iff)

lemma strict_elements: "strict_wire s \<Longrightarrow> strict_wire (elements n s)"
  unfolding elements_def by (rule strict_each) (simp add: list_all_iff)

lemma item_elements: "item s \<Longrightarrow> 0 < n \<Longrightarrow> item (elements n s)"
proof (cases n)
  case (Suc m)
  assume "item s"
  then have "item (seq s (\<lambda>_. each (replicate m s)))"
    by (intro item_seq wire_each) (auto simp: item_wire list_all_iff)
  then have "item (each (s # replicate m s))" unfolding each_Cons by (rule item_alternative) (simp split: prod.split)
  then show ?thesis by (simp add: elements_def Suc)
qed simp

lemma elements_typed: "typed (elements n s) xs \<longleftrightarrow> length xs = n \<and> list_all (typed s) xs"
  by (auto simp: elements_def each_def list_all2_conv_all_nth list_all_length)

lemma unat_of_length: "n < 2 ^ 64 \<Longrightarrow> unat (of_nat n :: u64) = n"
  by (simp add: unat_of_nat)

lemmas item_varint64 = item_varint [where 'a = 64, simplified]

lemma container_put:
  "put (container s) xs = Some w \<longleftrightarrow> (\<exists>b. put (elements (length xs) s) xs = Some b \<and> w = write_varint (of_nat (length xs) :: u64) @ b)"
  by (auto simp: container_def varint_field_def split: bind_splits)

lemma container_get:
  "get (container s) bs = Some (xs, rest) \<longleftrightarrow>
    (\<exists>cnt bs1. get varint_field bs = Some (cnt :: u64, bs1) \<and> unat cnt \<le> length bs1 \<and> get (elements (unat cnt) s) bs1 = Some (xs, rest))"
  by (auto simp: container_def not_less split: bind_splits if_splits)

lemma container_typed: "typed (container s) xs \<longleftrightarrow> length xs < 2 ^ 64 \<and> list_all (typed s) xs"
  by (simp add: container_def)

lemmas container_simps = container_put container_get container_typed

lemma varint_put: "put varint_field v = Some (write_varint v)"
  by (simp add: varint_field_def)

lemma put_elements_length:
  assumes "item s" and "typed (elements n s) xs" and "put (elements n s) xs = Some w"
  shows "n \<le> length w"
  using assms(2,3)
proof (induction n arbitrary: xs w)
  case 0
  then show ?case by simp
next
  case (Suc n)
  then obtain y ys a b where x: "xs = y # ys" "put s y = Some a" "put (elements n s) ys = Some b" "w = a @ b"
      "typed s y" "typed (elements n s) ys"
    by (cases xs) (auto simp: elements_def each_put each_Nil each_typed)
  then show ?case using Suc.IH [OF x(6,3)] item.put_not_Nil [OF assms(1) x(5)] by (cases a) auto
qed

lemma item_container:
  fixes s :: "'a serializer"
  assumes "item s"
  shows "item (container s)"
proof -
  have e: "wire (elements n s)" for n using assms by (intro wire_elements item_wire)
  have "wire (container s)"
  proof unfold_locales
    fix xs :: "'a list" and w bs rest
    show "\<exists>w. put (container s) xs = Some w" if "typed (container s) xs"
      using that wire.put_typed [OF e, of "length xs" xs] by (auto simp: container_simps elements_typed)
    show "get (container s) (w @ rest) = Some (xs, rest)" if t: "typed (container s) xs" "put (container s) xs = Some w"
    proof -
      obtain b where b: "put (elements (length xs) s) xs = Some b" "w = write_varint (of_nat (length xs) :: u64) @ b"
        using t by (auto simp: container_simps)
      have n: "unat (of_nat (length xs) :: u64) = length xs" using t by (simp add: container_simps unat_of_length)
      have "get varint_field (w @ rest) = Some (of_nat (length xs) :: u64, b @ rest)"
        using wire.get_put [OF item_wire [OF item_varint64] _ varint_put] b(2) by (simp add: varint_field_def)
      moreover have "length xs \<le> length (b @ rest)" using put_elements_length [OF assms _ b(1)] t by (simp add: container_simps elements_typed)
      moreover have "get (elements (length xs) s) (b @ rest) = Some (xs, rest)"
        using t b(1) by (intro wire.get_put [OF e]) (simp_all add: container_simps elements_typed)
      ultimately show ?thesis using n by (auto simp: container_simps)
    qed
    assume "get (container s) bs = Some (xs, rest)"
    then obtain cnt bs1 where g: "get varint_field bs = Some (cnt :: u64, bs1)" "get (elements (unat cnt) s) bs1 = Some (xs, rest)"
      by (auto simp: container_simps)
    have t: "length xs = unat cnt \<and> list_all (typed s) xs" using wire.get_typed [OF e g(2)] by (simp add: elements_typed)
    then show "typed (container s) xs" using unsigned_less [of cnt] by (simp add: container_simps)
    assume r: "rest \<noteq> []" and "put (container s) xs = Some w"
    then obtain b where b: "put (elements (unat cnt) s) xs = Some b" "w = write_varint cnt @ b" using t by (auto simp: container_simps)
    have "bs1 = b @ rest" by (rule wire.tight [OF e g(2) r b(1)])
    then show "bs = w @ rest" using wire.tight [OF item_wire [OF item_varint64] g(1) _ varint_put] r b(2) by simp
  qed
  then show ?thesis by (rule itemI) (auto simp: container_put write_varint_not_Nil)
qed

text \<open>A container that is not empty is not cut short.\<close>

lemma container_strict:
  assumes "strict_wire s" and "item s" and "get (container s) bs = Some (xs, rest)" and "xs \<noteq> []" and "put (container s) xs = Some w"
  shows "bs = w @ rest"
proof -
  have e: "strict_wire (elements n s)" for n using assms(1) by (rule strict_elements)
  obtain cnt bs1 where g: "get varint_field bs = Some (cnt :: u64, bs1)" "get (elements (unat cnt) s) bs1 = Some (xs, rest)"
    using assms(3) by (auto simp: container_simps)
  have t: "length xs = unat cnt" using wire.get_typed [OF strict_wire_wire [OF e] g(2)] by (simp add: elements_typed)
  then obtain b where b: "put (elements (unat cnt) s) xs = Some b" "w = write_varint cnt @ b" using assms(5) by (auto simp: container_simps)
  have "bs1 = b @ rest" by (rule strict_wire.strict [OF e g(2) b(1)])
  moreover have "b \<noteq> []" using put_elements_length [OF assms(2) wire.get_typed [OF strict_wire_wire [OF e] g(2)] b(1)] t assms(4) by auto
  ultimately show ?thesis using wire.tight [OF item_wire [OF item_varint64] g(1) _ varint_put] b(2) by simp
qed

text \<open>A variant is its tag followed by the alternative of that tag.\<close>

lemma variant_put: "put (variant tag alts) x = put (seq uint8 alts) (tag x, x)"
  by (simp add: variant_def seq_def)

lemma variant_get: "get (variant tag alts) bs = Some (x, rest) \<longleftrightarrow> (\<exists>t. get (seq uint8 alts) bs = Some ((t, x), rest))"
  by (auto simp: variant_def seq_def split: bind_splits)

lemma variant_typed: "typed (variant tag alts) x \<longleftrightarrow> typed (seq uint8 alts) (tag x, x)"
  by (simp add: variant_def seq_def uint8_def)

lemmas variant_simps = variant_put variant_get variant_typed

lemma item_variant:
  assumes "\<And>t. wire (alts t)" and tag: "\<And>t x. typed (alts t) x \<Longrightarrow> tag x = t"
  shows "item (variant tag alts)"
proof (rule itemI)
  have w: "item (seq uint8 alts)" using assms(1) by (intro item_seq) (simp_all add: strict_uint8 strict_item_item item_wire)
  note w' = item_wire [OF w]
  show "wire (variant tag alts)"
  proof unfold_locales
    fix x w bs rest
    show "\<exists>w. put (variant tag alts) x = Some w" if "typed (variant tag alts) x"
      using that wire.put_typed [OF w'] by (simp add: variant_simps)
    show "get (variant tag alts) (w @ rest) = Some (x, rest)" if "typed (variant tag alts) x" "put (variant tag alts) x = Some w"
      using that wire.get_put [OF w'] by (auto simp: variant_simps)
    assume "get (variant tag alts) bs = Some (x, rest)"
    then obtain t where g: "get (seq uint8 alts) bs = Some ((t, x), rest)" by (auto simp: variant_simps)
    then have t: "t = tag x" using tag wire.get_typed [OF w' g] by (auto simp: seq_typed)
    then show "typed (variant tag alts) x" using wire.get_typed [OF w' g] by (simp add: variant_simps)
    show "bs = w @ rest" if "rest \<noteq> []" "put (variant tag alts) x = Some w"
      using wire.tight [OF w' g] that t by (simp add: variant_simps)
  qed
  show "put (variant tag alts) x \<noteq> Some []" if "typed (variant tag alts) x" for x
    using item.put_not_Nil [OF w] that by (simp add: variant_simps)
qed

section \<open>Integers of four bytes\<close>

lemma write_u32_byte: "unat (ucast (drop_bit k (v :: u32) AND 0xff) :: u8) = unat v div 2 ^ k mod 256"
proof -
  have "drop_bit k v AND 0xff = take_bit 8 (drop_bit k v)" by (simp add: take_bit_eq_mask mask_eq_exp_minus_1)
  then have "unat (drop_bit k v AND 0xff) = unat v div 2 ^ k mod 256" by (simp add: unat_take_bit unat_drop_bit)
  moreover have "unat (ucast w :: u8) = unat w mod 256" for w :: u32 by (simp add: unsigned_ucast_eq take_bit_eq_mod)
  ultimately show ?thesis by simp
qed

lemma base256_digits:
  assumes "n < 256 ^ 4"
  shows "n mod 256 + 256 * (n div 256 mod 256 + 256 * (n div 65536 mod 256 + 256 * (n div 16777216 mod 256))) = (n :: nat)"
proof -
  define a where "a = n div 256"
  define b where "b = a div 256"
  define c where "c = b div 256"
  have d: "n div 65536 = b" "n div 16777216 = c" by (simp_all add: a_def b_def c_def div_mult2_eq [symmetric])
  have "c < 256" using assms by (simp add: a_def b_def c_def less_mult_imp_div_less)
  then have "n mod 256 + 256 * (a mod 256 + 256 * (b mod 256 + 256 * (c mod 256))) = n"
    using mod_mult_div_eq [of n 256] mod_mult_div_eq [of a 256] mod_mult_div_eq [of b 256]
    by (simp add: a_def [symmetric] b_def [symmetric] c_def [symmetric])
  then show ?thesis unfolding d a_def [symmetric] .
qed

lemma le_nat_uint32: "put uint32 v = Some w \<Longrightarrow> length w = 4 \<and> le_nat w = unat v"
proof -
  assume "put uint32 v = Some w"
  then have w: "w = map (\<lambda>i. ucast (drop_bit (8 * i) v AND 0xff)) [0, 1, 2, 3]" by (simp add: uint32_def upt_rec)
  have "le_nat w = unat v mod 256 + 256 * (unat v div 256 mod 256 + 256 * (unat v div 65536 mod 256 + 256 * (unat v div 16777216 mod 256)))"
    using write_u32_byte [of 0 v] write_u32_byte [of 8 v] write_u32_byte [of 16 v] write_u32_byte [of 24 v]
    unfolding w by (simp del: unsigned_and_eq unsigned_ucast_eq)
  also have "\<dots> = unat v" by (rule base256_digits) (use unsigned_less [of v] in simp)
  finally show ?thesis using w by simp
qed

lemma le_nat_inject: "length a = length b \<Longrightarrow> le_nat a = le_nat b \<Longrightarrow> a = b"
proof (induction a b rule: list_induct2)
  case (Cons x xs y ys)
  have m: "(unat b + 256 * n) mod 256 = unat b" for b :: u8 and n by (simp only: mod_mult_self2) (simp add: unsigned_less)
  have "unat x + 256 * le_nat xs = unat y + 256 * le_nat ys" using Cons.prems by simp
  then have "unat x = unat y" by (metis m)
  then show ?case using Cons by (simp add: word_unat_eq_iff)
qed simp

lemma strict_uint32: "strict_item uint32"
proof (intro strict_itemI strict_wireI)
  fix v :: u32 and w bs rest
  show "\<exists>w. put uint32 v = Some w" "typed uint32 v" "put uint32 v \<noteq> Some []" by (simp_all add: uint32_def)
  show "get uint32 (w @ rest) = Some (v, rest)" if "put uint32 v = Some w"
    using le_nat_uint32 [OF that] by (simp add: uint32_def)
  assume "get uint32 bs = Some (v, rest)" and p: "put uint32 v = Some w"
  then have b: "4 \<le> length bs" "rest = drop 4 bs" "v = of_nat (le_nat (take 4 bs))"
    by (auto simp: uint32_def split: if_splits)
  have "le_nat (take 4 bs) < 256 ^ length (take 4 bs)" by (rule le_nat_less)
  then have "unat v = le_nat (take 4 bs)" using b by (simp add: unat_of_nat)
  then have "w = take 4 bs" using le_nat_uint32 [OF p] b by (intro le_nat_inject) simp_all
  then show "bs = w @ rest" using b(2) by simp
qed

section \<open>Strings and rules\<close>

lemma counted_members:
  "typed (seq (require P (c :: u32 serializer)) (\<lambda>n. elements (unat n) s)) x \<Longrightarrow> (of_nat (length (snd x)), take (unat (of_nat (length (snd x)) :: u32)) (snd x)) = x"
  by (cases x) (simp add: seq_typed elements_typed)

lemma wire_counted: "wire c \<Longrightarrow> wire s \<Longrightarrow> wire (counted c P s)"
  unfolding counted_def by (intro wire_object wire_seq wire_require wire_elements counted_members)

lemma counted_typed: "typed (counted c P s) xs \<longleftrightarrow>
    length xs < 2 ^ 32 \<and> P (of_nat (length xs)) \<and> typed c (of_nat (length xs)) \<and> list_all (typed s) xs"
proof -
  have "take (unat (of_nat (length xs) :: u32)) xs = xs \<longleftrightarrow> length xs \<le> unat (of_nat (length xs) :: u32)"
    by (metis take_all_iff)
  also have "\<dots> \<longleftrightarrow> length xs < 2 ^ 32"
    using unsigned_less [of "of_nat (length xs) :: u32"] by (auto simp: unat_of_nat)
  finally show ?thesis
    by (auto simp: counted_def object_typed seq_typed require_typed elements_typed unat_of_nat)
qed

lemma string_put: "put string_field str = Some (write_varint (of_nat (length str) :: u64) @ str)"
  by (simp add: string_field_def varint_put blob_def)

lemma simple_typed:
  "typed varint_field v" "typed uint8 b" "typed uint32 n" "typed (unsaved c) x \<longleftrightarrow> x = c" "\<not> typed refuse y"
  by (simp_all add: varint_field_def uint8_def uint32_def unsaved_def refuse_def)

lemmas typed_simps = simple_typed blob_typed seq_typed object_typed require_typed alternative_typed elements_typed
  container_typed counted_typed

lemma put_byte_elements: "put (elements (length xs) uint8) xs = Some xs"
proof (induction xs)
  case (Cons x xs)
  then show ?case by (simp add: elements_def each_def uint8_def)
qed (simp add: elements_def each_def)

lemma put_bytes: "put (container uint8) xs = Some (write_varint (of_nat (length xs) :: u64) @ xs)"
  by (simp add: container_def varint_put put_byte_elements)

lemma put_container_Nil: "put (container s) [] = Some (write_varint (0 :: u64))"
  by (simp add: container_def varint_put elements_def each_def)

lemma put_container_single: "put (container s) [x] = do { b \<leftarrow> put s x; Some (write_varint (1 :: u64) @ b) }"
  by (cases "put s x") (simp_all add: container_def varint_put elements_def each_def)

lemma uint8_put: "put uint8 v = Some [v]"
  by (simp add: uint8_def)

lemma put_seq: "put (seq s t) (x, y) = do { a \<leftarrow> put s x; b \<leftarrow> put (t x) y; Some (a @ b) }"
  by (simp add: seq_def)

lemma put_require: "put (require P s) x = (if P x then put s x else None)"
  by (simp add: require_def)

lemma put_alternative: "put (alternative con value s) y = do { x \<leftarrow> value y; put s x }"
  by (simp add: alternative_def)

lemma put_unsaved: "put (unsaved c) x = Some []"
  by (simp add: unsaved_def)

lemmas put_simps = varint_put uint8_put put_seq put_require put_alternative put_unsaved object_put variant_put
  put_bytes put_container_Nil put_container_single

lemma strict_cong:
  assumes "strict_wire s" and "get s' = get s" and "typed s' = typed s" and "\<And>x. typed s x \<Longrightarrow> put s' x = put s x"
  shows "strict_wire s'"
proof (rule strict_wireI)
  note w = strict_wire_wire [OF assms(1)]
  show "\<exists>w. put s' x = Some w" if "typed s' x" for x using that assms(3,4) wire.put_typed [OF w] by simp
  show "get s' (w @ rest) = Some (x, rest)" if "typed s' x" "put s' x = Some w" for x w rest
    using that assms(2-4) wire.get_put [OF w] by simp
  show "typed s' x" if "get s' bs = Some (x, rest)" for bs x rest using that assms(2,3) wire.get_typed [OF w] by simp
  show "bs = w @ rest" if "get s' bs = Some (x, rest)" "put s' x = Some w" for bs x rest w
    using that assms(2,4) wire.get_typed [OF w] strict_wire.strict [OF assms(1)] by simp
qed

lemma put_blobs: "length xs = n \<Longrightarrow> put (elements n (blob m)) xs = Some (concat xs)"
proof (induction xs arbitrary: n)
  case (Cons x xs)
  then show ?case by (auto simp: elements_def each_def blob_def)
qed (simp add: elements_def each_def)

text \<open>
  Where a whole type is not strict, some of its values are: those that are only read from what is
  written for them.
\<close>

definition strict_at :: "'a serializer \<Rightarrow> 'a \<Rightarrow> bool" where
  "strict_at s x \<longleftrightarrow> (\<forall>bs rest w. get s bs = Some (x, rest) \<longrightarrow> put s x = Some w \<longrightarrow> bs = w @ rest)"

lemma strict_at_wire: "strict_wire s \<Longrightarrow> strict_at s x"
  by (auto simp: strict_at_def dest: strict_wire.strict)

lemma strict_wire_at: "wire s \<Longrightarrow> (\<And>x. strict_at s x) \<Longrightarrow> strict_wire s"
  unfolding strict_wire_def strict_wire_axioms_def strict_at_def by blast

lemma strict_at_seq:
  assumes "wire s" and "wire (t x)" and "strict_at (t x) y" and "strict_at s x \<or> item (t x)"
  shows "strict_at (seq s t) (x, y)"
  unfolding strict_at_def
proof (intro allI impI)
  fix bs rest w assume "get (seq s t) bs = Some ((x, y), rest)" and "put (seq s t) (x, y) = Some w"
  then obtain bs1 a b where g: "get s bs = Some (x, bs1)" "get (t x) bs1 = Some (y, rest)"
    and p: "put s x = Some a" "put (t x) y = Some b" "w = a @ b" by (auto simp: seq_get seq_put)
  have b: "bs1 = b @ rest" using assms(3) g(2) p(2) by (auto simp: strict_at_def)
  have "bs = a @ bs1" using assms(4)
  proof
    assume "strict_at s x"
    then show ?thesis using g(1) p(1) by (auto simp: strict_at_def)
  next
    assume "item (t x)"
    then have "b \<noteq> []" using item.put_not_Nil [of "t x" y] wire.get_typed [OF assms(2) g(2)] p(2) by auto
    then show ?thesis using wire.tight [OF assms(1) g(1) _ p(1)] b by simp
  qed
  then show "bs = w @ rest" using b p(3) by simp
qed

lemma strict_at_object:
  assumes "wire s" and "\<And>x. typed s x \<Longrightarrow> members (con x) = x" and "strict_at s (members y)"
  shows "strict_at (object con members s) y"
  using assms(2,3) wire.get_typed [OF assms(1)] by (fastforce simp: strict_at_def object_simps)

lemma strict_at_require: "strict_at s x \<Longrightarrow> strict_at (require P s) x"
  by (auto simp: strict_at_def require_simps)

lemma strict_at_container: "strict_item s \<Longrightarrow> xs \<noteq> [] \<Longrightarrow> strict_at (container s) xs"
  using container_strict [of s] by (simp add: strict_at_def strict_item_strict strict_item_item)

lemma serialize_strict_at: "wire s \<Longrightarrow> serialize s bs = Some x \<Longrightarrow> strict_at s x \<Longrightarrow> put s x = Some bs"
proof -
  assume w: "wire s" and "serialize s bs = Some x" and s: "strict_at s x"
  then have g: "get s bs = Some (x, [])" by (auto simp: serialize_def split: option.splits list.splits)
  obtain v where "put s x = Some v" using wire.put_typed [OF w wire.get_typed [OF w g]] by blast
  then show ?thesis using s g by (auto simp: strict_at_def)
qed

lemmas wire_rules [wires] =
  strict_blob strict_item_blob strict_uint8 strict_uint32 strict_unsaved strict_refuse item_varint
  wire_seq wire_object wire_require wire_alternative wire_elements
  strict_seq strict_object strict_require strict_alternative strict_elements
  wire_counted
  item_seq item_object item_require item_alternative item_elements item_container item_variant
  item_wire strict_wire_wire strict_item_item strict_item_strict

end
