(* ===== verification/Transaction.thy ===== *)
theory Transaction
  imports Binary_Archive
begin

text \<open>
  Transactions and their binary form: the structures of \<open>src/cryptonote_basic/cryptonote_basic.h\<close> and
  \<open>src/ringct/rctTypes.h\<close> with their serialisation, and the capacity of range proofs of
  \<open>src/ringct/rctTypes.cpp\<close>.

  A structure of the source is a record, a variant is a datatype, and the description that a structure
  has of its own serialisation is a serialiser with the same fields in the same order. The members that
  are never saved and not used here (\<open>message\<close>, \<open>mixRing\<close> and the key images of the signatures, which are
  reconstructed, and the caches of hashes) are left out; the flag \<open>pruned\<close> is the choice between the two
  serialisers of a transaction. Keys, hashes and signatures are byte strings of 32 and 64 bytes.
\<close>

section \<open>Inputs, outputs and the prefix\<close>

abbreviation key_field :: "bytes serializer" where "key_field \<equiv> blob 32"

record txout_to_script =
  keys :: "bytes list"
  script :: bytes

record txout_to_tagged_key =
  tagged_key :: bytes
  view_tag :: bytes

datatype txout_target_v =
    is_Txout_to_script: Txout_to_script txout_to_script
  | is_Txout_to_scripthash: Txout_to_scripthash bytes
  | is_Txout_to_key: Txout_to_key bytes
  | is_Txout_to_tagged_key: Txout_to_tagged_key txout_to_tagged_key

record txin_to_script =
  prev :: bytes
  prevout :: u64
  sigset :: bytes

record txin_to_scripthash =
  sh_prev :: bytes
  sh_prevout :: u64
  sh_script :: txout_to_script
  sh_sigset :: bytes

record txin_to_key =
  in_amount :: u64
  key_offsets :: "u64 list"
  k_image :: bytes

datatype txin_v =
    Txin_gen (gen_height: u64)
  | Txin_to_script txin_to_script
  | Txin_to_scripthash txin_to_scripthash
  | Txin_to_key txin_to_key

record tx_out =
  amount :: u64
  out_target :: txout_target_v

record transaction_prefix =
  tx_version :: u64
  unlock_time :: u64
  vin :: "txin_v list"
  vout :: "tx_out list"
  extra :: bytes

definition ser_txout_to_script :: "txout_to_script serializer" where
  "ser_txout_to_script =
    object (\<lambda>(ks, sc). \<lparr>keys = ks, script = sc\<rparr>) (\<lambda>o1. (keys o1, script o1))
      (seq (container key_field) (\<lambda>_. container uint8))"

definition ser_txout_to_tagged_key :: "txout_to_tagged_key serializer" where
  "ser_txout_to_tagged_key =
    object (\<lambda>(k, v). \<lparr>tagged_key = k, view_tag = v\<rparr>) (\<lambda>o1. (tagged_key o1, view_tag o1))
      (seq key_field (\<lambda>_. blob 1))"

definition ser_txin_to_script :: "txin_to_script serializer" where
  "ser_txin_to_script =
    object (\<lambda>(h, n, s). \<lparr>prev = h, prevout = n, sigset = s\<rparr>) (\<lambda>i. (prev i, prevout i, sigset i))
      (seq key_field (\<lambda>_. seq varint_field (\<lambda>_. container uint8)))"

definition ser_txin_to_scripthash :: "txin_to_scripthash serializer" where
  "ser_txin_to_scripthash =
    object (\<lambda>(h, n, c, s). \<lparr>sh_prev = h, sh_prevout = n, sh_script = c, sh_sigset = s\<rparr>)
      (\<lambda>i. (sh_prev i, sh_prevout i, sh_script i, sh_sigset i))
      (seq key_field (\<lambda>_. seq varint_field (\<lambda>_. seq ser_txout_to_script (\<lambda>_. container uint8))))"

definition ser_txin_to_key :: "txin_to_key serializer" where
  "ser_txin_to_key =
    object (\<lambda>(a, os, k). \<lparr>in_amount = a, key_offsets = os, k_image = k\<rparr>) (\<lambda>i. (in_amount i, key_offsets i, k_image i))
      (seq varint_field (\<lambda>_. seq (container varint_field) (\<lambda>_. key_field)))"

text \<open>The tags of the variants.\<close>

fun txin_tag :: "txin_v \<Rightarrow> u8" where
  "txin_tag (Txin_gen _) = 0xff"
| "txin_tag (Txin_to_script _) = 0x0"
| "txin_tag (Txin_to_scripthash _) = 0x1"
| "txin_tag (Txin_to_key _) = 0x2"

fun txout_tag :: "txout_target_v \<Rightarrow> u8" where
  "txout_tag (Txout_to_script _) = 0x0"
| "txout_tag (Txout_to_scripthash _) = 0x1"
| "txout_tag (Txout_to_key _) = 0x2"
| "txout_tag (Txout_to_tagged_key _) = 0x3"

definition txin_alternatives :: "u8 \<Rightarrow> txin_v serializer" where
  "txin_alternatives t =
    (if t = 0xff then alternative Txin_gen (\<lambda>v. case v of Txin_gen x \<Rightarrow> Some x | _ \<Rightarrow> None) varint_field
     else if t = 0x0 then alternative Txin_to_script (\<lambda>v. case v of Txin_to_script x \<Rightarrow> Some x | _ \<Rightarrow> None) ser_txin_to_script
     else if t = 0x1 then alternative Txin_to_scripthash (\<lambda>v. case v of Txin_to_scripthash x \<Rightarrow> Some x | _ \<Rightarrow> None) ser_txin_to_scripthash
     else if t = 0x2 then alternative Txin_to_key (\<lambda>v. case v of Txin_to_key x \<Rightarrow> Some x | _ \<Rightarrow> None) ser_txin_to_key
     else refuse)"

definition txout_alternatives :: "u8 \<Rightarrow> txout_target_v serializer" where
  "txout_alternatives t =
    (if t = 0x0 then alternative Txout_to_script (\<lambda>v. case v of Txout_to_script x \<Rightarrow> Some x | _ \<Rightarrow> None) ser_txout_to_script
     else if t = 0x1 then alternative Txout_to_scripthash (\<lambda>v. case v of Txout_to_scripthash x \<Rightarrow> Some x | _ \<Rightarrow> None) (blob 32)
     else if t = 0x2 then alternative Txout_to_key (\<lambda>v. case v of Txout_to_key x \<Rightarrow> Some x | _ \<Rightarrow> None) (blob 32)
     else if t = 0x3 then alternative Txout_to_tagged_key (\<lambda>v. case v of Txout_to_tagged_key x \<Rightarrow> Some x | _ \<Rightarrow> None) ser_txout_to_tagged_key
     else refuse)"

definition ser_txin :: "txin_v serializer" where
  "ser_txin = variant txin_tag txin_alternatives"

definition ser_txout_target :: "txout_target_v serializer" where
  "ser_txout_target = variant txout_tag txout_alternatives"

definition ser_tx_out :: "tx_out serializer" where
  "ser_tx_out =
    object (\<lambda>(a, t). \<lparr>amount = a, out_target = t\<rparr>) (\<lambda>o1. (amount o1, out_target o1))
      (seq varint_field (\<lambda>_. ser_txout_target))"

definition CURRENT_TRANSACTION_VERSION :: u64 where "CURRENT_TRANSACTION_VERSION = 2"

definition ser_transaction_prefix :: "transaction_prefix serializer" where
  "ser_transaction_prefix =
    object (\<lambda>(v, u, is, os, e). \<lparr>tx_version = v, unlock_time = u, vin = is, vout = os, extra = e\<rparr>)
      (\<lambda>tx. (tx_version tx, unlock_time tx, vin tx, vout tx, extra tx))
      (seq (require (\<lambda>version. \<not> (version = 0 \<or> CURRENT_TRANSACTION_VERSION < version)) varint_field)
        (\<lambda>_. seq varint_field (\<lambda>_. seq (container ser_txin) (\<lambda>_. seq (container ser_tx_out) (\<lambda>_. container uint8)))))"

section \<open>Ring signatures\<close>

record ctkey =
  ct_dest :: bytes
  ct_mask :: bytes

record ecdhTuple =
  ecdh_mask :: bytes
  ecdh_amount :: bytes

record mgSig =
  mg_ss :: "bytes list list"
  mg_cc :: bytes

record clsag =
  clsag_s :: "bytes list"
  c1 :: bytes
  clsag_D :: bytes

record rangeSig =
  asig :: bytes
  Ci :: bytes

record Bulletproof =
  bp_V :: "bytes list"
  bp_A :: bytes
  bp_S :: bytes
  bp_T1 :: bytes
  bp_T2 :: bytes
  bp_taux :: bytes
  bp_mu :: bytes
  bp_L :: "bytes list"
  bp_R :: "bytes list"
  bp_a :: bytes
  bp_b :: bytes
  bp_t :: bytes

record BulletproofPlus =
  bpp_V :: "bytes list"
  bpp_A :: bytes
  bpp_A1 :: bytes
  bpp_B :: bytes
  bpp_r1 :: bytes
  bpp_s1 :: bytes
  bpp_d1 :: bytes
  bpp_L :: "bytes list"
  bpp_R :: "bytes list"

record rctSigBase =
  rct_type :: u8
  txnFee :: u64
  pseudoOuts :: "bytes list"
  ecdhInfo :: "ecdhTuple list"
  outPk :: "ctkey list"

record rctSigPrunable =
  rangeSigs :: "rangeSig list"
  bulletproofs :: "Bulletproof list"
  bulletproofs_plus :: "BulletproofPlus list"
  MGs :: "mgSig list"
  CLSAGs :: "clsag list"
  p_pseudoOuts :: "bytes list"

record rctSig = rctSigBase +
  rct_p :: rctSigPrunable

definition RCTTypeNull :: u8 where "RCTTypeNull = 0"
definition RCTTypeFull :: u8 where "RCTTypeFull = 1"
definition RCTTypeSimple :: u8 where "RCTTypeSimple = 2"
definition RCTTypeBulletproof :: u8 where "RCTTypeBulletproof = 3"
definition RCTTypeBulletproof2 :: u8 where "RCTTypeBulletproof2 = 4"
definition RCTTypeCLSAG :: u8 where "RCTTypeCLSAG = 5"
definition RCTTypeBulletproofPlus :: u8 where "RCTTypeBulletproofPlus = 6"

lemmas rct_types = RCTTypeNull_def RCTTypeFull_def RCTTypeSimple_def RCTTypeBulletproof_def RCTTypeBulletproof2_def
  RCTTypeCLSAG_def RCTTypeBulletproofPlus_def

definition zero_key :: bytes where "zero_key = replicate 32 0"

definition known_rct_type :: "u8 \<Rightarrow> bool" where
  "known_rct_type ty \<longleftrightarrow>
    \<not> (ty \<noteq> RCTTypeFull \<and> ty \<noteq> RCTTypeSimple \<and> ty \<noteq> RCTTypeBulletproof \<and> ty \<noteq> RCTTypeBulletproof2 \<and> ty \<noteq> RCTTypeCLSAG
       \<and> ty \<noteq> RCTTypeBulletproofPlus)"

text \<open>The encrypted amount: two keys, or only the first eight bytes of the second.\<close>

definition ser_ecdhTuple :: "u8 \<Rightarrow> ecdhTuple serializer" where
  "ser_ecdhTuple ty =
    (if ty = RCTTypeBulletproof2 \<or> ty = RCTTypeCLSAG \<or> ty = RCTTypeBulletproofPlus then
       object (\<lambda>trunc_amount. \<lparr>ecdh_mask = zero_key, ecdh_amount = trunc_amount @ replicate 24 0\<rparr>)
         (\<lambda>e. take 8 (ecdh_amount e)) (blob 8)
     else
       object (\<lambda>(m, a). \<lparr>ecdh_mask = m, ecdh_amount = a\<rparr>) (\<lambda>e. (ecdh_mask e, ecdh_amount e))
         (seq key_field (\<lambda>_. key_field)))"

definition ser_rctsig_base :: "nat \<Rightarrow> nat \<Rightarrow> rctSigBase serializer" where
  "ser_rctsig_base inputs outputs =
    object (\<lambda>(ty, fee, ps, es, ms). \<lparr>rct_type = ty, txnFee = fee, pseudoOuts = ps, ecdhInfo = es, outPk = map (\<lambda>m. \<lparr>ct_dest = zero_key, ct_mask = m\<rparr>) ms\<rparr>)
      (\<lambda>b. (rct_type b, txnFee b, pseudoOuts b, ecdhInfo b, map ct_mask (outPk b)))
      (seq uint8 (\<lambda>ty.
        if ty = RCTTypeNull then unsaved (0, [], [], [])
        else if \<not> known_rct_type ty then refuse
        else seq varint_field (\<lambda>_.
          seq (if ty = RCTTypeSimple then elements inputs key_field else unsaved []) (\<lambda>_.
            seq (elements outputs (ser_ecdhTuple ty)) (\<lambda>_. elements outputs key_field)))))"

definition ser_rangeSig :: "rangeSig serializer" where
  "ser_rangeSig =
    object (\<lambda>(a, c). \<lparr>asig = a, Ci = c\<rparr>) (\<lambda>r. (asig r, Ci r)) (seq (blob (64 * 32 + 64 * 32 + 32)) (\<lambda>_. blob (64 * 32)))"

definition ser_Bulletproof :: "Bulletproof serializer" where
  "ser_Bulletproof =
    require (\<lambda>bp. \<not> (bp_L bp = [] \<or> length (bp_L bp) \<noteq> length (bp_R bp)))
      (object
        (\<lambda>(A, S, T1, T2, taux, mu, L, R, a, b, t). \<lparr>bp_V = [], bp_A = A, bp_S = S, bp_T1 = T1, bp_T2 = T2, bp_taux = taux, bp_mu = mu,
           bp_L = L, bp_R = R, bp_a = a, bp_b = b, bp_t = t\<rparr>)
        (\<lambda>bp. (bp_A bp, bp_S bp, bp_T1 bp, bp_T2 bp, bp_taux bp, bp_mu bp, bp_L bp, bp_R bp, bp_a bp, bp_b bp, bp_t bp))
        (seq key_field (\<lambda>_. seq key_field (\<lambda>_. seq key_field (\<lambda>_. seq key_field (\<lambda>_. seq key_field (\<lambda>_. seq key_field (\<lambda>_.
          seq (container key_field) (\<lambda>_. seq (container key_field) (\<lambda>_.
            seq key_field (\<lambda>_. seq key_field (\<lambda>_. key_field))))))))))))"

definition ser_BulletproofPlus :: "BulletproofPlus serializer" where
  "ser_BulletproofPlus =
    require (\<lambda>bp. \<not> (bpp_L bp = [] \<or> length (bpp_L bp) \<noteq> length (bpp_R bp)))
      (object
        (\<lambda>(A, A1, B, r1, s1, d1, L, R). \<lparr>bpp_V = [], bpp_A = A, bpp_A1 = A1, bpp_B = B, bpp_r1 = r1, bpp_s1 = s1, bpp_d1 = d1,
           bpp_L = L, bpp_R = R\<rparr>)
        (\<lambda>bp. (bpp_A bp, bpp_A1 bp, bpp_B bp, bpp_r1 bp, bpp_s1 bp, bpp_d1 bp, bpp_L bp, bpp_R bp))
        (seq key_field (\<lambda>_. seq key_field (\<lambda>_. seq key_field (\<lambda>_. seq key_field (\<lambda>_. seq key_field (\<lambda>_. seq key_field (\<lambda>_.
          seq (container key_field) (\<lambda>_. container key_field)))))))))"

text \<open>How many amounts proofs can hold, from the numbers of their \<open>L\<close> and \<open>R\<close>.\<close>

definition n_bulletproof_max_amounts_base :: "nat \<Rightarrow> nat \<Rightarrow> nat" where
  "n_bulletproof_max_amounts_base L_size R_size =
    (if \<not> L_size \<ge> 6 then 0
     else if L_size \<noteq> R_size then 0
     else if \<not> L_size \<le> 6 + 4 then 0
     else 2 ^ (L_size - 6))"

fun sum_max_amounts :: "nat \<Rightarrow> nat list \<Rightarrow> nat" where
  "sum_max_amounts n [] = n"
| "sum_max_amounts n (n2 # ns) = (if \<not> n2 < 0xffffffff - n then 0 else if n2 = 0 then 0 else sum_max_amounts (n + n2) ns)"

definition n_bulletproof_max_amounts :: "Bulletproof list \<Rightarrow> nat" where
  "n_bulletproof_max_amounts proofs =
    sum_max_amounts 0 (map (\<lambda>bp. n_bulletproof_max_amounts_base (length (bp_L bp)) (length (bp_R bp))) proofs)"

definition n_bulletproof_plus_max_amounts :: "BulletproofPlus list \<Rightarrow> nat" where
  "n_bulletproof_plus_max_amounts proofs =
    sum_max_amounts 0 (map (\<lambda>bp. n_bulletproof_max_amounts_base (length (bpp_L bp)) (length (bpp_R bp))) proofs)"

definition ser_clsag :: "nat \<Rightarrow> clsag serializer" where
  "ser_clsag ring =
    object (\<lambda>(s, c, d). \<lparr>clsag_s = s, c1 = c, clsag_D = d\<rparr>) (\<lambda>g. (clsag_s g, c1 g, clsag_D g))
      (seq (elements ring key_field) (\<lambda>_. seq key_field (\<lambda>_. key_field)))"

definition ser_mgSig :: "nat \<Rightarrow> nat \<Rightarrow> mgSig serializer" where
  "ser_mgSig ring mg_ss2_elements =
    object (\<lambda>(s, c). \<lparr>mg_ss = s, mg_cc = c\<rparr>) (\<lambda>g. (mg_ss g, mg_cc g))
      (seq (elements ring (elements mg_ss2_elements key_field)) (\<lambda>_. key_field))"

text \<open>
  The three parts that can be pruned: the range proofs, the ring signatures and the pseudo outputs. The
  mixin is that of the first input.
\<close>

definition ser_range_proofs :: "u8 \<Rightarrow> nat \<Rightarrow> (rangeSig list \<times> Bulletproof list \<times> BulletproofPlus list) serializer" where
  "ser_range_proofs ty outputs =
    (if ty = RCTTypeBulletproofPlus then
       object (\<lambda>bps. ([], [], bps)) (\<lambda>(_, _, bps). bps)
         (require (\<lambda>bps. \<not> n_bulletproof_plus_max_amounts bps < outputs)
           (counted varint_field (\<lambda>nbp. \<not> unat nbp > outputs) ser_BulletproofPlus))
     else if ty = RCTTypeBulletproof \<or> ty = RCTTypeBulletproof2 \<or> ty = RCTTypeCLSAG then
       object (\<lambda>bps. ([], bps, [])) (\<lambda>(_, bps, _). bps)
         (require (\<lambda>bps. \<not> n_bulletproof_max_amounts bps < outputs)
           (counted (if ty = RCTTypeBulletproof2 \<or> ty = RCTTypeCLSAG then varint_field else uint32)
             (\<lambda>nbp. \<not> unat nbp > outputs) ser_Bulletproof))
     else
       object (\<lambda>rs. (rs, [], [])) (\<lambda>(rs, _, _). rs) (elements outputs ser_rangeSig))"

definition ser_ring_signatures :: "u8 \<Rightarrow> nat \<Rightarrow> nat \<Rightarrow> (mgSig list \<times> clsag list) serializer" where
  "ser_ring_signatures ty inputs ring =
    (if ty = RCTTypeCLSAG \<or> ty = RCTTypeBulletproofPlus then
       object (\<lambda>cs. ([], cs)) snd (elements inputs (ser_clsag ring))
     else
       let simple = (ty = RCTTypeSimple \<or> ty = RCTTypeBulletproof \<or> ty = RCTTypeBulletproof2)
       in object (\<lambda>ms. (ms, [])) fst
            (elements (if simple then inputs else 1) (ser_mgSig ring ((if simple then 1 else inputs) + 1))))"

definition no_prunable :: rctSigPrunable where
  "no_prunable = \<lparr>rangeSigs = [], bulletproofs = [], bulletproofs_plus = [], MGs = [], CLSAGs = [], p_pseudoOuts = []\<rparr>"

definition ser_rctsig_prunable :: "u8 \<Rightarrow> nat \<Rightarrow> nat \<Rightarrow> u64 \<Rightarrow> rctSigPrunable serializer" where
  "ser_rctsig_prunable ty inputs outputs mixin =
    (if inputs \<ge> 0xffffffff then refuse
     else if outputs \<ge> 0xffffffff then refuse
     else if mixin \<ge> 0xffffffff then refuse
     else if ty = RCTTypeNull then unsaved no_prunable
     else if \<not> known_rct_type ty then refuse
     else
       object (\<lambda>((rs, bps, bpps), (ms, cs), ps).
           \<lparr>rangeSigs = rs, bulletproofs = bps, bulletproofs_plus = bpps, MGs = ms, CLSAGs = cs, p_pseudoOuts = ps\<rparr>)
         (\<lambda>q. ((rangeSigs q, bulletproofs q, bulletproofs_plus q), (MGs q, CLSAGs q), p_pseudoOuts q))
         (seq (ser_range_proofs ty outputs) (\<lambda>_. seq (ser_ring_signatures ty inputs (unat (mixin + 1))) (\<lambda>_.
           if ty = RCTTypeBulletproof \<or> ty = RCTTypeBulletproof2 \<or> ty = RCTTypeCLSAG \<or> ty = RCTTypeBulletproofPlus
           then elements inputs key_field else unsaved []))))"

definition null_rct :: rctSig where
  "null_rct = \<lparr>rct_type = RCTTypeNull, txnFee = 0, pseudoOuts = [], ecdhInfo = [], outPk = [], rct_p = no_prunable\<rparr>"

section \<open>Transactions\<close>

record transaction = transaction_prefix +
  signatures :: "bytes list list"
  rct_signatures :: rctSig

definition get_signature_size :: "txin_v \<Rightarrow> nat" where
  "get_signature_size i = (case i of Txin_to_key k \<Rightarrow> length (key_offsets k) | _ \<Rightarrow> 0)"

text \<open>
  The signatures of a version 1 transaction: for each input as many as it has ring members. A writer
  accepts a missing list if no input needs signatures; a reader never makes such a list.
\<close>

fun put_signatures :: "txin_v list \<Rightarrow> bytes list list \<Rightarrow> bytes option" where
  "put_signatures [] [] = Some []"
| "put_signatures (i # is) (s # sigs) =
    (if get_signature_size i \<noteq> length s then None
     else do { rest \<leftarrow> put_signatures is sigs; Some (concat s @ rest) })"
| "put_signatures _ _ = None"

definition ser_signatures :: "txin_v list \<Rightarrow> bytes list list serializer" where
  "ser_signatures is =
    \<lparr>put = \<lambda>sigs.
       (let signatures_not_expected = (sigs = [])
        in if \<not> signatures_not_expected \<and> length is \<noteq> length sigs then None
           else if signatures_not_expected then if list_all (\<lambda>i. get_signature_size i = 0) is then Some [] else None
           else put_signatures is sigs),
     get = get (each (map (\<lambda>i. elements (get_signature_size i) (blob 64)) is)),
     typed = typed (each (map (\<lambda>i. elements (get_signature_size i) (blob 64)) is))\<rparr>"

definition tx_mixin :: "txin_v list \<Rightarrow> u64" where
  "tx_mixin is = (case is of Txin_to_key k # _ \<Rightarrow> of_nat (length (key_offsets k)) - 1 | _ \<Rightarrow> 0)"

definition ser_rctSig :: "nat \<Rightarrow> nat \<Rightarrow> u64 \<Rightarrow> rctSig serializer" where
  "ser_rctSig inputs outputs mixin =
    object (\<lambda>(b, q). rctSigBase.extend b (rctSig.fields q)) (\<lambda>r. (rctSigBase.truncate r, rct_p r))
      (seq (ser_rctsig_base inputs outputs) (\<lambda>b.
        if rct_type b \<noteq> RCTTypeNull then ser_rctsig_prunable (rct_type b) inputs outputs mixin else unsaved no_prunable))"

definition ser_tx_signatures :: "transaction_prefix \<Rightarrow> (bytes list list \<times> rctSig) serializer" where
  "ser_tx_signatures pre =
    (if tx_version pre = 1 then seq (ser_signatures (vin pre)) (\<lambda>_. unsaved null_rct)
     else seq (unsaved []) (\<lambda>_.
       if vin pre \<noteq> [] then ser_rctSig (length (vin pre)) (length (vout pre)) (tx_mixin (vin pre)) else unsaved null_rct))"

definition ser_transaction :: "transaction serializer" where
  "ser_transaction =
    object (\<lambda>(pre, sigs, r). transaction_prefix.extend pre (transaction.fields sigs r))
      (\<lambda>tx. (transaction_prefix.truncate tx, signatures tx, rct_signatures tx))
      (seq ser_transaction_prefix ser_tx_signatures)"

text \<open>\<open>serialize_base\<close>, for pruned transactions.\<close>

definition ser_transaction_base :: "transaction serializer" where
  "ser_transaction_base =
    object (\<lambda>(pre, b). transaction_prefix.extend pre (transaction.fields [] (rctSigBase.extend b (rctSig.fields no_prunable))))
      (\<lambda>tx. (transaction_prefix.truncate tx, rctSigBase.truncate (rct_signatures tx)))
      (seq ser_transaction_prefix (\<lambda>pre.
        if tx_version pre = 1 then unsaved (rctSigBase.truncate null_rct)
        else if vin pre \<noteq> [] then ser_rctsig_base (length (vin pre)) (length (vout pre))
        else unsaved (rctSigBase.truncate null_rct)))"

section \<open>Contracts\<close>

lemma item_txout_to_script [wires]: "item ser_txout_to_script"
  unfolding ser_txout_to_script_def by (rule item_object) (auto simp: wires)

lemma strict_txout_to_tagged_key [wires]: "strict_wire ser_txout_to_tagged_key"
  unfolding ser_txout_to_tagged_key_def by (rule strict_object) (auto simp: wires)

lemma item_txin_to_script [wires]: "item ser_txin_to_script"
  unfolding ser_txin_to_script_def by (rule item_object) (auto simp: wires)

lemma item_txin_to_scripthash [wires]: "item ser_txin_to_scripthash"
  unfolding ser_txin_to_scripthash_def by (rule item_object) (auto simp: wires)

lemma item_txin_to_key [wires]: "item ser_txin_to_key"
  unfolding ser_txin_to_key_def by (rule item_object) (auto simp: wires)

lemma wire_txin_alternatives [wires]: "wire (txin_alternatives t)"
  by (simp add: txin_alternatives_def wires)

lemma wire_txout_alternatives [wires]: "wire (txout_alternatives t)"
  by (simp add: txout_alternatives_def wires)

lemma txin_alternatives_tag: "typed (txin_alternatives t) v \<Longrightarrow> txin_tag v = t"
  by (auto simp: txin_alternatives_def alternative_typed refuse_def split: if_splits txin_v.splits)

lemma txout_alternatives_tag: "typed (txout_alternatives t) v \<Longrightarrow> txout_tag v = t"
  by (auto simp: txout_alternatives_def alternative_typed refuse_def split: if_splits txout_target_v.splits)

lemma item_txin [wires]: "item ser_txin"
  unfolding ser_txin_def by (rule item_variant [OF wire_txin_alternatives txin_alternatives_tag])

lemma item_txout_target [wires]: "item ser_txout_target"
  unfolding ser_txout_target_def by (rule item_variant [OF wire_txout_alternatives txout_alternatives_tag])

lemma item_tx_out [wires]: "item ser_tx_out"
  unfolding ser_tx_out_def by (rule item_object) (auto simp: wires)

lemma item_transaction_prefix [wires]: "item ser_transaction_prefix"
  unfolding ser_transaction_prefix_def by (rule item_object) (auto simp: wires)

lemma strict_ecdhTuple [wires]: "strict_wire (ser_ecdhTuple ty)"
  unfolding ser_ecdhTuple_def by (auto simp: wires blob_typed intro!: strict_object)

lemma item_rctsig_base [wires]: "item (ser_rctsig_base inputs outputs)"
  unfolding ser_rctsig_base_def by (rule item_object) (auto simp: wires o_def)

lemma strict_rangeSig [wires]: "strict_wire ser_rangeSig"
  unfolding ser_rangeSig_def by (rule strict_object) (auto simp: wires)

lemma item_Bulletproof [wires]: "item ser_Bulletproof"
  unfolding ser_Bulletproof_def by (rule item_require, rule item_object) (auto simp: wires)

lemma item_BulletproofPlus [wires]: "item ser_BulletproofPlus"
  unfolding ser_BulletproofPlus_def by (rule item_require, rule item_object) (auto simp: wires)

lemma strict_clsag [wires]: "strict_item (ser_clsag n)"
  unfolding strict_item_def ser_clsag_def by (intro conjI strict_object item_object) (auto simp: wires)

lemma strict_mgSig [wires]: "strict_item (ser_mgSig n m)"
  unfolding strict_item_def ser_mgSig_def by (intro conjI strict_object item_object) (auto simp: wires)

lemma wire_range_proofs [wires]: "wire (ser_range_proofs ty outputs)"
  unfolding ser_range_proofs_def by (auto simp: wires intro!: wire_object)

lemma strict_ring_signatures [wires]: "strict_wire (ser_ring_signatures ty inputs ring)"
  unfolding ser_ring_signatures_def Let_def by (auto simp: wires intro!: strict_object)

lemma item_ring_signatures [wires]: "0 < inputs \<Longrightarrow> item (ser_ring_signatures ty inputs ring)"
  unfolding ser_ring_signatures_def Let_def by (auto simp: wires intro!: item_object)

lemma strict_rctsig_prunable [wires]: "0 < inputs \<Longrightarrow> strict_wire (ser_rctsig_prunable ty inputs outputs mixin)"
  unfolding ser_rctsig_prunable_def by (auto simp: wires intro!: strict_object)

lemma wire_rctsig_prunable [wires]: "wire (ser_rctsig_prunable ty inputs outputs mixin)"
  unfolding ser_rctsig_prunable_def by (auto simp: wires intro!: wire_object)

lemma item_rctsig_prunable [wires]: "0 < inputs \<Longrightarrow> ty \<noteq> RCTTypeNull \<Longrightarrow> item (ser_rctsig_prunable ty inputs outputs mixin)"
  unfolding ser_rctsig_prunable_def by (auto simp: wires intro!: item_object)

lemma item_rctSig [wires]: "item (ser_rctSig inputs outputs mixin)"
  unfolding ser_rctSig_def by (rule item_object) (auto simp: wires rctSigBase.defs rctSig.defs)

lemma put_signatures_each:
  "typed (each (map (\<lambda>i. elements (get_signature_size i) (blob 64)) is)) sigs \<Longrightarrow>
    put (each (map (\<lambda>i. elements (get_signature_size i) (blob 64)) is)) sigs = put_signatures is sigs"
proof (induction "is" sigs rule: put_signatures.induct)
  case (2 i "is" s sigs)
  then show ?case by (auto simp: each_def elements_typed put_blobs split: bind_splits)
qed (simp_all add: each_def)

lemma strict_signatures [wires]: "strict_wire (ser_signatures is)"
proof (rule strict_cong)
  let ?e = "each (map (\<lambda>i. elements (get_signature_size i) (blob 64)) is)"
  show "strict_wire ?e" by (rule strict_each) (simp add: list_all_iff wires)
  show "put (ser_signatures is) sigs = put ?e sigs" if "typed ?e sigs" for sigs
  proof -
    have "length is = length sigs" using that by (auto simp: each_def dest: list_all2_lengthD)
    then show ?thesis using put_signatures_each [OF that] by (auto simp: ser_signatures_def)
  qed
qed (simp_all add: ser_signatures_def)

lemma wire_tx_signatures [wires]: "wire (ser_tx_signatures pre)"
  by (simp add: ser_tx_signatures_def wires)

lemma item_transaction: "item ser_transaction"
  unfolding ser_transaction_def by (rule item_object) (auto simp: wires transaction_prefix.defs transaction.defs)

lemma item_transaction_base: "item ser_transaction_base"
  unfolding ser_transaction_base_def
  by (rule item_object) (auto simp: wires transaction_prefix.defs transaction.defs rctSigBase.defs rctSig.defs)

interpretation tx_prefix: item ser_transaction_prefix
  by (rule item_transaction_prefix)

interpretation tx_full: item ser_transaction
  by (rule item_transaction)

interpretation tx_base: item ser_transaction_base
  by (rule item_transaction_base)

interpretation tx_signatures: strict_wire "ser_signatures is"
  by (rule strict_signatures)

interpretation range_proofs: wire "ser_range_proofs ty outputs"
  by (rule wire_range_proofs)

interpretation clsags: strict_item "ser_clsag n"
  by (rule strict_clsag)

text \<open>Which transactions have one binary form.\<close>

lemma strict_at_prefix: "extra pre \<noteq> [] \<Longrightarrow> strict_at ser_transaction_prefix pre"
  unfolding ser_transaction_prefix_def
  by (rule strict_at_object) (auto simp: wires intro!: strict_at_seq strict_at_container)

lemma strict_at_base_null: "rct_type b = RCTTypeNull \<Longrightarrow> strict_at (ser_rctsig_base inputs outputs) b"
  unfolding ser_rctsig_base_def
  by (rule strict_at_object, simp add: wires, force simp: o_def, rule strict_at_seq) (auto simp: wires intro: strict_at_wire)

lemma strict_at_rct:
  assumes "0 < inputs"
  shows "strict_at (ser_rctSig inputs outputs mixin) r"
  unfolding ser_rctSig_def
proof (rule strict_at_object)
  let ?t = "\<lambda>b. if rct_type b \<noteq> RCTTypeNull then ser_rctsig_prunable (rct_type b) inputs outputs mixin else unsaved no_prunable"
  have t: "strict_wire (?t b)" for b using assms by (simp add: wires)
  then show "strict_at (seq (ser_rctsig_base inputs outputs) ?t) (rctSigBase.truncate r, rct_p r)"
    using assms strict_at_base_null by (intro strict_at_seq strict_at_wire) (auto simp: wires)
  show "wire (seq (ser_rctsig_base inputs outputs) ?t)" by (simp add: wires)
qed (auto simp: rctSigBase.defs rctSig.defs)

lemma strict_rctSig [wires]: "0 < inputs \<Longrightarrow> strict_wire (ser_rctSig inputs outputs mixin)"
  by (rule strict_wire_at) (simp_all add: wires strict_at_rct)

lemma strict_tx_signatures [wires]: "strict_wire (ser_tx_signatures pre)"
  by (simp add: ser_tx_signatures_def wires)

lemma strict_at_transaction:
  assumes "extra tx \<noteq> [] \<or> tx_version tx \<noteq> 1 \<and> vin tx \<noteq> []"
  shows "strict_at ser_transaction tx"
  unfolding ser_transaction_def
proof (rule strict_at_object)
  let ?pre = "transaction_prefix.truncate tx"
  have "strict_at ser_transaction_prefix ?pre \<or> item (ser_tx_signatures ?pre)"
    using assms strict_at_prefix [of ?pre] by (auto simp: wires transaction_prefix.defs ser_tx_signatures_def)
  then show "strict_at (seq ser_transaction_prefix ser_tx_signatures) (?pre, signatures tx, rct_signatures tx)"
    by (intro strict_at_seq strict_at_wire) (simp_all add: wires)
qed (auto simp: wires transaction_prefix.defs transaction.defs)

end
