(* ===== verification/Keccak.thy ===== *)
theory Keccak
  imports Prelude
begin

text \<open>
  The Keccak hash: \<open>src/crypto/keccak.c\<close>, and \<open>cn_fast_hash\<close> of \<open>src/crypto/hash.c\<close>. The permutation
  \<open>keccakf\<close> works in place on 25 words; \<open>keccak\<close> hashes a message in one call, \<open>keccak_init\<close>,
  \<open>keccak_update\<close> and \<open>keccak_finish\<close> hash it piece by piece.

  The lemmas show that the unrolled in-place round is the textbook round function, with rotation
  offsets and round constants generated as the standard generates them; that the incremental
  interface returns the hash of the concatenation of the pieces, however the message is cut; and
  which digest sizes the one-call function accepts.
\<close>

section \<open>Definitions\<close>

definition keccakf_rndc :: "u64 list" where
  "keccakf_rndc =
    [0x0000000000000001, 0x0000000000008082, 0x800000000000808a,
     0x8000000080008000, 0x000000000000808b, 0x0000000080000001,
     0x8000000080008081, 0x8000000000008009, 0x000000000000008a,
     0x0000000000000088, 0x0000000080008009, 0x000000008000000a,
     0x000000008000808b, 0x800000000000008b, 0x8000000000008089,
     0x8000000000008003, 0x8000000000008002, 0x8000000000000080,
     0x000000000000800a, 0x800000008000000a, 0x8000000080008081,
     0x8000000000008080, 0x0000000080000001, 0x8000000080008008]"

definition ROTL64 :: "u64 \<Rightarrow> nat \<Rightarrow> u64" where
  "ROTL64 x y = push_bit y x OR drop_bit (64 - y) x"

definition xor_at :: "nat \<Rightarrow> u64 \<Rightarrow> u64 list \<Rightarrow> u64 list" where
  "xor_at i t st = st[i := st ! i XOR t]"

definition theta_bc :: "u64 list \<Rightarrow> u64 list" where
  "theta_bc st =
    [st ! 0 XOR st ! 5 XOR st ! 10 XOR st ! 15 XOR st ! 20,
     st ! 1 XOR st ! 6 XOR st ! 11 XOR st ! 16 XOR st ! 21,
     st ! 2 XOR st ! 7 XOR st ! 12 XOR st ! 17 XOR st ! 22,
     st ! 3 XOR st ! 8 XOR st ! 13 XOR st ! 18 XOR st ! 23,
     st ! 4 XOR st ! 9 XOR st ! 14 XOR st ! 19 XOR st ! 24]"

definition THETA :: "u64 list \<Rightarrow> nat \<Rightarrow> u64 list \<Rightarrow> u64 list" where
  "THETA bc i st =
    (let t = bc ! ((i + 4) mod 5) XOR ROTL64 (bc ! ((i + 1) mod 5)) 1
     in xor_at (i + 20) t (xor_at (i + 15) t (xor_at (i + 10) t (xor_at (i + 5) t (xor_at i t st)))))"

text \<open>The moves of Rho and Pi in the order of the code: (to, from, rotation).\<close>

definition rho_pi_moves :: "(nat \<times> nat \<times> nat) list" where
  "rho_pi_moves =
    [(1, 6, 44), (6, 9, 20), (9, 22, 61), (22, 14, 39), (14, 20, 18), (20, 2, 62), (2, 12, 43),
     (12, 13, 25), (13, 19, 8), (19, 23, 56), (23, 15, 41), (15, 4, 27), (4, 24, 14), (24, 21, 2),
     (21, 8, 55), (8, 16, 45), (16, 5, 36), (5, 3, 28), (3, 18, 21), (18, 17, 15), (17, 11, 10),
     (11, 7, 6), (7, 10, 3)]"

definition rho_pi :: "u64 list \<Rightarrow> u64 list" where
  "rho_pi st =
    (let t = st ! 1;
         st = fold (\<lambda>(dst, src, r) st. st[dst := ROTL64 (st ! src) r]) rho_pi_moves st
     in st[10 := ROTL64 t 1])"

definition CHI :: "nat \<Rightarrow> u64 list \<Rightarrow> u64 list" where
  "CHI j st =
    (let st0 = st ! j; st1 = st ! (j + 1); st2 = st ! (j + 2); st3 = st ! (j + 3); st4 = st ! (j + 4)
     in xor_at (j + 4) (NOT st0 AND st1) (xor_at (j + 3) (NOT st4 AND st0)
          (xor_at (j + 2) (NOT st3 AND st4) (xor_at (j + 1) (NOT st2 AND st3)
            (xor_at j (NOT st1 AND st2) st)))))"

definition keccak_round :: "nat \<Rightarrow> u64 list \<Rightarrow> u64 list" where
  "keccak_round r st =
    (let bc = theta_bc st;
         st = fold (THETA bc) [0, 1, 2, 3, 4] st;
         st = rho_pi st;
         st = fold CHI [0, 5, 10, 15, 20] st
     in xor_at 0 (keccakf_rndc ! r) st)"

definition keccakf :: "u64 list \<Rightarrow> nat \<Rightarrow> u64 list" where
  "keccakf st rounds = fold keccak_round [0..<rounds] st"

definition KECCAK_ROUNDS :: nat where "KECCAK_ROUNDS = 24"
definition HASH_SIZE :: nat where "HASH_SIZE = 32"
definition HASH_DATA_AREA :: nat where "HASH_DATA_AREA = 136"

text \<open>
  Words of the state against bytes of the message: little endian on every host, by \<open>swap64le\<close> and
  \<open>memcpy_swap64le\<close>.
\<close>

definition load64le :: "bytes \<Rightarrow> u64" where
  "load64le bs = of_nat (le_nat bs)"

definition store64le :: "u64 \<Rightarrow> bytes" where
  "store64le w = map (\<lambda>i. ucast (drop_bit (8 * i) w)) [0..<8]"

definition xor_words :: "nat \<Rightarrow> bytes \<Rightarrow> u64 list \<Rightarrow> u64 list" where
  "xor_words n block st = fold (\<lambda>i. xor_at i (load64le (take 8 (drop (i * 8) block)))) [0..<n] st"

text \<open>
  The loop over whole blocks: the state and the bytes left over. With a block size of zero it never
  ends, which is the result \<open>None\<close>.
\<close>

partial_function (option) keccak_absorb :: "nat \<Rightarrow> u64 list \<Rightarrow> bytes \<Rightarrow> (u64 list \<times> bytes) option" where
  "keccak_absorb rsiz st inp =
    (if rsiz \<le> length inp
     then keccak_absorb rsiz (keccakf (xor_words (rsiz div 8) inp st) KECCAK_ROUNDS) (drop rsiz inp)
     else Some (st, inp))"

text \<open>How a call ends: with a digest, in \<open>local_abort\<close>, or never.\<close>

datatype keccak_result = Digest bytes | Abort | Diverge

definition keccak :: "bytes \<Rightarrow> int \<Rightarrow> keccak_result" where
  "keccak inp mdlen =
    (if mdlen \<le> 0 \<or> (mdlen > 100 \<and> mdlen \<noteq> 200) then Abort
     else
       let rsiz = (if mdlen = 200 then HASH_DATA_AREA else nat (200 - 2 * mdlen));
           rsizw = rsiz div 8
       in case keccak_absorb rsiz (replicate 25 0) inp of
            None \<Rightarrow> Diverge
          | Some (st, rest) \<Rightarrow>
              if length rest + 1 \<ge> 144 \<or> length rest > rsiz \<or> rsiz - length rest + length rest + 1 \<ge> 144
                \<or> rsiz = 0 \<or> rsiz - 1 \<ge> 144 \<or> rsizw * 8 > 144
              then Abort
              else
                let temp = rest @ [1] @ replicate (rsiz - (length rest + 1)) 0;
                    temp = temp[rsiz - 1 := temp ! (rsiz - 1) OR 0x80];
                    st = keccakf (xor_words rsizw temp st) KECCAK_ROUNDS
                in if mdlen mod 8 \<noteq> 0 then Abort
                   else Digest (concat (map store64le (take (nat (mdlen div 8)) st))))"

definition keccak1600 :: "bytes \<Rightarrow> keccak_result" where
  "keccak1600 inp = keccak inp 200"

text \<open>
  \<open>cn_fast_hash\<close> copies the first 32 bytes of the state; \<open>keccak1600\<close> always returns a digest.
\<close>

definition cn_fast_hash :: "bytes \<Rightarrow> bytes" where
  "cn_fast_hash data =
    (case keccak1600 data of Digest state \<Rightarrow> take HASH_SIZE state | Abort \<Rightarrow> [] | Diverge \<Rightarrow> [])"

definition KECCAK_FINALIZED :: u64 where "KECCAK_FINALIZED = 0x80000000"
definition KECCAK_BLOCKLEN :: nat where "KECCAK_BLOCKLEN = 136"
definition KECCAK_WORDS :: nat where "KECCAK_WORDS = 17"
definition KECCAK_DIGESTSIZE :: nat where "KECCAK_DIGESTSIZE = 32"

text \<open>The message buffer of the context is kept as its 136 bytes.\<close>

record keccak_ctx =
  kc_hash :: "u64 list"
  kc_message :: bytes
  kc_rest :: u64

definition process_block :: "u64 list \<Rightarrow> bytes \<Rightarrow> u64 list" where
  "process_block st block = keccakf (xor_words KECCAK_WORDS block st) KECCAK_ROUNDS"

definition keccak_init :: keccak_ctx where
  "keccak_init = \<lparr>kc_hash = replicate 25 0, kc_message = replicate KECCAK_BLOCKLEN 0, kc_rest = 0\<rparr>"

function update_blocks :: "keccak_ctx \<Rightarrow> bytes \<Rightarrow> keccak_ctx" where
  "update_blocks ctx inp =
    (if length inp \<ge> KECCAK_BLOCKLEN then
       let ctx = ctx\<lparr>kc_message := write_at 0 (take KECCAK_BLOCKLEN inp) (kc_message ctx)\<rparr>;
           ctx = ctx\<lparr>kc_hash := process_block (kc_hash ctx) (kc_message ctx)\<rparr>
       in update_blocks ctx (drop KECCAK_BLOCKLEN inp)
     else if inp \<noteq> [] then ctx\<lparr>kc_message := write_at 0 inp (kc_message ctx)\<rparr>
     else ctx)"
  by pat_completeness auto
termination
  by (relation "measure (\<lambda>(ctx, inp). length inp)") (auto simp: KECCAK_BLOCKLEN_def)

declare update_blocks.simps [simp del]

definition keccak_update :: "keccak_ctx \<Rightarrow> bytes \<Rightarrow> keccak_ctx option" where
  "keccak_update ctx inp =
    (if kc_rest ctx AND KECCAK_FINALIZED \<noteq> 0 then None
     else
       let idx = unat (kc_rest ctx);
           ctx = ctx\<lparr>kc_rest := (kc_rest ctx + of_nat (length inp)) mod of_nat KECCAK_BLOCKLEN\<rparr>
       in if idx \<noteq> 0 then
            let left = KECCAK_BLOCKLEN - idx;
                ctx = ctx\<lparr>kc_message := write_at idx (take left inp) (kc_message ctx)\<rparr>
            in if length inp < left then Some ctx
               else
                 let ctx = ctx\<lparr>kc_hash := process_block (kc_hash ctx) (kc_message ctx)\<rparr>
                 in Some (update_blocks ctx (drop left inp))
          else Some (update_blocks ctx inp))"

definition keccak_finish :: "keccak_ctx \<Rightarrow> keccak_ctx \<times> bytes" where
  "keccak_finish ctx =
    (let ctx =
       (if kc_rest ctx AND KECCAK_FINALIZED = 0 then
          let r = unat (kc_rest ctx);
              msg = write_at r (replicate (KECCAK_BLOCKLEN - r) 0) (kc_message ctx);
              msg = msg[r := msg ! r OR 0x01];
              msg = msg[KECCAK_BLOCKLEN - 1 := msg ! (KECCAK_BLOCKLEN - 1) OR 0x80]
          in ctx\<lparr>kc_message := msg, kc_hash := process_block (kc_hash ctx) msg, kc_rest := KECCAK_FINALIZED\<rparr>
        else ctx)
     in (ctx, concat (map store64le (take (KECCAK_DIGESTSIZE div 8) (kc_hash ctx)))))"

text \<open>Feeding a message in pieces, as the callers of \<open>keccak_update\<close> do.\<close>

fun keccak_updates :: "keccak_ctx \<Rightarrow> bytes list \<Rightarrow> keccak_ctx option" where
  "keccak_updates ctx [] = Some ctx"
| "keccak_updates ctx (p # ps) = (case keccak_update ctx p of None \<Rightarrow> None | Some ctx \<Rightarrow> keccak_updates ctx ps)"

text \<open>
  The textbook round on lanes \<open>(x, y)\<close>, kept at index \<open>x + 5 y\<close>: the rotation offsets follow the walk
  \<open>(x, y) \<mapsto> (y, 2 x + 3 y)\<close> from \<open>(1, 0)\<close> with the triangular numbers, the round constants the bits
  of a linear feedback shift register.
\<close>

fun rho_walk :: "nat \<Rightarrow> nat \<times> nat" where
  "rho_walk 0 = (1, 0)"
| "rho_walk (Suc t) = (let (x, y) = rho_walk t in (y, (2 * x + 3 * y) mod 5))"

definition rho_offsets :: "nat list" where
  "rho_offsets = fold (\<lambda>t os. let (x, y) = rho_walk t in os[x + 5 * y := (t + 1) * (t + 2) div 2 mod 64])
    [0..<24] (replicate 25 0)"

definition theta_ref :: "u64 list \<Rightarrow> u64 list" where
  "theta_ref a =
    (let c = (\<lambda>x. a ! x XOR a ! (x + 5) XOR a ! (x + 10) XOR a ! (x + 15) XOR a ! (x + 20))
     in map (\<lambda>i. a ! i XOR (c ((i mod 5 + 4) mod 5) XOR ROTL64 (c ((i mod 5 + 1) mod 5)) 1)) [0..<25])"

definition rho_pi_ref :: "u64 list \<Rightarrow> u64 list" where
  "rho_pi_ref a =
    map (\<lambda>i. let x = (i mod 5 + 3 * (i div 5)) mod 5; y = i mod 5
             in ROTL64 (a ! (x + 5 * y)) (rho_offsets ! (x + 5 * y))) [0..<25]"

definition chi_ref :: "u64 list \<Rightarrow> u64 list" where
  "chi_ref a =
    map (\<lambda>i. let x = i mod 5; y = i div 5
             in a ! i XOR (NOT (a ! ((x + 1) mod 5 + 5 * y)) AND a ! ((x + 2) mod 5 + 5 * y))) [0..<25]"

definition lfsr_next :: "nat \<Rightarrow> nat" where
  "lfsr_next r = (if r < 128 then 2 * r else (2 * r - 256) XOR 0x71)"

fun lfsr_bits :: "nat \<Rightarrow> nat \<Rightarrow> bool list" where
  "lfsr_bits 0 r = []"
| "lfsr_bits (Suc n) r = odd r # lfsr_bits n (lfsr_next r)"

definition round_constant :: "nat \<Rightarrow> nat" where
  "round_constant r =
    sum_list (map (\<lambda>j. if lfsr_bits 168 1 ! (j + 7 * r) then 2 ^ (2 ^ j - 1) else 0) [0..<7])"

definition round_ref :: "nat \<Rightarrow> u64 list \<Rightarrow> u64 list" where
  "round_ref r a = (let a = chi_ref (rho_pi_ref (theta_ref a)) in a[0 := a ! 0 XOR of_nat (round_constant r)])"

section \<open>The permutation\<close>

lemma list25:
  assumes "length st = 25"
  obtains a0 a1 a2 a3 a4 a5 a6 a7 a8 a9 a10 a11 a12 a13 a14 a15 a16 a17 a18 a19 a20 a21 a22 a23 a24
  where "st = [a0, a1, a2, a3, a4, a5, a6, a7, a8, a9, a10, a11, a12, a13, a14, a15, a16, a17, a18, a19,
    a20, a21, a22, a23, a24]"
  using assms by (auto simp: numeral_eq_Suc length_Suc_conv)

lemma upt_25: "[0..<25] = [0, 1, 2, 3, 4, 5, 6, 7, 8, 9, 10, 11, 12, 13, 14, 15, 16, 17, 18, 19, 20, 21, 22, 23, 24]"
  by (simp add: upt_rec)

lemma rho_offsets_eq: "rho_offsets = [0, 1, 62, 28, 27, 36, 44, 6, 55, 20, 3, 10, 43, 25, 39, 41, 45, 15, 21, 8, 18, 2, 61, 56, 14]"
  by code_simp

lemma theta_steps:
  assumes "length st = 25"
  shows "fold (THETA bc) [0, 1, 2, 3, 4] st
    = map (\<lambda>i. st ! i XOR (bc ! ((i mod 5 + 4) mod 5) XOR ROTL64 (bc ! ((i mod 5 + 1) mod 5)) 1)) [0..<25]"
  by (rule list25 [OF assms]) (simp add: THETA_def xor_at_def upt_25 list_update_numeral Let_def)

lemma theta_bc_nth:
  "x < 5 \<Longrightarrow> theta_bc st ! x = st ! x XOR st ! (x + 5) XOR st ! (x + 10) XOR st ! (x + 15) XOR st ! (x + 20)"
  by (auto simp: theta_bc_def less_Suc_eq numeral_eq_Suc)

lemma theta_eq_ref:
  assumes "length st = 25"
  shows "fold (THETA (theta_bc st)) [0, 1, 2, 3, 4] st = theta_ref st"
  unfolding theta_steps [OF assms] theta_ref_def Let_def by (simp add: theta_bc_nth)

lemma rho_pi_eq_ref:
  assumes "length st = 25"
  shows "rho_pi st = rho_pi_ref st"
  by (rule list25 [OF assms])
    (simp add: rho_pi_def rho_pi_moves_def rho_pi_ref_def rho_offsets_eq upt_25 list_update_numeral ROTL64_def)

lemma chi_eq_ref:
  assumes "length st = 25"
  shows "fold CHI [0, 5, 10, 15, 20] st = chi_ref st"
  by (rule list25 [OF assms]) (simp add: CHI_def xor_at_def chi_ref_def upt_25 list_update_numeral)

lemma length_refs [simp]: "length (theta_ref a) = 25" "length (rho_pi_ref a) = 25" "length (chi_ref a) = 25"
  by (simp_all add: theta_ref_def rho_pi_ref_def chi_ref_def)

lemma lfsr_bits_numeral:
  "lfsr_bits (numeral k) r = odd r # lfsr_bits (pred_numeral k) (lfsr_next r)"
  by (simp add: numeral_eq_Suc)

lemma round_constants: "list_all (\<lambda>r. unat (keccakf_rndc ! r) = round_constant r) [0..<24]"
  by (simp add: upt_rec keccakf_rndc_def round_constant_def lfsr_bits_numeral lfsr_next_def)

lemma keccak_round_eq:
  assumes "length st = 25"
  shows "keccak_round r st = xor_at 0 (keccakf_rndc ! r) (chi_ref (rho_pi_ref (theta_ref st)))"
  by (simp only: keccak_round_def Let_def theta_eq_ref [OF assms] rho_pi_eq_ref chi_eq_ref length_refs)

lemma keccak_round_eq_ref:
  assumes "length st = 25" and "r < 24"
  shows "keccak_round r st = round_ref r st"
proof -
  have c: "unat (keccakf_rndc ! r) = round_constant r" using round_constants assms(2) by (simp add: list_all_iff)
  have "of_nat (unat (keccakf_rndc ! r)) = keccakf_rndc ! r" by simp
  then have "keccakf_rndc ! r = of_nat (round_constant r)" unfolding c by (rule sym)
  then show ?thesis by (simp add: keccak_round_eq [OF assms(1)] round_ref_def xor_at_def Let_def)
qed

lemma length_xor_at [simp]: "length (xor_at i t st) = length st"
  by (simp add: xor_at_def)

lemma length_xor_words [simp]: "length (xor_words n block st) = length st"
  unfolding xor_words_def by (induction n) simp_all

lemma length_round: "length st = 25 \<Longrightarrow> length (keccak_round r st) = 25"
  by (simp add: keccak_round_eq)

lemma length_keccakf: "length st = 25 \<Longrightarrow> length (keccakf st n) = 25"
  unfolding keccakf_def by (induction n) (simp_all add: length_round)

section \<open>Absorbing a message\<close>

lemma xor_words_cong:
  assumes "take (8 * n) b = take (8 * n) b'"
  shows "xor_words n b st = xor_words n b' st"
  unfolding xor_words_def
proof (rule fold_cong)
  fix i assume "i \<in> set [0..<n]"
  then have i: "8 * i + 8 \<le> 8 * n" by simp
  have t: "take 8 (drop (i * 8) c) = drop (8 * i) (take (8 * i + 8) (take (8 * n) c))" for c :: bytes
    using i by (simp add: drop_take min_absorb1 mult.commute)
  show "xor_at i (load64le (take 8 (drop (i * 8) b))) = xor_at i (load64le (take 8 (drop (i * 8) b')))"
    unfolding t assms ..
qed simp_all

lemma absorb_short: "length inp < n \<Longrightarrow> keccak_absorb n st inp = Some (st, inp)"
  by (subst keccak_absorb.simps) simp

lemma absorb_block:
  "length b = 136 \<Longrightarrow> keccak_absorb 136 st (b @ inp) = keccak_absorb 136 (process_block st b) inp"
  by (subst keccak_absorb.simps)
    (simp add: process_block_def KECCAK_WORDS_def xor_words_cong [of 17 "b @ inp" b])

lemma absorb_total:
  assumes "0 < n"
  obtains st' r where "keccak_absorb n st inp = Some (st', r)" and "length r < n"
    and "length r = length inp mod n" and "length st = 25 \<Longrightarrow> length st' = 25"
proof -
  have "\<exists>st' r. keccak_absorb n st inp = Some (st', r) \<and> length r < n \<and> length r = length inp mod n
    \<and> (length st = 25 \<longrightarrow> length st' = 25)"
  proof (induction inp arbitrary: st rule: measure_induct_rule [where f = length])
    case (less inp)
    show ?case
    proof (cases "n \<le> length inp")
      case True
      let ?st = "keccakf (xor_words (n div 8) inp st) KECCAK_ROUNDS"
      have "keccak_absorb n st inp = keccak_absorb n ?st (drop n inp)"
        using True by (subst keccak_absorb.simps) simp
      moreover have "length (drop n inp) < length inp" using True assms by simp
      ultimately show ?thesis
        using less [of "drop n inp" ?st] True by (auto simp: length_keccakf le_mod_geq)
    next
      case False
      then show ?thesis by (simp add: absorb_short)
    qed
  qed
  then show thesis using that by blast
qed

text \<open>A block size of zero makes no progress, and the loop does not end.\<close>

lemma absorb_zero: "keccak_absorb 0 st inp = None"
proof -
  have "n \<noteq> 0" if "keccak_absorb n st inp = Some r" for n r
    by (rule keccak_absorb.raw_induct [where P = "\<lambda>n st inp r. n \<noteq> 0", OF _ that])
      (fastforce split: if_splits)
  then show ?thesis by (cases "keccak_absorb 0 st inp") auto
qed

lemma absorb_append:
  assumes "keccak_absorb 136 st m = Some (st', r)"
  shows "keccak_absorb 136 st (m @ inp) = keccak_absorb 136 st' (r @ inp)"
  using assms
proof (induction m arbitrary: st rule: measure_induct_rule [where f = length])
  case (less m)
  show ?case
  proof (cases "136 \<le> length m")
    case True
    let ?b = "take 136 m"
    have m: "m = ?b @ drop 136 m" "length ?b = 136" using True by simp_all
    have "keccak_absorb 136 (process_block st ?b) (drop 136 m) = Some (st', r)"
      using less.prems absorb_block [OF m(2), of st "drop 136 m"] by simp
    then have "keccak_absorb 136 (process_block st ?b) (drop 136 m @ inp) = keccak_absorb 136 st' (r @ inp)"
      using True by (intro less.IH) simp_all
    then show ?thesis using absorb_block [OF m(2), of st "drop 136 m @ inp"] m(1) by (metis append.assoc)
  next
    case False
    then show ?thesis using less.prems by (simp add: absorb_short)
  qed
qed

section \<open>The incremental interface\<close>

text \<open>
  The context stands for the message fed so far: its hash is the state after the whole blocks of the
  message, and the first \<open>rest\<close> bytes of the buffer are what is left.
\<close>

definition ctx_repr :: "keccak_ctx \<Rightarrow> bytes \<Rightarrow> bool" where
  "ctx_repr ctx m \<longleftrightarrow> length (kc_message ctx) = 136 \<and> unat (kc_rest ctx) = length m mod 136
    \<and> keccak_absorb 136 (replicate 25 0) m = Some (kc_hash ctx, take (unat (kc_rest ctx)) (kc_message ctx))"

lemma init_repr: "ctx_repr keccak_init []"
  by (simp add: ctx_repr_def keccak_init_def absorb_short KECCAK_BLOCKLEN_def)

lemma not_finalized: "unat r < 136 \<Longrightarrow> r AND KECCAK_FINALIZED = 0"
proof -
  assume "unat r < 136"
  then have "unat r div 2 ^ 31 = 0" by simp
  then have "\<not> bit r 31"
    using bit_unsigned_iff [where 'a = nat, of r 31] by (simp add: bit_iff_odd)
  then have "r AND 2 ^ 31 = 0" by (simp only: and_exp_eq_0_iff_not_bit not_False_eq_True)
  then show ?thesis by (simp add: KECCAK_FINALIZED_def)
qed

lemma rest_update:
  assumes "unat r < 136" and "n < 2 ^ 63"
  shows "unat ((r + of_nat n :: u64) mod 136) = (unat r + n) mod 136"
proof -
  have n: "unat (of_nat n :: u64) = n" using assms(2) by (simp add: unat_of_nat)
  then have "unat (r + of_nat n) = unat r + n" using assms by (subst unat_add_no_overflow) simp_all
  then show ?thesis by (simp add: unat_mod_distrib)
qed

lemma update_blocks_correct:
  assumes "keccak_absorb 136 (kc_hash ctx) inp = Some (h, r)" and "length (kc_message ctx) = 136"
  shows "kc_hash (update_blocks ctx inp) = h" and "take (length r) (kc_message (update_blocks ctx inp)) = r"
    and "length (kc_message (update_blocks ctx inp)) = 136" and "kc_rest (update_blocks ctx inp) = kc_rest ctx"
proof -
  have "kc_hash (update_blocks ctx inp) = h \<and> take (length r) (kc_message (update_blocks ctx inp)) = r
    \<and> length (kc_message (update_blocks ctx inp)) = 136 \<and> kc_rest (update_blocks ctx inp) = kc_rest ctx"
    using assms
  proof (induction ctx inp rule: update_blocks.induct)
    case (1 ctx inp)
    show ?case
    proof (cases "136 \<le> length inp")
      case True
      let ?b = "take 136 inp"
      have b: "length ?b = 136" "inp = ?b @ drop 136 inp" using True by simp_all
      have msg: "write_at 0 ?b (kc_message ctx) = ?b" using True 1(3) by (simp add: write_at_def)
      have "keccak_absorb 136 (process_block (kc_hash ctx) ?b) (drop 136 inp) = Some (h, r)"
        using 1(2) absorb_block [OF b(1), of "kc_hash ctx" "drop 136 inp"] by simp
      with 1(1) True msg show ?thesis
        by (subst (1 2 3 4) update_blocks.simps) (simp add: KECCAK_BLOCKLEN_def Let_def b(1))
    next
      case False
      then have "h = kc_hash ctx" "r = inp" using 1(2) by (simp_all add: absorb_short)
      then show ?thesis using False 1(3)
        by (subst (1 2 3 4) update_blocks.simps) (simp add: KECCAK_BLOCKLEN_def write_at_def)
    qed
  qed
  then show "kc_hash (update_blocks ctx inp) = h" "take (length r) (kc_message (update_blocks ctx inp)) = r"
    "length (kc_message (update_blocks ctx inp)) = 136" "kc_rest (update_blocks ctx inp) = kc_rest ctx"
    by simp_all
qed

lemma reprD:
  assumes "ctx_repr ctx m"
  shows "length (kc_message ctx) = 136" and "unat (kc_rest ctx) = length m mod 136" and "unat (kc_rest ctx) < 136"
    and "kc_rest ctx AND KECCAK_FINALIZED = 0"
    and "keccak_absorb 136 (replicate 25 0) m = Some (kc_hash ctx, take (unat (kc_rest ctx)) (kc_message ctx))"
  using assms not_finalized [of "kc_rest ctx"] by (simp_all add: ctx_repr_def)

lemma repr_after:
  assumes "ctx_repr ctx m" and "length inp < 2 ^ 63"
    and "length (kc_message ctx') = 136" and rest': "kc_rest ctx' = (kc_rest ctx + of_nat (length inp)) mod 136"
    and abs: "keccak_absorb 136 (kc_hash ctx) (take (unat (kc_rest ctx)) (kc_message ctx) @ inp) = Some (kc_hash ctx', r)"
    and r: "take (length r) (kc_message ctx') = r"
  shows "ctx_repr ctx' (m @ inp)"
proof -
  note c = reprD [OF assms(1)]
  have rest: "unat (kc_rest ctx') = length (m @ inp) mod 136"
    unfolding rest' rest_update [OF c(3) assms(2)] c(2) by (simp add: mod_add_left_eq)
  have "length r = length (take (unat (kc_rest ctx)) (kc_message ctx) @ inp) mod 136"
    by (rule absorb_total [of 136 "kc_hash ctx" "take (unat (kc_rest ctx)) (kc_message ctx) @ inp"]) (use abs in simp_all)
  also have "\<dots> = unat (kc_rest ctx')" unfolding rest using c by (simp add: mod_add_left_eq)
  finally show ?thesis
    using assms(3) rest r absorb_append [OF c(5), of inp] abs by (simp add: ctx_repr_def)
qed

lemma update_repr:
  assumes "ctx_repr ctx m" and "length inp < 2 ^ 63"
  shows "\<exists>ctx'. keccak_update ctx inp = Some ctx' \<and> ctx_repr ctx' (m @ inp)"
proof -
  let ?idx = "unat (kc_rest ctx)" and ?h = "kc_hash ctx" and ?msg = "kc_message ctx"
  let ?rest = "(kc_rest ctx + of_nat (length inp)) mod 136"
  note c = reprD [OF assms(1)]
  show ?thesis
  proof (cases "?idx = 0")
    case True
    obtain h r where a: "keccak_absorb 136 ?h inp = Some (h, r)" by (rule absorb_total [of 136 ?h inp]) simp_all
    let ?c = "ctx\<lparr>kc_rest := ?rest\<rparr>"
    have u: "keccak_update ctx inp = Some (update_blocks ?c inp)"
      using c(4) True by (simp add: keccak_update_def Let_def KECCAK_BLOCKLEN_def)
    note b = update_blocks_correct [of ?c inp h r, simplified, OF a c(1)]
    have "ctx_repr (update_blocks ?c inp) (m @ inp)"
      using True a b by (intro repr_after [OF assms, of _ r]) simp_all
    with u show ?thesis by blast
  next
    case False
    let ?left = "136 - ?idx"
    let ?new = "write_at ?idx (take ?left inp) ?msg"
    let ?c = "ctx\<lparr>kc_rest := ?rest, kc_message := ?new\<rparr>"
    have len: "length ?new = 136" using c(1,3) by (simp add: write_at_def min_def)
    show ?thesis
    proof (cases "length inp < ?left")
      case True
      have "keccak_update ctx inp = Some ?c"
        using c(4) False True by (simp add: keccak_update_def Let_def KECCAK_BLOCKLEN_def)
      moreover have "ctx_repr ?c (m @ inp)"
        using True len c(1,3)
        by (intro repr_after [OF assms, of _ "take ?idx ?msg @ inp"]) (simp_all add: absorb_short write_at_def)
      ultimately show ?thesis by blast
    next
      case large: False
      let ?d = "?c\<lparr>kc_hash := process_block ?h ?new\<rparr>"
      have new: "?new = take ?idx ?msg @ take ?left inp"
        using large c(1,3) by (simp add: write_at_def)
      obtain h r where a: "keccak_absorb 136 (process_block ?h ?new) (drop ?left inp) = Some (h, r)"
        by (rule absorb_total [of 136 "process_block ?h ?new" "drop ?left inp"]) simp_all
      have u: "keccak_update ctx inp = Some (update_blocks ?d (drop ?left inp))"
        using c(4) False large by (simp add: keccak_update_def Let_def KECCAK_BLOCKLEN_def)
      note b = update_blocks_correct [of ?d "drop ?left inp" h r, simplified, OF a len]
      have "keccak_absorb 136 ?h (take ?idx ?msg @ inp) = Some (h, r)"
        using absorb_block [OF len, of ?h "drop ?left inp"] a unfolding new by simp
      then have "ctx_repr (update_blocks ?d (drop ?left inp)) (m @ inp)"
        using b by (intro repr_after [OF assms, of _ r]) simp_all
      with u show ?thesis by blast
    qed
  qed
qed

lemma updates_repr:
  assumes "ctx_repr ctx m" and "\<forall>p\<in>set ps. length p < 2 ^ 63"
  shows "\<exists>ctx'. keccak_updates ctx ps = Some ctx' \<and> ctx_repr ctx' (m @ concat ps)"
  using assms
proof (induction ps arbitrary: ctx m)
  case (Cons p ps)
  then obtain ctx' where u: "keccak_update ctx p = Some ctx'" "ctx_repr ctx' (m @ p)"
    using update_repr [of ctx m p] by auto
  with Cons.IH [OF u(2)] Cons.prems(2) show ?case by simp
qed simp

definition padded :: "bytes \<Rightarrow> bytes" where
  "padded r = (let b = r @ [1] @ replicate (136 - (length r + 1)) 0 in b[135 := b ! 135 OR 0x80])"

lemma length_padded: "length r < 136 \<Longrightarrow> length (padded r) = 136"
  by (simp add: padded_def Let_def)

lemma keccak_small_digest:
  assumes "keccak_absorb 136 (replicate 25 0) m = Some (h, r)" and "length r < 136"
  shows "keccak m 32 = Digest (concat (map store64le (take 4 (process_block h (padded r)))))"
    and "keccak m 200 = Digest (concat (map store64le (take 25 (process_block h (padded r)))))"
  using assms
  by (simp_all add: keccak_def HASH_DATA_AREA_def Let_def process_block_def KECCAK_WORDS_def padded_def)

lemma finish_repr:
  assumes "ctx_repr ctx m"
  shows "keccak m 32 = Digest (snd (keccak_finish ctx))"
proof -
  note c = reprD [OF assms]
  let ?r = "take (unat (kc_rest ctx)) (kc_message ctx)"
  have r: "length ?r = unat (kc_rest ctx)" using c by simp
  let ?z = "?r @ replicate (136 - unat (kc_rest ctx)) (0 :: u8)"
  have w: "write_at (unat (kc_rest ctx)) (replicate (136 - unat (kc_rest ctx)) 0) (kc_message ctx) = ?z"
    using c by (simp add: write_at_def)
  have "replicate (136 - unat (kc_rest ctx)) (0 :: u8) = 0 # replicate (136 - (length ?r + 1)) 0"
    using c(3) unfolding r by (simp flip: replicate_Suc)
  then have "?z[unat (kc_rest ctx) := ?z ! unat (kc_rest ctx) OR 1] = ?r @ [1] @ replicate (136 - (length ?r + 1)) 0"
    using r by (simp add: list_update_append nth_append)
  then have "snd (keccak_finish ctx) = concat (map store64le (take 4 (process_block (kc_hash ctx) (padded ?r))))"
    using c(4) w by (simp add: keccak_finish_def Let_def KECCAK_BLOCKLEN_def KECCAK_DIGESTSIZE_def padded_def)
  then show ?thesis using keccak_small_digest(1) [OF c(5)] r c(3) by simp
qed

lemma length_store64le [simp]: "length (store64le w) = 8"
  by (simp add: store64le_def)

lemma length_store_words: "length (concat (map store64le ws)) = 8 * length ws"
  by (induction ws) simp_all

lemma finalized: "KECCAK_FINALIZED AND KECCAK_FINALIZED \<noteq> 0"
  by (simp add: KECCAK_FINALIZED_def)

lemma finish_closed:
  assumes "keccak_finish ctx = (ctx', md)"
  shows "keccak_finish ctx' = (ctx', md)" and "keccak_update ctx' inp = None"
  using assms finalized by (auto simp: keccak_finish_def keccak_update_def Let_def split: if_splits)

lemma length_process_block: "length st = 25 \<Longrightarrow> length (process_block st b) = 25"
  by (simp add: process_block_def length_keccakf)

lemma cn_fast_hash_digest: "keccak m 32 = Digest (cn_fast_hash m)" and length_cn_fast_hash: "length (cn_fast_hash m) = 32"
proof -
  obtain h r where a: "keccak_absorb 136 (replicate 25 0) m = Some (h, r)" "length r < 136" "length h = 25"
    by (rule absorb_total [of 136 "replicate 25 0" m]) simp_all
  let ?st = "process_block h (padded r)"
  have len: "length ?st = 25" using a(3) by (rule length_process_block)
  obtain ws vs where st: "?st = ws @ vs" "length ws = 4" "length vs = 21"
    by (rule that [of "take 4 ?st" "drop 4 ?st"]) (simp_all add: len)
  have "take 32 (concat (map store64le (take 25 ?st))) = concat (map store64le (take 4 ?st))"
    using st length_store_words [of ws] by simp
  then have c: "cn_fast_hash m = concat (map store64le (take 4 ?st))"
    using keccak_small_digest(2) [OF a(1,2)] by (simp add: cn_fast_hash_def keccak1600_def HASH_SIZE_def)
  show "keccak m 32 = Digest (cn_fast_hash m)" using keccak_small_digest(1) [OF a(1,2)] c by simp
  show "length (cn_fast_hash m) = 32" using c st length_store_words [of ws] by simp
qed

section \<open>Digest sizes\<close>

lemma keccak_digest:
  assumes "32 \<le> mdlen" and "mdlen < 100" and "mdlen mod 8 = 0"
  shows "\<exists>d. keccak m mdlen = Digest d \<and> int (length d) = mdlen"
proof -
  let ?n = "nat (200 - 2 * mdlen)"
  have n: "0 < ?n" "?n \<le> 136" using assms by auto
  obtain h r where a: "keccak_absorb ?n (replicate 25 0) m = Some (h, r)" "length r < ?n" and h: "length h = 25"
    by (rule absorb_total [OF n(1), of "replicate 25 0" m]) simp_all
  let ?t = "r @ [1] @ replicate (?n - (length r + 1)) 0"
  let ?st = "keccakf (xor_words (?n div 8) (?t[?n - 1 := ?t ! (?n - 1) OR 0x80]) h) KECCAK_ROUNDS"
  have "?n div 8 * 8 \<le> 136" using n(2) div_times_less_eq_dividend [of ?n 8] by linarith
  then have "keccak m mdlen = Digest (concat (map store64le (take (nat (mdlen div 8)) ?st)))"
    using a assms n by (simp add: keccak_def Let_def)
  moreover have "length ?st = 25" using h by (simp add: length_keccakf)
  moreover have "nat (mdlen div 8) \<le> 25" "int (8 * nat (mdlen div 8)) = mdlen" using assms by auto
  ultimately show ?thesis by (simp add: length_store_words)
qed

lemma keccak_digest_200: "\<exists>d. keccak m 200 = Digest d \<and> int (length d) = 200"
proof -
  obtain h r where a: "keccak_absorb 136 (replicate 25 0) m = Some (h, r)" "length r < 136" "length h = 25"
    by (rule absorb_total [of 136 "replicate 25 0" m]) simp_all
  then show ?thesis
    using keccak_small_digest(2) [OF a(1,2)] by (simp add: length_store_words length_process_block)
qed

lemma keccak_abort:
  assumes "mdlen \<noteq> 100" and "\<not> ((mdlen = 200 \<or> 32 \<le> mdlen \<and> mdlen < 100) \<and> mdlen mod 8 = 0)"
  shows "keccak m mdlen = Abort"
proof (cases "mdlen \<le> 0 \<or> (mdlen > 100 \<and> mdlen \<noteq> 200)")
  case True
  then show ?thesis by (simp add: keccak_def)
next
  case False
  then have m: "0 < mdlen" "mdlen < 100" using assms by auto
  let ?n = "nat (200 - 2 * mdlen)"
  have "0 < ?n" using m by simp
  then obtain h r where a: "keccak_absorb ?n (replicate 25 0) m = Some (h, r)" "length r < ?n"
    by (rule absorb_total)
  show ?thesis
  proof (cases "mdlen mod 8 = 0")
    case True
    then have "mdlen < 32" using assms(2) m by auto
    then have "mdlen \<le> 24" using True by presburger
    then have "143 \<le> ?n" using m by simp
    then show ?thesis using a m by (simp add: keccak_def Let_def)
  next
    case False
    then show ?thesis using a m by (simp add: keccak_def Let_def)
  qed
qed

section \<open>Properties\<close>

text \<open>
  C30. The unrolled, in-place Keccak round is the textbook round on 25 lanes, for each of the 24
  rounds: same diffusion, the 24 moves and rotations of the code are the lane permutation and the
  offsets of the walk over the lanes, and the constants table is the output of the shift register.
\<close>

theorem keccakf_is_textbook:
  assumes "length st = 25" and "n \<le> 24"
  shows "keccakf st n = fold round_ref [0..<n] st"
  using assms(2)
proof (induction n)
  case (Suc n)
  have "length (keccakf st n) = 25" using assms(1) by (rule length_keccakf)
  with Suc show ?case by (simp add: keccakf_def keccak_round_eq_ref)
qed (simp add: keccakf_def)

theorem keccakf_is_textbook_witness: "keccakf (replicate 25 0) 24 = fold round_ref [0..<24] (replicate 25 0)"
  by (rule keccakf_is_textbook) simp_all

text \<open>
  C29. The incremental interface hashes the concatenation: however a message is cut into pieces,
  initialising a context, feeding the pieces and finishing returns the digest that one call of
  \<open>keccak\<close> computes on the whole message, which is also \<open>cn_fast_hash\<close>. Finishing again returns the
  same digest, and a finished context refuses further input.
\<close>

theorem keccak_incremental:
  assumes "\<forall>p\<in>set ps. length p < 2 ^ 63"
  shows "\<exists>ctx ctx'. keccak_updates keccak_init ps = Some ctx
    \<and> keccak_finish ctx = (ctx', cn_fast_hash (concat ps))
    \<and> keccak (concat ps) 32 = Digest (cn_fast_hash (concat ps))
    \<and> keccak_finish ctx' = (ctx', cn_fast_hash (concat ps)) \<and> keccak_update ctx' inp = None"
proof -
  obtain ctx where c: "keccak_updates keccak_init ps = Some ctx" "ctx_repr ctx (concat ps)"
    using updates_repr [OF init_repr assms] by auto
  obtain ctx' md where f: "keccak_finish ctx = (ctx', md)" by fastforce
  have "md = cn_fast_hash (concat ps)" using finish_repr [OF c(2)] f cn_fast_hash_digest [of "concat ps"] by simp
  with c f finish_closed [OF f] cn_fast_hash_digest show ?thesis by blast
qed

theorem keccak_incremental_witness:
  "\<exists>ctx ctx'. keccak_updates keccak_init [[1, 2], [], [3]] = Some ctx \<and> keccak_finish ctx = (ctx', cn_fast_hash [1, 2, 3])"
  using keccak_incremental [of "[[1, 2], [], [3]]" "[]"] by auto

text \<open>
  C40. How a call of \<open>keccak\<close> ends, for every message and every requested size: it returns a digest of
  exactly that size for the multiples of 8 from 32 to 96 and for 200, it never returns for 100 (the
  block size is then zero and the loop over blocks makes no progress), and it aborts for the others.
\<close>

theorem keccak_outcome:
  "if mdlen = 100 then keccak m mdlen = Diverge
   else if mdlen mod 8 = 0 \<and> (mdlen = 200 \<or> 32 \<le> mdlen \<and> mdlen < 100)
   then \<exists>d. keccak m mdlen = Digest d \<and> int (length d) = mdlen
   else keccak m mdlen = Abort"
  using keccak_digest [of mdlen m] keccak_digest_200 [of m] keccak_abort [of mdlen m] by (auto simp: keccak_def absorb_zero)

end
