(* ===== verification/Tree_Hash.thy ===== *)
theory Tree_Hash
  imports Keccak
begin

text \<open>
  The hash tree over the transactions of a block: \<open>src/crypto/tree-hash.c\<close>. The buffer \<open>ints\<close> that the
  code overwrites level by level is a list of hashes that is updated in place; \<open>None\<close> is a failed
  assertion (or, for \<open>tree_branch\<close> and \<open>tree_path\<close>, the result false).

  The lemmas show that the in-place reduction computes the root of the balanced tree, that two lists
  of the same length with the same root give a collision of the hash, and that the branch of a leaf
  leads to the root.
\<close>

unbundle bit_operations_syntax

section \<open>Definitions\<close>

text \<open>A hash of two adjacent entries of a buffer (64 bytes from the first on).\<close>

definition hash2 :: "bytes \<Rightarrow> bytes \<Rightarrow> bytes" where
  "hash2 a b = cn_fast_hash (a @ b)"

text \<open>The doubling loop: \<open>None\<close> if it runs forever.\<close>

partial_function (option) pow_loop :: "u64 \<Rightarrow> u64 \<Rightarrow> u64 option" where
  "pow_loop pow num = (if pow < num then pow_loop (push_bit 1 pow) num else Some pow)"

declare pow_loop.simps [code]

definition tree_hash_cnt :: "u64 \<Rightarrow> u64 option" where
  "tree_hash_cnt num =
    (if num \<ge> 3 \<and> num \<le> 0x10000000
     then case pow_loop 2 num of None \<Rightarrow> None | Some pow \<Rightarrow> Some (drop_bit 1 pow)
     else None)"

text \<open>The loop over the bottom level, from the indices \<open>i\<close> and \<open>j\<close> on.\<close>

function leaf_loop :: "bytes list \<Rightarrow> nat \<Rightarrow> nat \<Rightarrow> nat \<Rightarrow> bytes list \<Rightarrow> bytes list" where
  "leaf_loop hashes cnt i j ints =
    (if j < cnt then leaf_loop hashes cnt (i + 2) (j + 1) (ints[j := hash2 (hashes ! i) (hashes ! (i + 1))]) else ints)"
  by pat_completeness auto
termination
  by (relation "measure (\<lambda>(hashes, cnt, i, j, ints). cnt - j)") auto

text \<open>The loop over an inner level, which reads and writes the same buffer.\<close>

function level_loop :: "nat \<Rightarrow> nat \<Rightarrow> nat \<Rightarrow> bytes list \<Rightarrow> bytes list" where
  "level_loop cnt i j ints =
    (if j < cnt then level_loop cnt (i + 2) (j + 1) (ints[j := hash2 (ints ! i) (ints ! (i + 1))]) else ints)"
  by pat_completeness auto
termination
  by (relation "measure (\<lambda>(cnt, i, j, ints). cnt - j)") auto

function reduce_loop :: "nat \<Rightarrow> bytes list \<Rightarrow> bytes list" where
  "reduce_loop cnt ints = (if cnt > 2 then let cnt = cnt div 2 in reduce_loop cnt (level_loop cnt 0 0 ints) else ints)"
  by pat_completeness auto
termination
  by (relation "measure fst") auto

declare leaf_loop.simps [simp del] level_loop.simps [simp del] reduce_loop.simps [simp del]

definition null_hash :: bytes where "null_hash = replicate HASH_SIZE 0"

definition tree_hash :: "bytes list \<Rightarrow> bytes option" where
  "tree_hash hashes =
    (let count = length hashes
     in if count = 0 then None
        else if count = 1 then Some (hashes ! 0)
        else if count = 2 then Some (hash2 (hashes ! 0) (hashes ! 1))
        else
          case tree_hash_cnt (of_nat count) of
            None \<Rightarrow> None
          | Some c \<Rightarrow>
              let cnt = unat c;
                  ints = take (2 * cnt - count) hashes @ replicate (cnt - (2 * cnt - count)) null_hash;
                  ints = leaf_loop hashes cnt (2 * cnt - count) (2 * cnt - count) ints;
                  ints = reduce_loop cnt ints
              in Some (hash2 (ints ! 0) (ints ! 1)))"

text \<open>
  The path of a leaf. The loops of \<open>tree_path\<close> and \<open>tree_branch\<close> share their bookkeeping: when the
  followed index is one of the pair \<open>i\<close>, \<open>i + 1\<close>, note its side and go on with the index \<open>j\<close>.
\<close>

definition path_step :: "nat \<Rightarrow> nat \<Rightarrow> u32 \<times> nat \<Rightarrow> u32 \<times> nat" where
  "path_step i j = (\<lambda>(path, idx).
    if idx = i \<or> idx = i + 1 then (push_bit 1 path OR (if idx = i then 0 else 1), j) else (path, idx))"

function path_loop :: "nat \<Rightarrow> nat \<Rightarrow> nat \<Rightarrow> u32 \<times> nat \<Rightarrow> u32 \<times> nat" where
  "path_loop cnt i j s = (if j < cnt then path_loop cnt (i + 2) (j + 1) (path_step i j s) else s)"
  by pat_completeness auto
termination
  by (relation "measure (\<lambda>(cnt, i, j, s). cnt - j)") auto

function path_reduce :: "nat \<Rightarrow> u32 \<times> nat \<Rightarrow> u32 \<times> nat" where
  "path_reduce cnt s = (if cnt > 2 then let cnt = cnt div 2 in path_reduce cnt (path_loop cnt 0 0 s) else s)"
  by pat_completeness auto
termination
  by (relation "measure fst") auto

declare path_loop.simps [simp del] path_reduce.simps [simp del]

definition tree_path :: "nat \<Rightarrow> nat \<Rightarrow> u32 option" where
  "tree_path num idx =
    (if num = 0 then None
     else if num = 1 then Some 0
     else if num = 2 then Some (if idx = 0 then 0 else 1)
     else
       case tree_hash_cnt (of_nat num) of
         None \<Rightarrow> None
       | Some c \<Rightarrow>
           let cnt = unat c;
               s = path_loop cnt (2 * cnt - num) (2 * cnt - num) (0, idx);
               s = path_reduce cnt s
           in Some (fst (path_step 0 0 s)))"

text \<open>
  The branch of a leaf: the state is the buffer, the siblings so far (\<open>depth\<close> is their number), the
  path and the followed index.
\<close>

type_synonym branch_state = "bytes list \<times> bytes list \<times> u32 \<times> nat"

definition branch_step :: "nat \<Rightarrow> nat \<Rightarrow> bytes \<Rightarrow> bytes \<Rightarrow> bytes list \<times> u32 \<times> nat \<Rightarrow> bytes list \<times> u32 \<times> nat" where
  "branch_step i j a b = (\<lambda>(branch, path, idx).
    if idx = i \<or> idx = i + 1
    then (branch @ [if idx = i then b else a], push_bit 1 path OR (if idx = i then 0 else 1), j)
    else (branch, path, idx))"

function branch_leaf_loop :: "bytes list \<Rightarrow> nat \<Rightarrow> nat \<Rightarrow> nat \<Rightarrow> branch_state \<Rightarrow> branch_state" where
  "branch_leaf_loop hashes cnt i j s =
    (if j < cnt then
       let (ints, b) = s;
           b = branch_step i j (hashes ! i) (hashes ! (i + 1)) b;
           ints = ints[j := hash2 (hashes ! i) (hashes ! (i + 1))]
       in branch_leaf_loop hashes cnt (i + 2) (j + 1) (ints, b)
     else s)"
  by pat_completeness auto
termination
  by (relation "measure (\<lambda>(hashes, cnt, i, j, s). cnt - j)") auto

function branch_level_loop :: "nat \<Rightarrow> nat \<Rightarrow> nat \<Rightarrow> branch_state \<Rightarrow> branch_state" where
  "branch_level_loop cnt i j s =
    (if j < cnt then
       let (ints, b) = s;
           b = branch_step i j (ints ! i) (ints ! (i + 1)) b;
           ints = ints[j := hash2 (ints ! i) (ints ! (i + 1))]
       in branch_level_loop cnt (i + 2) (j + 1) (ints, b)
     else s)"
  by pat_completeness auto
termination
  by (relation "measure (\<lambda>(cnt, i, j, s). cnt - j)") auto

function branch_reduce :: "nat \<Rightarrow> branch_state \<Rightarrow> branch_state" where
  "branch_reduce cnt s = (if cnt > 2 then let cnt = cnt div 2 in branch_reduce cnt (branch_level_loop cnt 0 0 s) else s)"
  by pat_completeness auto
termination
  by (relation "measure fst") auto

declare branch_leaf_loop.simps [simp del] branch_level_loop.simps [simp del] branch_reduce.simps [simp del]

text \<open>The search for the leaf: the first index with that hash, or the number of leaves.\<close>

fun find_index :: "bytes \<Rightarrow> bytes list \<Rightarrow> nat" where
  "find_index h [] = 0"
| "find_index h (x # xs) = (if h = x then 0 else Suc (find_index h xs))"

definition tree_branch :: "bytes list \<Rightarrow> bytes \<Rightarrow> (bytes list \<times> u32) option" where
  "tree_branch hashes hash =
    (let count = length hashes; idx = find_index hash hashes
     in if count = 0 then None
        else if idx = count then None
        else if count = 1 then Some ([], 0)
        else if count = 2 then Some ([hashes ! (idx XOR 1)], if idx = 0 then 0 else 1)
        else
          case tree_hash_cnt (of_nat count) of
            None \<Rightarrow> None
          | Some c \<Rightarrow>
              let cnt = unat c;
                  ints = take (2 * cnt - count) hashes @ replicate (cnt - (2 * cnt - count)) null_hash;
                  s = branch_leaf_loop hashes cnt (2 * cnt - count) (2 * cnt - count) (ints, [], 0, idx);
                  (ints, b) = branch_reduce cnt s;
                  (branch, path, idx) = branch_step 0 0 (ints ! 0) (ints ! 1) b
              in Some (branch, path))"

text \<open>The hash at the end of a branch; \<open>d\<close> is the number of siblings already used.\<close>

fun branch_hash_loop :: "nat \<Rightarrow> u32 \<Rightarrow> nat \<Rightarrow> bytes list \<Rightarrow> bytes \<Rightarrow> bytes" where
  "branch_hash_loop depth path d [] partial = partial"
| "branch_hash_loop depth path d (s # branch) partial =
    branch_hash_loop depth path (d + 1) branch
      (if drop_bit (depth - d - 1) path AND 1 \<noteq> 0 then hash2 s partial else hash2 partial s)"

definition tree_branch_hash :: "bytes \<Rightarrow> bytes list \<Rightarrow> u32 \<Rightarrow> bytes" where
  "tree_branch_hash hash branch path = branch_hash_loop (length branch) path 0 branch hash"

definition is_branch_in_tree :: "bytes \<Rightarrow> bytes \<Rightarrow> bytes list \<Rightarrow> u32 \<Rightarrow> bool" where
  "is_branch_in_tree hash root branch path \<longleftrightarrow> tree_branch_hash hash branch path = root"

section \<open>Specifications\<close>

text \<open>The level above a level, and the root of a balanced tree with \<open>2 ^ k\<close> leaves.\<close>

fun pairs :: "bytes list \<Rightarrow> bytes list" where
  "pairs (a # b # hs) = hash2 a b # pairs hs"
| "pairs hs = []"

fun merkle_root :: "nat \<Rightarrow> bytes list \<Rightarrow> bytes" where
  "merkle_root 0 hs = hs ! 0"
| "merkle_root (Suc k) hs = hash2 (merkle_root k (take (2 ^ k) hs)) (merkle_root k (drop (2 ^ k) hs))"

text \<open>
  The depth of the tree over \<open>n\<close> leaves, and its bottom level: the last leaves are paired so that a
  power of two remains.
\<close>

fun tree_depth :: "nat \<Rightarrow> nat" where
  "tree_depth n = (if n < 2 then 0 else Suc (tree_depth (n div 2)))"

declare tree_depth.simps [simp del]

definition bottom :: "bytes list \<Rightarrow> bytes list" where
  "bottom hs = (let p = 2 ^ Suc (tree_depth (length hs - 1)) - length hs in take p hs @ pairs (drop p hs))"

section \<open>The number of inner leaves\<close>

lemma tree_depth_bounds: "0 < n \<Longrightarrow> 2 ^ tree_depth n \<le> n \<and> n < 2 ^ Suc (tree_depth n)"
proof (induction n rule: tree_depth.induct)
  case (1 n)
  show ?case
  proof (cases "n < 2")
    case True
    then show ?thesis using 1(2) by (simp add: tree_depth.simps)
  next
    case False
    then have "2 ^ tree_depth (n div 2) \<le> n div 2 \<and> n div 2 < 2 ^ Suc (tree_depth (n div 2))" using 1(1) by simp
    then show ?thesis using False by (subst (1 2) tree_depth.simps) auto
  qed
qed

lemma unat_small: "n < 2 ^ 64 \<Longrightarrow> unat (of_nat n :: u64) = n"
  by (simp add: unat_of_nat take_bit_nat_eq_self)

lemma unat_power_two: "k < 64 \<Longrightarrow> unat (2 ^ k :: u64) = 2 ^ k"
  using unat_small [of "2 ^ k"] power_strict_increasing [of k 64 "2 :: nat"] by simp

lemma pow_loop_power:
  assumes "2 ^ m < unat num" and "unat num \<le> 2 ^ Suc m" and "Suc m < 64" and "k \<le> Suc m"
  shows "pow_loop (2 ^ k) num = Some (2 ^ Suc m)"
  using assms(4)
proof (induction "Suc m - k" arbitrary: k)
  case 0
  then have "k = Suc m" by simp
  moreover have "\<not> 2 ^ Suc m < num" using assms unat_power_two [of "Suc m"] by (simp add: word_less_nat_alt)
  ultimately show ?case by (subst pow_loop.simps) simp
next
  case (Suc d)
  then have k: "k < Suc m" by simp
  have "(2 :: nat) ^ k \<le> 2 ^ m" using k by (intro power_increasing) simp_all
  then have "2 ^ k < unat num" using assms(1) by (rule order.strict_trans1)
  then have "unat (2 ^ k :: u64) < unat num" using assms(3) k by (simp add: unat_power_two)
  then have "(2 :: u64) ^ k < num" by (simp add: word_less_nat_alt)
  moreover have "push_bit 1 (2 ^ k :: u64) = 2 ^ Suc k" by (simp add: push_bit_eq_mult)
  ultimately show ?case using Suc(1) [of "Suc k"] Suc(2) k by (subst pow_loop.simps) (simp add: mult.commute)
qed

lemma tree_hash_cnt_eq:
  assumes "3 \<le> n" and "n \<le> 2 ^ 28"
  shows "tree_hash_cnt (of_nat n) = Some (2 ^ tree_depth (n - 1))" and "tree_depth (n - 1) < 28"
    and "2 ^ tree_depth (n - 1) < n" and "n \<le> 2 * 2 ^ tree_depth (n - 1)" and "1 \<le> tree_depth (n - 1)"
proof -
  let ?k = "tree_depth (n - 1)"
  have b: "2 ^ ?k \<le> n - 1" "n - 1 < 2 ^ Suc ?k" using tree_depth_bounds [of "n - 1"] assms(1) by auto
  then show 1: "2 ^ ?k < n" "n \<le> 2 * 2 ^ ?k" using assms(1) by auto
  have "(2 :: nat) ^ ?k < 2 ^ 28" using 1(1) assms(2) by linarith
  then show 28: "?k < 28" by (rule power_less_imp_less_exp [rotated]) simp
  show "1 \<le> ?k" using 1(2) assms(1) by (cases ?k) auto
  have n: "unat (of_nat n :: u64) = n" using assms(2) by (intro unat_small) simp
  have "pow_loop (2 ^ 1) (of_nat n) = Some (2 ^ Suc ?k)"
    using 1 28 n by (intro pow_loop_power) simp_all
  moreover have "drop_bit 1 (2 ^ Suc ?k :: u64) = 2 ^ ?k"
    using 28 unat_power_two [of "Suc ?k"] unat_power_two [of ?k]
    by (intro word_unat_eq_iff [THEN iffD2]) (simp add: unat_drop_bit)
  moreover have "(3 :: u64) \<le> of_nat n" "(of_nat n :: u64) \<le> 0x10000000"
    using assms n by (simp_all add: word_le_nat_alt)
  ultimately show "tree_hash_cnt (of_nat n) = Some (2 ^ ?k)" by (simp add: tree_hash_cnt_def)
qed

section \<open>Levels\<close>

lemma length_pairs [simp]: "length (pairs hs) = length hs div 2"
  by (induction hs rule: pairs.induct) simp_all

lemma pairs_append: "even (length xs) \<Longrightarrow> pairs (xs @ ys) = pairs xs @ pairs ys"
  by (induction xs rule: pairs.induct) simp_all

lemma pairs_nth: "i < length hs div 2 \<Longrightarrow> pairs hs ! i = hash2 (hs ! (2 * i)) (hs ! (2 * i + 1))"
proof (induction hs arbitrary: i rule: pairs.induct)
  case (1 a b hs)
  then show ?case by (cases i) simp_all
qed simp_all

lemma take_pairs: "take n (pairs hs) = pairs (take (2 * n) hs)"
proof (induction hs arbitrary: n rule: pairs.induct)
  case (1 a b hs n)
  then show ?case by (cases n) simp_all
qed (simp_all add: take_Cons split: nat.split)

lemma leaf_loop_eq:
  assumes "length ys = 2 * length zs"
  shows "leaf_loop (xs @ ys) (length us + length zs) (length xs) (length us) (us @ zs) = us @ pairs ys"
  using assms
proof (induction ys arbitrary: xs us zs rule: pairs.induct)
  case (1 a b hs)
  then obtain z zs' where z: "zs = z # zs'" by (cases zs) auto
  have "leaf_loop ((xs @ [a, b]) @ hs) (length (us @ [hash2 a b]) + length zs') (length (xs @ [a, b])) (length (us @ [hash2 a b]))
      ((us @ [hash2 a b]) @ zs') = (us @ [hash2 a b]) @ pairs hs"
    using 1 z by (intro "1.IH") simp
  then show ?case using z by (subst leaf_loop.simps) (simp add: nth_append)
qed (simp_all add: leaf_loop.simps)

text \<open>After \<open>j\<close> steps on an inner level, the first \<open>j\<close> entries are new and the others old.\<close>

definition half_done :: "nat \<Rightarrow> bytes list \<Rightarrow> bytes list" where
  "half_done j hs = take j (pairs hs) @ drop j hs"

lemma half_done_facts:
  assumes "2 * j + 1 < length hs"
  shows "half_done j hs ! (2 * j) = hs ! (2 * j)" and "half_done j hs ! (2 * j + 1) = hs ! (2 * j + 1)"
    and "(half_done j hs)[j := hash2 (hs ! (2 * j)) (hs ! (2 * j + 1))] = half_done (Suc j) hs"
proof -
  have j: "length (take j (pairs hs)) = j" using assms by simp
  show "half_done j hs ! (2 * j) = hs ! (2 * j)" "half_done j hs ! (2 * j + 1) = hs ! (2 * j + 1)"
    using assms j by (simp_all add: half_done_def nth_append mult_2)
  have d: "drop j hs = hs ! j # drop (Suc j) hs" using assms by (simp add: Cons_nth_drop_Suc)
  have t: "take (Suc j) (pairs hs) = take j (pairs hs) @ [hash2 (hs ! (2 * j)) (hs ! (2 * j + 1))]"
    using assms pairs_nth [of j hs] by (simp add: take_Suc_conv_app_nth)
  show "(half_done j hs)[j := hash2 (hs ! (2 * j)) (hs ! (2 * j + 1))] = half_done (Suc j) hs"
    unfolding half_done_def t d using j by (simp add: list_update_append)
qed

lemma level_loop_eq:
  assumes "j \<le> cnt" and "2 * cnt \<le> length hs"
  shows "level_loop cnt (2 * j) j (half_done j hs) = half_done cnt hs"
  using assms(1)
proof (induction "cnt - j" arbitrary: j)
  case (Suc d)
  then have j: "2 * j + 1 < length hs" "j < cnt" using assms(2) by simp_all
  show ?case
    using Suc(1) [of "Suc j"] Suc(2) j half_done_facts [OF j(1)] by (subst level_loop.simps) simp
qed (simp add: level_loop.simps)

lemma level_loop_prefix:
  assumes "2 * cnt \<le> length ints"
  shows "take cnt (level_loop cnt 0 0 ints) = pairs (take (2 * cnt) ints)" and "length (level_loop cnt 0 0 ints) = length ints"
proof -
  have "level_loop cnt 0 0 ints = half_done cnt ints" using level_loop_eq [of 0 cnt ints] assms by (simp add: half_done_def)
  then show "take cnt (level_loop cnt 0 0 ints) = pairs (take (2 * cnt) ints)" "length (level_loop cnt 0 0 ints) = length ints"
    using assms by (simp_all add: half_done_def take_pairs)
qed

lemma reduce_loop_prefix:
  assumes "2 ^ Suc k \<le> length ints"
  shows "take 2 (reduce_loop (2 ^ Suc k) ints) = (pairs ^^ k) (take (2 ^ Suc k) ints)"
  using assms
proof (induction k arbitrary: ints)
  case (Suc k)
  have "Suc 0 < 2 * 2 ^ k" using one_le_power [of "2 :: nat" k] by linarith
  then have "take 2 (reduce_loop (2 ^ Suc (Suc k)) ints) = take 2 (reduce_loop (2 ^ Suc k) (level_loop (2 ^ Suc k) 0 0 ints))"
    by (subst reduce_loop.simps) (simp add: Let_def)
  also have "\<dots> = (pairs ^^ k) (pairs (take (2 ^ Suc (Suc k)) ints))"
    using Suc.IH [of "level_loop (2 ^ Suc k) 0 0 ints"] Suc.prems level_loop_prefix [of "2 ^ Suc k" ints] by simp
  finally show ?case by (simp add: funpow_swap1)
qed (simp add: reduce_loop.simps)

lemma length_funpow_pairs: "length hs = 2 ^ (k + m) \<Longrightarrow> length ((pairs ^^ k) hs) = 2 ^ m"
proof (induction k arbitrary: m)
  case (Suc k)
  then show ?case using Suc.IH [of "Suc m"] by simp
qed simp

lemma funpow_pairs_root: "length hs = 2 ^ k \<Longrightarrow> (pairs ^^ k) hs = [merkle_root k hs]"
proof (induction k arbitrary: hs)
  case 0
  then show ?case by (cases hs) simp_all
next
  case (Suc k)
  let ?l = "take (2 ^ k) hs" and ?r = "drop (2 ^ k) hs"
  have split: "(pairs ^^ j) (xs @ ys) = (pairs ^^ j) xs @ (pairs ^^ j) ys" if "length xs = 2 ^ k" "j \<le> k" for j xs ys
    using that(2)
  proof (induction j)
    case (Suc j)
    then have "length ((pairs ^^ j) xs) = 2 ^ (k - j)" using that(1) by (intro length_funpow_pairs) simp
    then have "even (length ((pairs ^^ j) xs))" using Suc.prems by simp
    then show ?case using Suc by (simp add: pairs_append)
  qed simp
  have l: "length ?l = 2 ^ k" "length ?r = 2 ^ k" using Suc.prems by simp_all
  have "(pairs ^^ k) (?l @ ?r) = [merkle_root k ?l, merkle_root k ?r]"
    unfolding split [OF l(1) order.refl] using Suc.IH l by simp
  then show ?case by simp
qed

lemma bottom_facts:
  assumes "0 < length hs"
  defines "p \<equiv> 2 * 2 ^ tree_depth (length hs - 1) - length hs"
  shows "bottom hs = take p hs @ pairs (drop p hs)" and "p \<le> 2 ^ tree_depth (length hs - 1)"
    and "length hs = p + 2 * (2 ^ tree_depth (length hs - 1) - p)"
proof -
  have "length hs \<le> 2 * 2 ^ tree_depth (length hs - 1)" "2 ^ tree_depth (length hs - 1) \<le> length hs"
  proof (atomize (full), cases "length hs = 1")
    case False
    then show "length hs \<le> 2 * 2 ^ tree_depth (length hs - 1) \<and> 2 ^ tree_depth (length hs - 1) \<le> length hs"
      using tree_depth_bounds [of "length hs - 1"] assms(1) by auto
  qed (simp add: tree_depth.simps)
  then show "bottom hs = take p hs @ pairs (drop p hs)" "p \<le> 2 ^ tree_depth (length hs - 1)"
    "length hs = p + 2 * (2 ^ tree_depth (length hs - 1) - p)"
    by (simp_all add: bottom_def p_def Let_def)
qed

lemma length_bottom:
  assumes "0 < length hs"
  shows "length (bottom hs) = 2 ^ tree_depth (length hs - 1)"
proof -
  define p where "p = 2 * 2 ^ tree_depth (length hs - 1) - length hs"
  note b = bottom_facts [OF assms, folded p_def]
  have "length (drop p hs) = 2 * (2 ^ tree_depth (length hs - 1) - p)" using b(3) by simp
  then show ?thesis using b(2,3) unfolding b(1) by simp
qed

lemma bottom_leaf_loop:
  assumes "0 < length hs"
  defines "p \<equiv> 2 * 2 ^ tree_depth (length hs - 1) - length hs" and "cnt \<equiv> 2 ^ tree_depth (length hs - 1)"
  shows "leaf_loop hs cnt p p (take p hs @ replicate (cnt - p) null_hash) = bottom hs"
proof -
  note b = bottom_facts [OF assms(1), folded p_def cnt_def]
  have "leaf_loop (take p hs @ drop p hs) (length (take p hs) + length (replicate (cnt - p) null_hash)) (length (take p hs))
      (length (take p hs)) (take p hs @ replicate (cnt - p) null_hash) = take p hs @ pairs (drop p hs)"
    using b(3) by (intro leaf_loop_eq) simp
  moreover have "length (take p hs) = p" "p + (cnt - p) = cnt" using b(2,3) by simp_all
  ultimately show ?thesis unfolding b(1) by simp
qed

lemma two_entries:
  assumes "take 2 xs = [a, b]"
  shows "xs ! 0 = a" and "xs ! 1 = b"
  using assms by (cases xs; cases "tl xs"; simp)+

lemma tree_hash_root:
  assumes "0 < length hs" and "length hs \<le> 2 ^ 28"
  shows "tree_hash hs = Some (merkle_root (tree_depth (length hs - 1)) (bottom hs))"
proof -
  consider "length hs = 1" | "length hs = 2" | "3 \<le> length hs" using assms(1) by linarith
  then show ?thesis
  proof cases
    case 1
    then obtain a where "hs = [a]" by (auto simp: length_Suc_conv)
    then show ?thesis by (simp add: tree_hash_def bottom_def tree_depth.simps Let_def)
  next
    case 2
    then obtain a b where "hs = [a, b]" by (auto simp: length_Suc_conv numeral_2_eq_2)
    then show ?thesis by (simp add: tree_hash_def bottom_def tree_depth.simps Let_def)
  next
    case 3
    note c = tree_hash_cnt_eq [OF 3 assms(2)]
    let ?k = "tree_depth (length hs - 1)"
    have len: "length (bottom hs) = 2 ^ ?k" using assms(1) by (rule length_bottom)
    obtain k where k: "?k = Suc k" using c(5) by (cases ?k) auto
    have "take 2 (reduce_loop (2 ^ ?k) (bottom hs)) = (pairs ^^ k) (bottom hs)"
      using reduce_loop_prefix [of k "bottom hs"] len k by simp
    moreover have "length ((pairs ^^ k) (bottom hs)) = 2 ^ 1" using len k by (intro length_funpow_pairs) simp
    then obtain a b where ab: "(pairs ^^ k) (bottom hs) = [a, b]" by (auto simp: length_Suc_conv numeral_2_eq_2)
    ultimately have "take 2 (reduce_loop (2 ^ ?k) (bottom hs)) = [a, b]" by simp
    then have "reduce_loop (2 ^ ?k) (bottom hs) ! 0 = a" "reduce_loop (2 ^ ?k) (bottom hs) ! 1 = b"
      by (rule two_entries)+
    moreover have "[merkle_root ?k (bottom hs)] = pairs [a, b]" using funpow_pairs_root [OF len] k ab by simp
    ultimately show ?thesis
      using 3 assms(1) c(1,2) bottom_leaf_loop [OF assms(1)] by (simp add: tree_hash_def Let_def unat_power_two)
  qed
qed

section \<open>Branches\<close>

lemma branch_hash_loop_append:
  "branch_hash_loop depth path d (xs @ ys) h = branch_hash_loop depth path (d + length xs) ys (branch_hash_loop depth path d xs h)"
  by (induction xs arbitrary: d h) simp_all

lemma and_1_bit: "drop_bit n (path :: u32) AND 1 \<noteq> 0 \<longleftrightarrow> bit path n"
  by (simp add: and_one_eq bit_iff_odd_drop_bit mod2_eq_if)

lemma bit_path_snoc:
  "bit (push_bit 1 (path :: u32) OR (if b then 1 else 0)) n \<longleftrightarrow> (if n = 0 then b else n < 32 \<and> bit path (n - 1))"
proof -
  have p: "push_bit 1 path = 2 * path" by (simp add: push_bit_eq_mult)
  have "bit (2 * path) n \<longleftrightarrow> n \<noteq> 0 \<and> n < 32 \<and> bit path (n - 1)" by (auto simp: bit_double_iff)
  then show ?thesis unfolding p by (auto simp: bit_or_iff bit_1_iff)
qed

lemma branch_hash_loop_shift:
  assumes "d + length xs \<le> depth" and "depth < 32" and "\<And>n. n < 31 \<Longrightarrow> bit path' (Suc n) = bit path n"
  shows "branch_hash_loop (Suc depth) path' d xs h = branch_hash_loop depth path d xs h"
  using assms(1)
proof (induction xs arbitrary: d h)
  case (Cons x xs)
  then have "Suc depth - d - 1 = Suc (depth - d - 1)" "depth - d - 1 < 31" using assms(2) by simp_all
  then have "drop_bit (Suc depth - d - 1) path' AND 1 \<noteq> 0 \<longleftrightarrow> drop_bit (depth - d - 1) path AND 1 \<noteq> 0"
    unfolding and_1_bit using assms(3) by simp
  then show ?case using Cons by simp
qed simp

lemma tree_branch_hash_snoc:
  assumes "length branch < 32"
  shows "tree_branch_hash h (branch @ [s]) (push_bit 1 path OR (if b then 1 else 0))
    = (if b then hash2 s (tree_branch_hash h branch path) else hash2 (tree_branch_hash h branch path) s)"
proof -
  define path' where "path' = push_bit 1 path OR (if b then 1 else 0)"
  have bits: "bit path' 0 = b" "\<And>n. n < 31 \<Longrightarrow> bit path' (Suc n) = bit path n"
    unfolding path'_def bit_path_snoc by simp_all
  have "drop_bit 0 path' AND 1 \<noteq> 0 \<longleftrightarrow> b" unfolding and_1_bit by (rule bits(1))
  then show ?thesis
    unfolding path'_def [symmetric] tree_branch_hash_def
    using branch_hash_loop_shift [of 0 branch "length branch" path' path h, OF _ assms bits(2)]
    by (simp add: branch_hash_loop_append)
qed

text \<open>What is kept along the way: the siblings so far lead from the leaf to the followed entry of the level.\<close>

definition on_branch :: "bytes \<Rightarrow> bytes list \<Rightarrow> bytes list \<times> u32 \<times> nat \<Rightarrow> bool" where
  "on_branch h level = (\<lambda>(branch, path, idx). idx < length level \<and> tree_branch_hash h branch path = level ! idx)"

text \<open>The bookkeeping of one level, done at once.\<close>

definition branch_up :: "bytes list \<Rightarrow> bytes list \<times> u32 \<times> nat \<Rightarrow> bytes list \<times> u32 \<times> nat" where
  "branch_up level = (\<lambda>(branch, path, idx).
    (branch @ [level ! (if even idx then idx + 1 else idx - 1)], push_bit 1 path OR (if even idx then 0 else 1), idx div 2))"

lemma on_branch_up:
  assumes "on_branch h level b" and "even (length level)" and "length (fst b) < 32"
  shows "on_branch h (pairs level) (branch_up level b)"
proof -
  obtain branch path idx where b: "b = (branch, path, idx)" by (cases b)
  have idx: "idx < length level" "tree_branch_hash h branch path = level ! idx" "length branch < 32"
    using assms b by (simp_all add: on_branch_def)
  then have i: "idx div 2 < length level div 2" using assms(2) by (auto elim!: evenE)
  show ?thesis
  proof (cases "even idx")
    case True
    then show ?thesis
      using i idx tree_branch_hash_snoc [of branch h "level ! (idx + 1)" path False] pairs_nth [of "idx div 2" level]
      by (simp add: b on_branch_def branch_up_def)
  next
    case False
    then have "2 * (idx div 2) = idx - 1" "Suc (idx - 1) = idx" by presburger+
    then show ?thesis
      using i idx False tree_branch_hash_snoc [of branch h "level ! (idx - 1)" path True] pairs_nth [of "idx div 2" level]
      by (simp add: b on_branch_def branch_up_def)
  qed
qed

lemma branch_step_other: "idx \<noteq> i \<Longrightarrow> idx \<noteq> i + 1 \<Longrightarrow> branch_step i j x y (br, path, idx) = (br, path, idx)"
  by (simp add: branch_step_def)

lemma branch_step_here:
  assumes "idx div 2 = j"
  shows "branch_step (2 * j) j (level ! (2 * j)) (level ! (2 * j + 1)) (br, path, idx) = branch_up level (br, path, idx)"
proof -
  consider "idx = 2 * j" | "idx = Suc (2 * j)" using assms by (metis Suc_eq_plus1 div_mult_mod_eq mod2_eq_if mult.commute add.right_neutral)
  then show ?thesis by cases (simp_all add: branch_step_def branch_up_def)
qed

lemma branch_level_loop_ints: "fst (branch_level_loop cnt i j (ints, b)) = level_loop cnt i j ints"
proof (induction cnt i j ints arbitrary: b rule: level_loop.induct)
  case (1 cnt i j ints)
  then show ?case by (subst branch_level_loop.simps, subst level_loop.simps) (simp add: Let_def)
qed

lemma branch_level_loop_past:
  assumes "idx < 2 * j" and "idx < i"
  shows "snd (branch_level_loop cnt i j (ints, br, path, idx)) = (br, path, idx)"
  using assms
proof (induction cnt i j ints rule: level_loop.induct)
  case (1 cnt i j ints)
  then show ?case by (subst branch_level_loop.simps) (simp add: Let_def branch_step_other)
qed

lemma branch_level_loop_up:
  assumes "j \<le> cnt" and "2 * cnt \<le> length level" and "2 * j \<le> idx" and "idx < 2 * cnt"
  shows "snd (branch_level_loop cnt (2 * j) j (half_done j level, br, path, idx)) = branch_up level (br, path, idx)"
  using assms(1,3)
proof (induction "cnt - j" arbitrary: j)
  case 0
  then show ?case using assms(4) by simp
next
  case (Suc d)
  then have j: "2 * j + 1 < length level" "j < cnt" using assms(2) by simp_all
  note h = half_done_facts [OF j(1)]
  show ?case
  proof (cases "idx div 2 = j")
    case True
    then have "branch_step (2 * j) j (half_done j level ! (2 * j)) (half_done j level ! (2 * j + 1)) (br, path, idx)
        = branch_up level (br, path, idx)"
      unfolding h by (rule branch_step_here)
    then show ?thesis
      using j True branch_level_loop_past [of "idx div 2" "Suc j" "2 * j + 2"]
      by (subst branch_level_loop.simps) (simp add: Let_def branch_up_def)
  next
    case False
    then have n: "idx \<noteq> 2 * j" "idx \<noteq> 2 * j + 1" "2 * Suc j \<le> idx" using Suc.prems by auto
    then show ?thesis
      using Suc(1) [of "Suc j"] Suc(2) j h n
      by (subst branch_level_loop.simps) (simp add: Let_def branch_step_other)
  qed
qed

lemma branch_level_loop_eq:
  assumes "2 * cnt \<le> length ints" and "snd (snd b) < 2 * cnt"
  shows "branch_level_loop cnt 0 0 (ints, b) = (level_loop cnt 0 0 ints, branch_up (take (2 * cnt) ints) b)"
proof -
  obtain br path idx where b: "b = (br, path, idx)" by (cases b)
  have "snd (branch_level_loop cnt 0 0 (ints, b)) = branch_up ints b"
    using branch_level_loop_up [of 0 cnt ints idx br path] assms by (simp add: b half_done_def)
  moreover have "(if even idx then idx + 1 else idx - 1) < 2 * cnt" using assms(2) b by (auto elim!: evenE)
  then have "branch_up ints b = branch_up (take (2 * cnt) ints) b" by (simp add: branch_up_def b)
  ultimately show ?thesis using branch_level_loop_ints by (intro prod_eqI) simp_all
qed

lemma branch_up_length: "length (fst (branch_up level b)) = Suc (length (fst b))"
  by (cases b) (simp add: branch_up_def)

lemma branch_reduce_up:
  assumes "2 ^ Suc k \<le> length ints" and "on_branch h (take (2 ^ Suc k) ints) b" and "length (fst b) + k < 32"
  shows "fst (branch_reduce (2 ^ Suc k) (ints, b)) = reduce_loop (2 ^ Suc k) ints
    \<and> on_branch h ((pairs ^^ k) (take (2 ^ Suc k) ints)) (snd (branch_reduce (2 ^ Suc k) (ints, b)))
    \<and> length (fst (snd (branch_reduce (2 ^ Suc k) (ints, b)))) = length (fst b) + k"
  using assms
proof (induction k arbitrary: ints b)
  case 0
  then show ?case by (simp add: branch_reduce.simps reduce_loop.simps)
next
  case (Suc k)
  let ?n = "2 ^ Suc k" and ?l = "take (2 ^ Suc (Suc k)) ints"
  let ?ints = "level_loop ?n 0 0 ints" and ?b = "branch_up ?l b"
  have two: "Suc 0 < 2 * 2 ^ k" using one_le_power [of "2 :: nat" k] by linarith
  have n: "2 * ?n \<le> length ints" using Suc.prems(1) by simp
  have "snd (snd b) < 2 * ?n" using Suc.prems(2) by (auto simp: on_branch_def split: prod.splits)
  then have "branch_level_loop ?n 0 0 (ints, b) = (?ints, ?b)" using branch_level_loop_eq [OF n] by simp
  then have step: "branch_reduce (2 ^ Suc (Suc k)) (ints, b) = branch_reduce ?n (?ints, ?b)"
    using two by (subst branch_reduce.simps) (simp add: Let_def)
  have step': "reduce_loop (2 ^ Suc (Suc k)) ints = reduce_loop ?n ?ints"
    using two by (subst reduce_loop.simps) (simp add: Let_def)
  have t: "take ?n ?ints = pairs ?l" "length ?ints = length ints" using level_loop_prefix [OF n] by simp_all
  have "even (length ?l)" using Suc.prems(1) by (simp add: min_def)
  then have "on_branch h (take ?n ?ints) ?b" unfolding t by (intro on_branch_up Suc.prems(2)) (use Suc.prems(3) in simp_all)
  moreover have "?n \<le> length ?ints" "length (fst ?b) + k < 32" using t(2) n Suc.prems(3) by (simp_all add: branch_up_length)
  ultimately show ?case
    unfolding step step' using Suc.IH [of ?ints ?b] unfolding t(1) by (simp add: branch_up_length funpow_swap1)
qed

lemma branch_leaf_loop_ints: "fst (branch_leaf_loop hs cnt i j (ints, b)) = leaf_loop hs cnt i j ints"
proof (induction hs cnt i j ints arbitrary: b rule: leaf_loop.induct)
  case (1 hs cnt i j ints)
  then show ?case by (subst branch_leaf_loop.simps, subst leaf_loop.simps) (simp add: Let_def)
qed

lemma branch_leaf_loop_past:
  assumes "idx < i"
  shows "snd (branch_leaf_loop hs cnt i j (ints, br, path, idx)) = (br, path, idx)"
  using assms
proof (induction hs cnt i j ints rule: leaf_loop.induct)
  case (1 hs cnt i j ints)
  then show ?case by (subst branch_leaf_loop.simps) (simp add: Let_def branch_step_other)
qed

text \<open>The bookkeeping of the bottom level, where only the entries from \<open>p\<close> on are paired.\<close>

definition leaf_up :: "nat \<Rightarrow> bytes list \<Rightarrow> bytes list \<times> u32 \<times> nat \<Rightarrow> bytes list \<times> u32 \<times> nat" where
  "leaf_up p hs = (\<lambda>(br, path, idx).
    case branch_up (drop p hs) (br, path, idx - p) of (br, path, k) \<Rightarrow> (br, path, p + k))"

lemma leaf_step_here:
  assumes "p + 2 * m \<le> idx" and "idx < p + 2 * m + 2" and "idx < length hs" and "even (length hs - p)"
  shows "branch_step (p + 2 * m) (p + m) (hs ! (p + 2 * m)) (hs ! (p + 2 * m + 1)) (br, path, idx) = leaf_up p hs (br, path, idx)"
proof -
  consider "idx = p + 2 * m" | "idx = Suc (p + 2 * m)" using assms by linarith
  then show ?thesis
    by cases (use assms(3) in \<open>simp_all add: branch_step_def leaf_up_def branch_up_def\<close>)
qed

lemma branch_leaf_loop_up:
  assumes "length hs = p + 2 * c" and "m \<le> c" and "p + 2 * m \<le> idx" and "idx < length hs"
  shows "snd (branch_leaf_loop hs (p + c) (p + 2 * m) (p + m) (ints, br, path, idx)) = leaf_up p hs (br, path, idx)"
  using assms(2,3)
proof (induction "c - m" arbitrary: m ints)
  case 0
  then show ?case using assms(1,4) by simp
next
  case (Suc d)
  then have m: "m < c" by simp
  show ?case
  proof (cases "idx < p + 2 * m + 2")
    case True
    then have u: "branch_step (p + 2 * m) (p + m) (hs ! (p + 2 * m)) (hs ! (p + 2 * m + 1)) (br, path, idx) = leaf_up p hs (br, path, idx)"
      using Suc.prems assms(1,4) by (intro leaf_step_here) simp_all
    obtain br' path' where l: "leaf_up p hs (br, path, idx) = (br', path', p + (idx - p) div 2)"
      by (simp add: leaf_up_def branch_up_def)
    have "p + (idx - p) div 2 < p + 2 * m + 2" using True by linarith
    then show ?thesis
      using m u l branch_leaf_loop_past by (subst branch_leaf_loop.simps) (simp add: Let_def)
  next
    case False
    then have "p + 2 * Suc m \<le> idx" by simp
    then show ?thesis
      using Suc(1) [of "Suc m"] Suc(2) m False by (subst branch_leaf_loop.simps) (simp add: Let_def branch_step_other)
  qed
qed

lemma on_branch_leaf_up:
  assumes "on_branch h hs (br, path, idx)" and "p \<le> idx" and "p \<le> length hs" and "even (length hs - p)" and "length br < 32"
  shows "on_branch h (take p hs @ pairs (drop p hs)) (leaf_up p hs (br, path, idx))"
proof -
  have "on_branch h (drop p hs) (br, path, idx - p)" using assms(1,2) by (auto simp: on_branch_def)
  then have "on_branch h (pairs (drop p hs)) (branch_up (drop p hs) (br, path, idx - p))"
    using assms(4,5) by (intro on_branch_up) simp_all
  then show ?thesis using assms(3) by (auto simp: on_branch_def leaf_up_def nth_append split: prod.splits)
qed

lemma bottom_branch:
  assumes "0 < length hs" and "idx < length hs"
  defines "p \<equiv> 2 * 2 ^ tree_depth (length hs - 1) - length hs" and "cnt \<equiv> 2 ^ tree_depth (length hs - 1)"
  obtains b where "branch_leaf_loop hs cnt p p (take p hs @ replicate (cnt - p) null_hash, [], 0, idx) = (bottom hs, b)"
    and "on_branch (hs ! idx) (bottom hs) b" and "length (fst b) \<le> 1"
proof -
  note f = bottom_facts [OF assms(1), folded p_def cnt_def]
  let ?ints = "take p hs @ replicate (cnt - p) null_hash"
  let ?r = "branch_leaf_loop hs cnt p p (?ints, [], 0, idx)"
  have start: "on_branch (hs ! idx) hs ([], 0, idx)" using assms(2) by (simp add: on_branch_def tree_branch_hash_def)
  have ints: "fst ?r = bottom hs"
    unfolding branch_leaf_loop_ints p_def cnt_def by (rule bottom_leaf_loop [OF assms(1)])
  have "on_branch (hs ! idx) (bottom hs) (snd ?r) \<and> length (fst (snd ?r)) \<le> 1"
  proof (cases "idx < p")
    case True
    then have "snd ?r = ([], 0, idx)" by (rule branch_leaf_loop_past)
    then show ?thesis using True start f(1,3) by (simp add: on_branch_def nth_append)
  next
    case False
    have "snd (branch_leaf_loop hs (p + (cnt - p)) (p + 2 * 0) (p + 0) (?ints, [], 0, idx)) = leaf_up p hs ([], 0, idx)"
      using False f(2,3) assms(2) by (intro branch_leaf_loop_up) simp_all
    then have "snd ?r = leaf_up p hs ([], 0, idx)" using f(2) by simp
    moreover have "on_branch (hs ! idx) (bottom hs) (leaf_up p hs ([], 0, idx))"
      unfolding f(1) using False f(3) start by (intro on_branch_leaf_up) simp_all
    ultimately show ?thesis by (simp add: leaf_up_def branch_up_def)
  qed
  then show ?thesis using that [of "snd ?r"] ints by (metis prod.collapse)
qed

lemma branch_step_last:
  assumes "idx < 2"
  shows "branch_step 0 0 x y (br, path, idx) = branch_up [x, y] (br, path, idx)"
  using assms by (auto simp: branch_step_def branch_up_def less_2_cases_iff)

text \<open>The path is the one that \<open>tree_path\<close> computes without the hashes.\<close>

lemma path_step_branch: "snd (branch_step i j x y b) = path_step i j (snd b)"
  by (cases b) (simp add: branch_step_def path_step_def)

lemma path_leaf_loop: "snd (snd (branch_leaf_loop hs cnt i j (ints, b))) = path_loop cnt i j (snd b)"
proof (induction hs cnt i j ints arbitrary: b rule: leaf_loop.induct)
  case (1 hs cnt i j ints)
  then show ?case
    by (subst branch_leaf_loop.simps, subst path_loop.simps) (simp add: Let_def path_step_branch)
qed

lemma path_level_loop: "snd (snd (branch_level_loop cnt i j (ints, b))) = path_loop cnt i j (snd b)"
proof (induction cnt i j ints arbitrary: b rule: level_loop.induct)
  case (1 cnt i j ints)
  then show ?case
    by (subst branch_level_loop.simps, subst path_loop.simps) (simp add: Let_def path_step_branch)
qed

lemma path_branch_reduce: "snd (snd (branch_reduce cnt s)) = path_reduce cnt (snd (snd s))"
proof (induction cnt s rule: branch_reduce.induct)
  case (1 cnt s)
  then show ?case
    using path_level_loop [of "cnt div 2" 0 0 "fst s" "snd s"]
    by (subst branch_reduce.simps, subst path_reduce.simps) (simp add: Let_def)
qed

lemma find_index_nth: "h \<in> set hs \<Longrightarrow> find_index h hs < length hs \<and> hs ! find_index h hs = h"
  by (induction hs) auto

lemma find_index_missing: "h \<notin> set hs \<Longrightarrow> find_index h hs = length hs"
  by (induction hs) auto

lemma tree_branch_large:
  assumes "h \<in> set hs" and "3 \<le> length hs" and "length hs \<le> 2 ^ 28"
  obtains branch path where "tree_branch hs h = Some (branch, path)"
    and "tree_branch_hash h branch path = merkle_root (tree_depth (length hs - 1)) (bottom hs)"
    and "tree_path (length hs) (find_index h hs) = Some path"
proof -
  let ?i = "find_index h hs"
  have i: "?i < length hs" "hs ! ?i = h" and pos: "0 < length hs" using find_index_nth [OF assms(1)] by auto
  note c = tree_hash_cnt_eq [OF assms(2,3)]
  let ?k = "tree_depth (length hs - 1)"
  let ?p = "2 * 2 ^ ?k - length hs"
  let ?ints = "take ?p hs @ replicate (2 ^ ?k - ?p) null_hash"
  obtain b where b: "branch_leaf_loop hs (2 ^ ?k) ?p ?p (?ints, [], 0, ?i) = (bottom hs, b)"
    "on_branch h (bottom hs) b" "length (fst b) \<le> 1"
    using bottom_branch [OF pos i(1)] i(2) by metis
  obtain k where k: "?k = Suc k" using c(5) by (cases ?k) auto
  have len: "length (bottom hs) = 2 ^ Suc k" using length_bottom [OF pos] k by simp
  obtain ints b' where r: "branch_reduce (2 ^ ?k) (bottom hs, b) = (ints, b')" by (cases "branch_reduce (2 ^ ?k) (bottom hs, b)")
  have up: "ints = reduce_loop (2 ^ ?k) (bottom hs)" "on_branch h ((pairs ^^ k) (bottom hs)) b'" "length (fst b') \<le> 1 + k"
    using branch_reduce_up [of k "bottom hs" h b] b(2,3) len c(2) r unfolding k by simp_all
  have "length ((pairs ^^ k) (bottom hs)) = 2 ^ 1" using len by (intro length_funpow_pairs) simp
  then obtain x y where xy: "(pairs ^^ k) (bottom hs) = [x, y]" by (auto simp: length_Suc_conv numeral_2_eq_2)
  have "take 2 ints = [x, y]" using reduce_loop_prefix [of k "bottom hs"] len xy up(1) k by simp
  note e = two_entries [OF this]
  obtain br path idx where b': "b' = (br, path, idx)" by (cases b')
  have idx: "idx < 2" using up(2) xy b' by (simp add: on_branch_def)
  obtain br'' path'' idx'' where l: "branch_up [x, y] b' = (br'', path'', idx'')" by (cases "branch_up [x, y] b'")
  have last: "branch_step 0 0 (ints ! 0) (ints ! 1) b' = (br'', path'', idx'')"
    unfolding e b' branch_step_last [OF idx] using l b' by simp
  have "on_branch h (pairs [x, y]) (br'', path'', idx'')"
    using up(2,3) c(2) k xy l by (subst l [symmetric], intro on_branch_up) simp_all
  moreover have "pairs [x, y] = [merkle_root ?k (bottom hs)]" using funpow_pairs_root [of "bottom hs" ?k] len k xy by simp
  ultimately have "tree_branch_hash h br'' path'' = merkle_root ?k (bottom hs)" by (simp add: on_branch_def)
  moreover have "tree_branch hs h = Some (br'', path'')"
    using assms(2) pos c(1,2) i(1) b(1) r last by (simp add: tree_branch_def Let_def unat_power_two)
  moreover have "path_step 0 0 (path_reduce (2 ^ ?k) (path_loop (2 ^ ?k) ?p ?p (0, ?i))) = (path'', idx'')"
    using path_leaf_loop [of hs "2 ^ ?k" ?p ?p ?ints "([], 0, ?i)"] path_branch_reduce [of "2 ^ ?k" "(bottom hs, b)"]
      path_step_branch [of 0 0 "ints ! 0" "ints ! 1" b'] b(1) r last by simp
  then have "tree_path (length hs) ?i = Some path''"
    using assms(2) pos c(1,2) by (simp add: tree_path_def Let_def unat_power_two)
  ultimately show ?thesis by (intro that)
qed

lemma tree_branch_small:
  assumes "h \<in> set hs" and "length hs < 3"
  obtains branch path where "tree_branch hs h = Some (branch, path)"
    and "tree_branch_hash h branch path = merkle_root (tree_depth (length hs - 1)) (bottom hs)"
    and "tree_path (length hs) (find_index h hs) = Some path"
proof -
  consider (one) a where "hs = [a]" | (two) a b where "hs = [a, b]"
    using assms by (cases hs; cases "tl hs"; cases "tl (tl hs)") auto
  then show ?thesis
  proof cases
    case one
    then show ?thesis using assms(1)
      by (intro that [of "[]" 0]) (simp_all add: tree_branch_def tree_path_def tree_branch_hash_def bottom_def tree_depth.simps Let_def)
  next
    case two
    show ?thesis
    proof (cases "h = a")
      case True
      then show ?thesis using two
        by (intro that [of "[b]" 0]) (simp_all add: tree_branch_def tree_path_def tree_branch_hash_def bottom_def tree_depth.simps Let_def)
    next
      case False
      then show ?thesis using two assms(1)
        by (intro that [of "[a]" 1]) (simp_all add: tree_branch_def tree_path_def tree_branch_hash_def bottom_def tree_depth.simps Let_def)
    qed
  qed
qed

lemma tree_branch_correct:
  assumes "h \<in> set hs" and "length hs \<le> 2 ^ 28"
  obtains branch path where "tree_branch hs h = Some (branch, path)"
    and "tree_branch_hash h branch path = merkle_root (tree_depth (length hs - 1)) (bottom hs)"
    and "tree_path (length hs) (find_index h hs) = Some path"
proof (cases "3 \<le> length hs")
  case True
  show ?thesis by (rule tree_branch_large [OF assms(1) True assms(2)]) (rule that)
next
  case False
  then have "length hs < 3" by simp
  show ?thesis by (rule tree_branch_small [OF assms(1) \<open>length hs < 3\<close>]) (rule that)
qed

section \<open>Binding\<close>

text \<open>The strings that are hashed on the way to a root.\<close>

fun pair_inputs :: "bytes list \<Rightarrow> bytes set" where
  "pair_inputs (a # b # hs) = insert (a @ b) (pair_inputs hs)"
| "pair_inputs hs = {}"

fun merkle_inputs :: "nat \<Rightarrow> bytes list \<Rightarrow> bytes set" where
  "merkle_inputs 0 hs = {}"
| "merkle_inputs (Suc k) hs =
    insert (merkle_root k (take (2 ^ k) hs) @ merkle_root k (drop (2 ^ k) hs))
      (merkle_inputs k (take (2 ^ k) hs) \<union> merkle_inputs k (drop (2 ^ k) hs))"

definition tree_inputs :: "bytes list \<Rightarrow> bytes set" where
  "tree_inputs hs =
    (let k = tree_depth (length hs - 1) in pair_inputs (drop (2 ^ Suc k - length hs) hs) \<union> merkle_inputs k (bottom hs))"

definition collision :: "bytes set \<Rightarrow> bytes set \<Rightarrow> bool" where
  "collision A B \<longleftrightarrow> (\<exists>a \<in> A. \<exists>b \<in> B. a \<noteq> b \<and> cn_fast_hash a = cn_fast_hash b)"

lemma collision_up:
  "collision {x} {y} \<Longrightarrow> collision (insert x A) (insert y B)"
  "collision A B \<Longrightarrow> collision (insert x A) (insert y B)"
  "collision A B \<Longrightarrow> collision (A \<union> C) (B \<union> D)"
  "collision C D \<Longrightarrow> collision (A \<union> C) (B \<union> D)"
  by (auto simp: collision_def)

lemma hash2_cases:
  assumes "hash2 a b = hash2 c d" and "length a = length c"
  shows "a = c \<and> b = d \<or> collision {a @ b} {c @ d}"
  using assms by (auto simp: hash2_def collision_def)

lemma pairs_binding:
  assumes "pairs xs = pairs ys" and "length xs = length ys" and "even (length xs)" and "\<forall>h \<in> set xs \<union> set ys. length h = 32"
  shows "xs = ys \<or> collision (pair_inputs xs) (pair_inputs ys)"
  using assms
proof (induction xs arbitrary: ys rule: pairs.induct)
  case (1 a b xs)
  then obtain c d ys' where ys: "ys = c # d # ys'" by (cases ys; cases "tl ys") auto
  have "a = c \<and> b = d \<or> collision {a @ b} {c @ d}" using 1 ys by (intro hash2_cases) simp_all
  moreover have "xs = ys' \<or> collision (pair_inputs xs) (pair_inputs ys')" using 1 ys by (intro "1.IH") simp_all
  ultimately show ?case unfolding ys pair_inputs.simps using collision_up(1,2) by metis
qed auto

lemma length_merkle_root:
  "length hs = 2 ^ k \<Longrightarrow> \<forall>h \<in> set hs. length h = 32 \<Longrightarrow> length (merkle_root k hs) = 32"
  by (cases k) (auto simp: hash2_def length_cn_fast_hash)

lemma merkle_binding:
  assumes "merkle_root k xs = merkle_root k ys" and "length xs = 2 ^ k" and "length ys = 2 ^ k"
    and "\<forall>h \<in> set xs \<union> set ys. length h = 32"
  shows "xs = ys \<or> collision (merkle_inputs k xs) (merkle_inputs k ys)"
  using assms
proof (induction k arbitrary: xs ys)
  case 0
  then show ?case by (cases xs; cases ys) auto
next
  case (Suc k)
  let ?l = "\<lambda>xs :: bytes list. take (2 ^ k) xs" and ?r = "\<lambda>xs :: bytes list. drop (2 ^ k) xs"
  have w: "\<forall>h \<in> set (?l xs) \<union> set (?l ys). length h = 32" "\<forall>h \<in> set (?r xs) \<union> set (?r ys). length h = 32"
    using Suc.prems(4) by (auto dest: in_set_takeD in_set_dropD)
  have len: "length (?l xs) = 2 ^ k" "length (?r xs) = 2 ^ k" "length (?l ys) = 2 ^ k" "length (?r ys) = 2 ^ k"
    using Suc.prems(2,3) by simp_all
  have "merkle_root k (?l xs) = merkle_root k (?l ys) \<and> merkle_root k (?r xs) = merkle_root k (?r ys)
      \<or> collision {merkle_root k (?l xs) @ merkle_root k (?r xs)} {merkle_root k (?l ys) @ merkle_root k (?r ys)}"
    using Suc.prems(1) w(1) len length_merkle_root by (intro hash2_cases) simp_all
  then show ?case
  proof
    assume roots: "merkle_root k (?l xs) = merkle_root k (?l ys) \<and> merkle_root k (?r xs) = merkle_root k (?r ys)"
    have "?l xs = ?l ys \<or> collision (merkle_inputs k (?l xs)) (merkle_inputs k (?l ys))"
      using roots len w(1) by (intro Suc.IH) simp_all
    moreover have "?r xs = ?r ys \<or> collision (merkle_inputs k (?r xs)) (merkle_inputs k (?r ys))"
      using roots len w(2) by (intro Suc.IH) simp_all
    moreover have "xs = ys" if "?l xs = ?l ys" "?r xs = ?r ys"
    proof -
      have "?l xs @ ?r xs = ?l ys @ ?r ys" by (simp only: that)
      then show ?thesis by (simp only: append_take_drop_id)
    qed
    ultimately consider "xs = ys" | "collision (merkle_inputs k (?l xs)) (merkle_inputs k (?l ys))"
      | "collision (merkle_inputs k (?r xs)) (merkle_inputs k (?r ys))" by argo
    then show ?thesis
    proof cases
      case 2
      then show ?thesis unfolding merkle_inputs.simps by (rule disjI2 [OF collision_up(2) [OF collision_up(3)]])
    next
      case 3
      then show ?thesis unfolding merkle_inputs.simps by (rule disjI2 [OF collision_up(2) [OF collision_up(4)]])
    qed simp
  next
    assume "collision {merkle_root k (?l xs) @ merkle_root k (?r xs)} {merkle_root k (?l ys) @ merkle_root k (?r ys)}"
    then show ?thesis unfolding merkle_inputs.simps by (rule disjI2 [OF collision_up(1)])
  qed
qed

lemma pairs_lengths: "h \<in> set (pairs hs) \<Longrightarrow> length h = 32"
  by (induction hs rule: pairs.induct) (auto simp: hash2_def length_cn_fast_hash)

lemma tree_binding:
  assumes "length xs = length ys" and "0 < length xs" and "\<forall>h \<in> set xs \<union> set ys. length h = 32"
    and "merkle_root (tree_depth (length xs - 1)) (bottom xs) = merkle_root (tree_depth (length ys - 1)) (bottom ys)"
  shows "xs = ys \<or> collision (tree_inputs xs) (tree_inputs ys)"
proof -
  define k where "k = tree_depth (length xs - 1)"
  define p where "p = 2 * 2 ^ k - length xs"
  note x = bottom_facts [OF assms(2), folded k_def, folded p_def]
  have y: "bottom ys = take p ys @ pairs (drop p ys)" "0 < length ys"
    using bottom_facts(1) [of ys] assms(1,2) by (simp_all add: k_def p_def)
  have in32: "\<forall>h \<in> set (take p zs) \<union> set (drop p zs). length h = 32" if "\<forall>h \<in> set zs. length h = 32" for zs :: "bytes list"
    using that set_take_subset [of p zs] set_drop_subset [of p zs] by blast
  have 32: "\<forall>h \<in> set (bottom xs) \<union> set (bottom ys). length h = 32"
    unfolding x(1) y(1) using in32 [of xs] in32 [of ys] assms(3) pairs_lengths by auto
  have "bottom xs = bottom ys \<or> collision (merkle_inputs k (bottom xs)) (merkle_inputs k (bottom ys))"
    using assms(1,4) 32 length_bottom [OF assms(2)] length_bottom [OF y(2)] by (intro merkle_binding) (simp_all add: k_def)
  moreover have "xs = ys \<or> collision (pair_inputs (drop p xs)) (pair_inputs (drop p ys))" if "bottom xs = bottom ys"
  proof -
    have t: "take p xs = take p ys" "pairs (drop p xs) = pairs (drop p ys)"
      using that assms(1) unfolding x(1) y(1) by (simp_all add: append_eq_append_conv)
    have "even (length (drop p xs))" using x(3) by simp
    then have "drop p xs = drop p ys \<or> collision (pair_inputs (drop p xs)) (pair_inputs (drop p ys))"
      using t(2) assms(1,3) in32 [of xs] in32 [of ys] by (intro pairs_binding) auto
    then show ?thesis using t(1) append_take_drop_id [of p] by metis
  qed
  ultimately show ?thesis
    unfolding tree_inputs_def Let_def assms(1) [symmetric] k_def [symmetric] power_Suc p_def [symmetric]
    using collision_up(3,4) by metis
qed

section \<open>Properties\<close>

text \<open>
  C8. The hash of a list of up to \<open>2 ^ 28\<close> transactions, computed level by level in one buffer, is the
  root of a tree in which the last leaves are first paired to leave a power of two, and which is then
  split into equal halves down to the leaves: overwriting the buffer in place loses nothing.
\<close>

theorem tree_hash_is_merkle:
  assumes "0 < length hs" and "length hs \<le> 2 ^ 28"
  shows "tree_hash hs = Some (merkle_root (tree_depth (length hs - 1)) (bottom hs))
    \<and> length (bottom hs) = 2 ^ tree_depth (length hs - 1)"
  using tree_hash_root [OF assms] length_bottom [OF assms(1)] by blast

theorem tree_hash_is_merkle_witness:
  "tree_hash [[1], [2], [3]] = Some (hash2 [1] (hash2 [2] [3]))"
  using tree_hash_is_merkle [of "[[1], [2], [3]]"] by (simp add: bottom_def tree_depth.simps Let_def)

text \<open>
  The root binds the leaves: if two lists of hashes of the same length have the same root, they are
  equal or two different strings that were hashed on the way to the two roots have the same hash.
\<close>

lemma tree_hash_binding:
  assumes "tree_hash xs = tree_hash ys" and "length xs = length ys" and "length xs \<le> 2 ^ 28"
    and "\<forall>h \<in> set xs \<union> set ys. length h = 32"
  shows "xs = ys \<or> (\<exists>a \<in> tree_inputs xs. \<exists>b \<in> tree_inputs ys. a \<noteq> b \<and> cn_fast_hash a = cn_fast_hash b)"
proof (cases "xs = []")
  case True
  then show ?thesis using assms(2) by simp
next
  case False
  then have pos: "0 < length xs" "0 < length ys" using assms(2) by (cases xs; cases ys; simp)+
  have "merkle_root (tree_depth (length xs - 1)) (bottom xs) = merkle_root (tree_depth (length ys - 1)) (bottom ys)"
    using assms(1-3) tree_hash_root [OF pos(1)] tree_hash_root [OF pos(2)] by simp
  from tree_binding [OF assms(2) pos(1) assms(4) this] show ?thesis by (simp add: collision_def)
qed

lemma tree_hash_binding_witness:
  "tree_hash [null_hash, null_hash] = tree_hash [null_hash, null_hash]
    \<and> ([null_hash, null_hash] = [null_hash, null_hash]
      \<or> (\<exists>a \<in> tree_inputs [null_hash, null_hash]. \<exists>b \<in> tree_inputs [null_hash, null_hash].
          a \<noteq> b \<and> cn_fast_hash a = cn_fast_hash b))"
  using tree_hash_binding [of "[null_hash, null_hash]" "[null_hash, null_hash]"] by (simp add: null_hash_def HASH_SIZE_def)

text \<open>
  C17. Branches: for every leaf of a tree a branch is found, hashing the leaf along the branch gives the
  root of the tree, so the branch is accepted; the path is the one \<open>tree_path\<close> computes from the index
  alone. A hash that is no leaf has no branch.
\<close>

theorem tree_branch_accepted:
  assumes "length hs \<le> 2 ^ 28"
  shows "if h \<in> set hs
    then (\<exists>branch path root. tree_branch hs h = Some (branch, path) \<and> tree_hash hs = Some root
      \<and> is_branch_in_tree h root branch path \<and> tree_path (length hs) (find_index h hs) = Some path)
    else tree_branch hs h = None"
proof (cases "h \<in> set hs")
  case True
  then have "tree_hash hs = Some (merkle_root (tree_depth (length hs - 1)) (bottom hs))"
    using assms by (intro tree_hash_root) (auto intro: length_pos_if_in_set)
  then show ?thesis
    using True by (auto simp: is_branch_in_tree_def intro: tree_branch_correct [OF True assms])
next
  case False
  then show ?thesis by (simp add: tree_branch_def find_index_missing Let_def)
qed

theorem tree_branch_accepted_witness:
  "\<exists>branch path root. tree_branch [[1], [2], [3]] [2] = Some (branch, path) \<and> tree_hash [[1], [2], [3]] = Some root
    \<and> is_branch_in_tree [2] root branch path"
  using tree_branch_accepted [of "[[1], [2], [3]]" "[2]"] by auto

end
