(* ===== verification/Hex.thy ===== *)
theory Hex
  imports Prelude
begin

text \<open>
  Hexadecimal text: \<open>contrib/epee/src/hex.cpp\<close>, with the table of digits of
  \<open>contrib/epee/include/storages/parserse_base_utils.h\<close>. The lemmas show the round trip of \<open>to_hex\<close>
  and \<open>from_hex\<close>, that what is accepted is the rendering of the bytes up to the case of the letters, and
  that the lenient reader drops separators between bytes.
\<close>

section \<open>Definitions\<close>

definition isx :: "nat list" where
  "isx = replicate 48 0xff @ [0, 1, 2, 3, 4, 5, 6, 7, 8, 9] @ replicate 7 0xff @ [10, 11, 12, 13, 14, 15]
    @ replicate 26 0xff @ [10, 11, 12, 13, 14, 15] @ replicate 153 0xff"

definition hex_chars :: string where "hex_chars = ''0123456789abcdef''"

fun write_hex :: "bytes \<Rightarrow> string" where
  "write_hex [] = []"
| "write_hex (byte # src) =
    hex_chars ! unat (drop_bit 4 byte) # hex_chars ! unat (byte AND 0x0F) # write_hex src"

definition to_hex :: "bytes \<Rightarrow> string" where
  "to_hex src = write_hex src"

text \<open>\<open>None\<close> is the \<open>false\<close> of the code; an odd length is refused before the loop starts.\<close>

fun from_hex_loop :: "string \<Rightarrow> bytes option" where
  "from_hex_loop (c # d # s) =
    (let tmp = isx ! of_char c
     in if tmp = 0xff then None
        else
          let t2 = isx ! of_char d
          in if t2 = 0xff then None
             else case from_hex_loop s of
                    None \<Rightarrow> None
                  | Some bs \<Rightarrow> Some ((push_bit 4 (of_nat tmp) OR of_nat t2) # bs))"
| "from_hex_loop _ = Some []"

definition from_hex :: "string \<Rightarrow> bytes option" where
  "from_hex s = (if length s mod 2 \<noteq> 0 then None else from_hex_loop s)"

definition parse_hexstr_to_binbuff :: "string \<Rightarrow> bytes option" where
  "parse_hexstr_to_binbuff s = from_hex s"

text \<open>The lenient reader throws on bad input.\<close>

datatype hex_error = Length_Error | Range_Error

definition isspace :: "char \<Rightarrow> bool" where
  "isspace c \<longleftrightarrow> of_char c \<in> {9, 10, 11, 12, 13, 32 :: nat}"

definition include_char :: "char \<Rightarrow> bool" where
  "include_char c \<longleftrightarrow> \<not> isspace c \<and> c \<noteq> CHR '':''"

definition char_to_int :: "char \<Rightarrow> nat option" where
  "char_to_int c =
    (let n = of_char c :: nat
     in if 48 \<le> n \<and> n \<le> 57 then Some (n - 48)
        else if 97 \<le> n \<and> n \<le> 102 then Some (n - 87)
        else if 65 \<le> n \<and> n \<le> 70 then Some (n - 55) else None)"

text \<open>
  The second digit of a pair is read without looking for separators; at the end of the text it is
  the terminating zero of the string.
\<close>

fun locale_loop :: "string \<Rightarrow> hex_error + bytes" where
  "locale_loop [] = Inr []"
| "locale_loop (c # s) =
    (if \<not> include_char c then locale_loop s
     else case char_to_int c of
            None \<Rightarrow> Inl Range_Error
          | Some high \<Rightarrow>
              (case s of
                 [] \<Rightarrow> Inl Range_Error
               | d # s' \<Rightarrow>
                   (case char_to_int d of
                      None \<Rightarrow> Inl Range_Error
                    | Some low \<Rightarrow>
                        (case locale_loop s' of
                           Inl e \<Rightarrow> Inl e
                         | Inr result \<Rightarrow> Inr (of_nat (push_bit 4 high OR low) # result)))))"

definition from_hex_locale :: "string \<Rightarrow> hex_error + bytes" where
  "from_hex_locale src =
    (if length (filter include_char src) mod 2 \<noteq> 0 then Inl Length_Error else locale_loop src)"

definition to_lower :: "char \<Rightarrow> char" where
  "to_lower c = (if 65 \<le> (of_char c :: nat) \<and> (of_char c :: nat) \<le> 90 then char_of (of_char c + 32 :: nat) else c)"

section \<open>The round trip\<close>

lemma isx_nth:
  assumes "n < 256"
  shows "isx ! n = (if 48 \<le> n \<and> n \<le> 57 then n - 48 else if 65 \<le> n \<and> n \<le> 70 then n - 55
    else if 97 \<le> n \<and> n \<le> 102 then n - 87 else 0xff)"
proof -
  have "list_all (\<lambda>n. isx ! n = (if 48 \<le> n \<and> n \<le> 57 then n - 48 else if 65 \<le> n \<and> n \<le> 70 then n - 55
    else if 97 \<le> n \<and> n \<le> 102 then n - 87 else 0xff)) [0..<256]"
    by (simp add: isx_def upt_rec replicate_numeral)
  with assms show ?thesis by (simp add: list_all_iff)
qed

lemma isx_hex_chars: "d < 16 \<Longrightarrow> isx ! of_char (hex_chars ! d) = d"
proof -
  have "list_all (\<lambda>d. isx ! of_char (hex_chars ! d) = d) [0..<16]"
    by (simp add: upt_rec hex_chars_def isx_nth)
  then show "d < 16 \<Longrightarrow> isx ! of_char (hex_chars ! d) = d" by (simp add: list_all_iff)
qed

lemma low_nibble: "b AND 0x0F = take_bit 4 b" for b :: u8
  by (simp add: take_bit_eq_mask mask_eq_exp_minus_1)

lemma nibbles_less: "unat (drop_bit 4 b) < 16" "unat (b AND 0x0F) < 16" for b :: u8
proof -
  have "unat b div 2 ^ 4 < 16" using unat_u8_less [of b] by (intro less_mult_imp_div_less) (simp del: unat_u8_less)
  then show "unat (drop_bit 4 b) < 16" by (simp only: unat_drop_bit)
  show "unat (b AND 0x0F) < 16" by (simp only: low_nibble unat_take_bit) simp
qed

lemma join_nibbles: "push_bit 4 (drop_bit 4 b) OR take_bit 4 b = b" for b :: u8
  using push_bit_or_take_bit [of 4 "drop_bit 4 b" b] bits_ident [of 4 b] by simp

lemma from_write_hex: "from_hex_loop (write_hex bs) = Some bs"
proof (induction bs)
  case (Cons b bs)
  have "isx ! of_char (hex_chars ! unat (drop_bit 4 b)) = unat (drop_bit 4 b)"
    "isx ! of_char (hex_chars ! unat (b AND 0x0F)) = unat (b AND 0x0F)"
    by (rule isx_hex_chars, rule nibbles_less)+
  moreover have "unat (drop_bit 4 b) \<noteq> 0xff" "unat (b AND 0x0F) \<noteq> 0xff"
    using nibbles_less [of b] by linarith+
  moreover have "push_bit 4 (of_nat (unat (drop_bit 4 b))) OR of_nat (unat (b AND 0x0F)) = b"
    using join_nibbles [of b] by (simp add: low_nibble)
  ultimately show ?case using Cons.IH by (simp only: write_hex.simps from_hex_loop.simps Let_def if_False option.case)
qed simp

lemma length_write_hex: "length (write_hex bs) = 2 * length bs"
  by (induction bs) simp_all

interpretation hex_text: codec to_hex from_hex
  by unfold_locales (simp add: to_hex_def from_hex_def from_write_hex length_write_hex)

lemma hex_chars_code: "d < 16 \<Longrightarrow> of_char (hex_chars ! d) = (if d < 10 then d + 48 else d + 87)"
proof -
  have "list_all (\<lambda>d. of_char (hex_chars ! d) = (if d < 10 then d + 48 else d + 87)) [0..<16]"
    by (simp add: upt_rec hex_chars_def)
  then show "d < 16 \<Longrightarrow> of_char (hex_chars ! d) = (if d < 10 then d + 48 else d + 87)" by (simp add: list_all_iff)
qed

lemma hex_digit_lower:
  assumes "isx ! of_char c \<noteq> 0xff"
  shows "isx ! of_char c < 16" and "hex_chars ! (isx ! of_char c) = to_lower c"
proof -
  let ?n = "of_char c :: nat"
  note isx = isx_nth [OF nat_of_char_less_256, of c]
  show d: "isx ! ?n < 16" using assms unfolding isx by (auto split: if_splits)
  have "of_char (hex_chars ! (isx ! ?n)) = (if 65 \<le> ?n \<and> ?n \<le> 90 then ?n + 32 else ?n)"
    unfolding hex_chars_code [OF d] using assms unfolding isx by (auto split: if_splits)
  moreover have "of_char (to_lower c) = (if 65 \<le> ?n \<and> ?n \<le> 90 then ?n + 32 else ?n)"
    by (simp add: to_lower_def of_char_of)
  ultimately show "hex_chars ! (isx ! ?n) = to_lower c" by (metis of_char_eq_iff)
qed

lemma join_split_nibbles:
  assumes "h < 16" and "l < 16"
  shows "unat (drop_bit 4 (push_bit 4 (of_nat h) OR of_nat l :: u8)) = h"
    and "unat ((push_bit 4 (of_nat h) OR of_nat l :: u8) AND 0x0F) = l"
proof -
  let ?l = "of_nat l :: u8" and ?h = "of_nat h :: u8"
  have u: "unat ?h = h" "unat ?l = l" using assms by (simp_all add: unat_of_nat)
  have t: "take_bit 4 ?l = ?l" using assms by (simp only: word_unat_eq_iff unat_take_bit u) simp
  have "unat (push_bit 4 ?h) = 16 * h" using assms by (subst unat_push_bit) (simp add: u)
  then have s: "unat (push_bit 4 ?h OR ?l) = 16 * h + l"
    using push_bit_or_take_bit [of 4 ?h ?l] assms unfolding t by (simp add: unat_add_no_overflow u)
  show "unat (drop_bit 4 (push_bit 4 ?h OR ?l)) = h" using assms by (simp only: unat_drop_bit s) simp
  show "unat ((push_bit 4 ?h OR ?l) AND 0x0F) = l" using assms by (simp only: low_nibble unat_take_bit s) simp
qed

lemma write_from_hex: "even (length s) \<Longrightarrow> from_hex_loop s = Some bs \<Longrightarrow> write_hex bs = map to_lower s"
proof (induction s arbitrary: bs rule: from_hex_loop.induct)
  case (1 c d s)
  then obtain bs' where ok: "isx ! of_char c \<noteq> 0xff" "isx ! of_char d \<noteq> 0xff" "from_hex_loop s = Some bs'"
    "bs = (push_bit 4 (of_nat (isx ! of_char c)) OR of_nat (isx ! of_char d)) # bs'"
    by (auto simp: Let_def split: if_splits option.splits)
  have "write_hex bs' = map to_lower s" using 1(1) [OF refl ok(1) refl ok(2)] 1(2) ok(3) by simp
  with ok hex_digit_lower [OF ok(1)] hex_digit_lower [OF ok(2)] show ?case
    by (simp only: write_hex.simps join_split_nibbles list.map)
qed auto

section \<open>Separators\<close>

lemma char_to_int_hex: "d < 16 \<Longrightarrow> char_to_int (hex_chars ! d) = Some d" "d < 16 \<Longrightarrow> include_char (hex_chars ! d)"
proof -
  assume d: "d < 16"
  then show "char_to_int (hex_chars ! d) = Some d" by (auto simp: char_to_int_def hex_chars_code [OF d] Let_def)
  have "of_char (hex_chars ! d) \<noteq> (58 :: nat)" unfolding hex_chars_code [OF d] by simp
  then have "hex_chars ! d \<noteq> CHR '':''" by auto
  then show "include_char (hex_chars ! d)" by (auto simp: include_char_def isspace_def hex_chars_code [OF d])
qed

lemma locale_loop_separators: "list_all (\<lambda>c. \<not> include_char c) sep \<Longrightarrow> locale_loop (sep @ s) = locale_loop s"
  by (induction sep) simp_all

lemma nibble_value: "of_nat (push_bit 4 (unat (drop_bit 4 b)) OR unat (b AND 0x0F)) = b" for b :: u8
proof -
  have "unat (push_bit 4 (drop_bit 4 b)) = push_bit 4 (unat (drop_bit 4 b))"
    using nibbles_less(1) [of b] by (subst unat_push_bit) (simp add: push_bit_eq_mult)
  then have "push_bit 4 (unat (drop_bit 4 b)) OR unat (b AND 0x0F) = unat (push_bit 4 (drop_bit 4 b) OR take_bit 4 b)"
    by (simp only: unsigned_or_eq low_nibble)
  then show ?thesis unfolding join_nibbles by simp
qed

lemma locale_loop_byte:
  "locale_loop (write_hex [b] @ s) = (case locale_loop s of Inl e \<Rightarrow> Inl e | Inr bs \<Rightarrow> Inr (b # bs))"
  using nibbles_less [of b] nibble_value [of b] by (simp add: char_to_int_hex split: sum.split)

lemma locale_loop_bytes:
  assumes "\<forall>(sep, b)\<in>set ps. list_all (\<lambda>c. \<not> include_char c) sep" and "list_all (\<lambda>c. \<not> include_char c) tail"
  shows "locale_loop (concat (map (\<lambda>(sep, b). sep @ write_hex [b]) ps) @ tail) = Inr (map snd ps)"
  using assms
proof (induction ps)
  case Nil
  then show ?case using locale_loop_separators [of tail "[]"] by simp
next
  case (Cons p ps)
  then show ?case
    using locale_loop_separators [of "fst p"] locale_loop_byte [of "snd p"]
    by (cases p) (simp del: write_hex.simps)
qed

lemma count_included:
  assumes "\<forall>(sep, b)\<in>set ps. list_all (\<lambda>c. \<not> include_char c) sep" and "list_all (\<lambda>c. \<not> include_char c) tail"
  shows "even (length (filter include_char (concat (map (\<lambda>(sep, b). sep @ write_hex [b]) ps) @ tail)))"
proof -
  have none: "filter include_char sep = []" if "list_all (\<lambda>c. \<not> include_char c) sep" for sep
    using that by (induction sep) simp_all
  show ?thesis using assms
    by (induction ps) (auto simp: none char_to_int_hex nibbles_less)
qed

section \<open>Properties\<close>

text \<open>
  Hexadecimal text and bytes: reading back a rendering gives the bytes, and a text is accepted
  only if it is the rendering of the bytes read, up to the case of its letters.
\<close>

lemma hex_roundtrip_bytes:
  "from_hex (to_hex bs) = Some bs \<and> (from_hex s = Some bs \<longrightarrow> to_hex bs = map to_lower s)"
proof (intro conjI impI)
  show "from_hex (to_hex bs) = Some bs" by (rule hex_text.dec_enc)
  show "to_hex bs = map to_lower s" if "from_hex s = Some bs"
    using that write_from_hex [of s bs] by (auto simp: from_hex_def to_hex_def split: if_splits)
qed

lemma hex_roundtrip_bytes_witness: "from_hex ''fE'' = Some [254] \<and> to_hex [254] = ''fe''"
proof -
  have f: "from_hex ''fE'' = Some [254]" by (simp add: from_hex_def isx_nth push_bit_eq_mult)
  then show ?thesis using hex_roundtrip_bytes [of "[254]" "''fE''"] by (simp add: to_lower_def char_of_def bit_0)
qed

text \<open>
  The lenient reader ignores white space and colons before, between and after bytes, in any
  number.
\<close>

lemma from_hex_locale_separators:
  assumes "\<forall>(sep, b)\<in>set ps. list_all (\<lambda>c. \<not> include_char c) sep" and "list_all (\<lambda>c. \<not> include_char c) tail"
  shows "from_hex_locale (concat (map (\<lambda>(sep, b). sep @ write_hex [b]) ps) @ tail) = Inr (map snd ps)"
  using count_included [OF assms] locale_loop_bytes [OF assms] by (simp add: from_hex_locale_def)

lemma from_hex_locale_separators_witness: "from_hex_locale ''0a: ff '' = Inr [10, 255]"
  using from_hex_locale_separators [of "[([], 10), ('': '', 255)]" "'' ''"]
  by (simp add: include_char_def isspace_def hex_chars_def)

text \<open>A separator inside a byte is not ignored, although the text has an even number of digits.\<close>

lemma from_hex_locale_split_byte: "from_hex_locale ''0 a'' = Inl Range_Error"
  by (simp add: from_hex_locale_def include_char_def isspace_def char_to_int_def)

end
