(* ===== verification/Tx_Id.thy ===== *)
theory Tx_Id
  imports Transaction Tree_Hash Hex
begin

text \<open>
  Parsing, writing and hashing of transactions: \<open>expand_transaction_1\<close>, \<open>parse_and_validate_tx_from_blob\<close>
  and its variants, \<open>tx_to_blob\<close>, and the functions that compute the id of a transaction, of
  \<open>src/cryptonote_basic/cryptonote_format_utils.cpp\<close>, over the serialisers of \<open>Transaction\<close> and the hash of
  \<open>Keccak\<close>.

  The lemmas show that a transaction is read back from its blob, what every transaction that is read
  looks like, which blobs are the only ones of their transaction, and that the id determines the
  transaction unless two different strings that were hashed have the same hash.
\<close>

section \<open>Definitions\<close>

text \<open>How a call can end: with a value, by returning false, or with an exception.\<close>

datatype 'a call = Returned 'a | Refused | Thrown

definition is_coinbase :: "transaction \<Rightarrow> bool" where
  "is_coinbase tx =
    (if length (vin tx) \<noteq> 1 then False else case vin tx ! 0 of Txin_gen _ \<Rightarrow> True | _ \<Rightarrow> False)"

definition get_output_public_key :: "tx_out \<Rightarrow> bytes option" where
  "get_output_public_key o1 =
    (case out_target o1 of
       Txout_to_key k \<Rightarrow> Some k
     | Txout_to_tagged_key t \<Rightarrow> Some (tagged_key t)
     | _ \<Rightarrow> None)"

definition is_rct_bulletproof :: "u8 \<Rightarrow> bool" where
  "is_rct_bulletproof ty \<longleftrightarrow> ty = RCTTypeBulletproof \<or> ty = RCTTypeBulletproof2 \<or> ty = RCTTypeCLSAG"

definition is_rct_bulletproof_plus :: "u8 \<Rightarrow> bool" where
  "is_rct_bulletproof_plus ty \<longleftrightarrow> ty = RCTTypeBulletproofPlus"

text \<open>
  Members that are not saved are restored from others. The argument \<open>scalarmult_eighth\<close> is the
  multiplication of a point by the inverse of eight; it throws if the key is no point.
\<close>

definition restore_commitments :: "(bytes \<Rightarrow> bytes option) \<Rightarrow> nat \<Rightarrow> rctSig \<Rightarrow> rctSig call" where
  "restore_commitments scalarmult_eighth outputs rv =
    (let q = rct_p rv; commitments = those (map (\<lambda>c. scalarmult_eighth (ct_mask c)) (outPk rv))
     in if is_rct_bulletproof_plus (rct_type rv) then
          if length (bulletproofs_plus q) \<noteq> 1 then Refused
          else
            let bp = bulletproofs_plus q ! 0
            in if length (bpp_L bp) < 6 then Refused
               else if n_bulletproof_max_amounts_base (length (bpp_L bp)) (length (bpp_R bp)) < outputs then Refused
               else case commitments of
                 None \<Rightarrow> Thrown
               | Some V \<Rightarrow> Returned (rv\<lparr>rct_p := q\<lparr>bulletproofs_plus := [bp\<lparr>bpp_V := V\<rparr>]\<rparr>\<rparr>)
        else if is_rct_bulletproof (rct_type rv) then
          if length (bulletproofs q) \<noteq> 1 then Refused
          else
            let bp = bulletproofs q ! 0
            in if length (bp_L bp) < 6 then Refused
               else if 2 ^ (length (bp_L bp) - 6) < outputs then Refused
               else case commitments of
                 None \<Rightarrow> Thrown
               | Some V \<Rightarrow> Returned (rv\<lparr>rct_p := q\<lparr>bulletproofs := [bp\<lparr>bp_V := V\<rparr>]\<rparr>\<rparr>)
        else Returned rv)"

definition expand_transaction_1 :: "(bytes \<Rightarrow> bytes option) \<Rightarrow> transaction \<Rightarrow> bool \<Rightarrow> transaction call" where
  "expand_transaction_1 scalarmult_eighth tx base_only =
    (if tx_version tx \<ge> 2 \<and> \<not> is_coinbase tx then
       let rv = rct_signatures tx
       in if rct_type rv = RCTTypeNull then Returned tx
          else if length (outPk rv) \<noteq> length (vout tx) then Refused
          else case those (map get_output_public_key (vout tx)) of
            None \<Rightarrow> Refused
          | Some ks \<Rightarrow>
              let rv = rv\<lparr>outPk := map2 (\<lambda>k c. c\<lparr>ct_dest := k\<rparr>) ks (outPk rv)\<rparr>
              in if base_only then Returned (tx\<lparr>rct_signatures := rv\<rparr>)
                 else case restore_commitments scalarmult_eighth (length (vout tx)) rv of
                   Returned rv \<Rightarrow> Returned (tx\<lparr>rct_signatures := rv\<rparr>)
                 | Refused \<Rightarrow> Refused
                 | Thrown \<Rightarrow> Thrown
     else Returned tx)"

definition parse_and_validate_tx_from_blob :: "(bytes \<Rightarrow> bytes option) \<Rightarrow> bytes \<Rightarrow> transaction call" where
  "parse_and_validate_tx_from_blob scalarmult_eighth tx_blob =
    (case serialize ser_transaction tx_blob of
       None \<Rightarrow> Refused
     | Some tx \<Rightarrow> expand_transaction_1 scalarmult_eighth tx False)"

definition parse_and_validate_tx_base_from_blob :: "(bytes \<Rightarrow> bytes option) \<Rightarrow> bytes \<Rightarrow> transaction call" where
  "parse_and_validate_tx_base_from_blob scalarmult_eighth tx_blob =
    (case serialize_noeof ser_transaction_base tx_blob of
       None \<Rightarrow> Refused
     | Some tx \<Rightarrow> expand_transaction_1 scalarmult_eighth tx True)"

definition parse_and_validate_tx_prefix_from_blob :: "bytes \<Rightarrow> transaction_prefix option" where
  "parse_and_validate_tx_prefix_from_blob tx_blob = serialize_noeof ser_transaction_prefix tx_blob"

text \<open>
  Objects that cannot be written have no blob here; every transaction that was read can be written.
\<close>

definition tx_to_blob :: "transaction \<Rightarrow> bytes option" where
  "tx_to_blob tx = put ser_transaction tx"

definition get_blob_hash :: "bytes \<Rightarrow> bytes" where
  "get_blob_hash bl = cn_fast_hash bl"

definition get_transaction_prefix_hash :: "transaction_prefix \<Rightarrow> bytes option" where
  "get_transaction_prefix_hash tx = map_option cn_fast_hash (put ser_transaction_prefix tx)"

text \<open>
  Writing a transaction records the size of the prefix and that of the part that is not pruned, as
  32-bit integers. The latter stays 0 without inputs.
\<close>

definition recorded_sizes :: "transaction \<Rightarrow> (u32 \<times> u32) option" where
  "recorded_sizes tx =
    do { a \<leftarrow> put ser_transaction_prefix (transaction_prefix.truncate tx);
         if tx_version tx = 1 then Some (of_nat (length a), of_nat (length a))
         else if vin tx \<noteq> [] then
           do { b \<leftarrow> put (ser_rctsig_base (length (vin tx)) (length (vout tx))) (rctSigBase.truncate (rct_signatures tx));
                Some (of_nat (length a), of_nat (length a + length b)) }
         else Some (of_nat (length a), 0) }"

definition calculate_transaction_prunable_hash :: "transaction \<Rightarrow> u32 \<Rightarrow> bytes \<Rightarrow> bytes option" where
  "calculate_transaction_prunable_hash tx unprunable_size bl =
    (if tx_version tx = 1 then None
     else if unprunable_size \<noteq> 0 then
       if \<not> unat unprunable_size \<le> length bl then None else Some (get_blob_hash (drop (unat unprunable_size) bl))
     else
       map_option get_blob_hash
         (put (ser_rctsig_prunable (rct_type (rct_signatures tx)) (length (vin tx)) (length (vout tx)) (tx_mixin (vin tx)))
           (rct_p (rct_signatures tx))))"

definition calculate_transaction_hash :: "transaction \<Rightarrow> bytes option" where
  "calculate_transaction_hash tx =
    (if tx_version tx = 1 then map_option get_blob_hash (tx_to_blob tx)
     else
       do { h0 \<leftarrow> get_transaction_prefix_hash (transaction_prefix.truncate tx);
            bl \<leftarrow> tx_to_blob tx;
            (prefix_size, unprunable_size) \<leftarrow> recorded_sizes tx;
            if \<not> (prefix_size \<le> unprunable_size \<and> unat unprunable_size \<le> length bl) then None
            else
              do { let h1 = get_blob_hash (take (unat unprunable_size - unat prefix_size) (drop (unat prefix_size) bl));
                   h2 \<leftarrow> (if rct_type (rct_signatures tx) = RCTTypeNull then Some null_hash
                          else calculate_transaction_prunable_hash tx unprunable_size bl);
                   Some (cn_fast_hash (h0 @ h1 @ h2)) } })"

definition get_pruned_transaction_hash :: "transaction \<Rightarrow> bytes \<Rightarrow> bytes option" where
  "get_pruned_transaction_hash tx pruned_data_hash =
    (if \<not> tx_version tx > 1 then None
     else
       do { h0 \<leftarrow> get_transaction_prefix_hash (transaction_prefix.truncate tx);
            b \<leftarrow> put (ser_rctsig_base (length (vin tx)) (length (vout tx))) (rctSigBase.truncate (rct_signatures tx));
            let h2 = (if rct_type (rct_signatures tx) = RCTTypeNull then null_hash else pruned_data_hash);
            Some (cn_fast_hash (h0 @ get_blob_hash b @ h2)) })"

text \<open>The genesis transaction, the same for the three networks.\<close>

definition GENESIS_TX :: string where
  "GENESIS_TX = ''013c01ff000021017767aafcde9be00dcfd098715ebcf7f410daebc582fda69d24a28e9d0bc890d1''"

section \<open>Expanding changes nothing that is saved\<close>

lemma those_length: "those xs = Some ys \<Longrightarrow> length ys = length xs"
  by (induction xs arbitrary: ys) (auto split: option.splits)

lemma single_list: "length xs = 1 \<Longrightarrow> xs = [xs ! 0]"
  by (cases xs) auto

lemma map2_dest_mask: "length ks = length cs \<Longrightarrow> map ct_mask (map2 (\<lambda>k c. c\<lparr>ct_dest := k\<rparr>) ks cs) = map ct_mask cs"
  by (induction ks cs rule: list_induct2) simp_all

lemma put_Bulletproof_V: "put ser_Bulletproof (bp\<lparr>bp_V := V\<rparr>) = put ser_Bulletproof bp"
  by (simp add: ser_Bulletproof_def require_def object_def)

lemma put_BulletproofPlus_V: "put ser_BulletproofPlus (bp\<lparr>bpp_V := V\<rparr>) = put ser_BulletproofPlus bp"
  by (simp add: ser_BulletproofPlus_def require_def object_def)

lemma put_counted_single: "put s x = put s y \<Longrightarrow> put (counted c P s) [x] = put (counted c P s) [y]"
  by (cases "unat (of_nat 1 :: u32)") (simp_all add: counted_def object_put seq_def elements_def each_def)

lemma put_prunable_plus:
  assumes "bulletproofs_plus q = [bp]"
  shows "put (ser_rctsig_prunable ty i o1 m) (q\<lparr>bulletproofs_plus := [bp\<lparr>bpp_V := V\<rparr>]\<rparr>) = put (ser_rctsig_prunable ty i o1 m) q"
  using assms put_counted_single [OF put_BulletproofPlus_V]
  by (simp add: ser_rctsig_prunable_def ser_range_proofs_def object_put put_seq put_require n_bulletproof_plus_max_amounts_def
      refuse_def unsaved_def)

lemma put_prunable_bulletproof:
  assumes "bulletproofs q = [bp]"
  shows "put (ser_rctsig_prunable ty i o1 m) (q\<lparr>bulletproofs := [bp\<lparr>bp_V := V\<rparr>]\<rparr>) = put (ser_rctsig_prunable ty i o1 m) q"
  using assms put_counted_single [OF put_Bulletproof_V]
  by (simp add: ser_rctsig_prunable_def ser_range_proofs_def object_put put_seq put_require n_bulletproof_max_amounts_def
      refuse_def unsaved_def)

lemma put_rct_cong:
  assumes "map ct_mask cs = map ct_mask (outPk r)"
    and "\<And>ty. put (ser_rctsig_prunable ty i o1 m) q = put (ser_rctsig_prunable ty i o1 m) (rct_p r)"
  shows "put (ser_rctSig i o1 m) (r\<lparr>outPk := cs, rct_p := q\<rparr>) = put (ser_rctSig i o1 m) r"
  using assms by (simp add: ser_rctSig_def object_put put_seq ser_rctsig_base_def rctSigBase.defs unsaved_def)

lemma put_transaction_rct:
  assumes "\<And>i o1 m. put (ser_rctSig i o1 m) r = put (ser_rctSig i o1 m) (rct_signatures tx)"
  shows "put ser_transaction (tx\<lparr>rct_signatures := r\<rparr>) = put ser_transaction tx"
  using assms by (simp add: ser_transaction_def object_put put_seq ser_tx_signatures_def transaction_prefix.defs unsaved_def)

lemma restore_put:
  assumes "restore_commitments f n rv = Returned rv'"
  shows "\<exists>q. rv' = rv\<lparr>rct_p := q\<rparr> \<and> CLSAGs q = CLSAGs (rct_p rv) \<and> p_pseudoOuts q = p_pseudoOuts (rct_p rv)
    \<and> (\<forall>ty i o1 m. put (ser_rctsig_prunable ty i o1 m) q = put (ser_rctsig_prunable ty i o1 m) (rct_p rv))"
proof -
  let ?q = "rct_p rv"
  have "rv' = rv \<or> (\<exists>V. length (bulletproofs_plus ?q) = 1 \<and> rv' = rv\<lparr>rct_p := ?q\<lparr>bulletproofs_plus := [(bulletproofs_plus ?q ! 0)\<lparr>bpp_V := V\<rparr>]\<rparr>\<rparr>)
      \<or> (\<exists>V. length (bulletproofs ?q) = 1 \<and> rv' = rv\<lparr>rct_p := ?q\<lparr>bulletproofs := [(bulletproofs ?q ! 0)\<lparr>bp_V := V\<rparr>]\<rparr>\<rparr>)"
    using assms unfolding restore_commitments_def Let_def by (simp split: if_splits option.splits) blast+
  then show ?thesis
  proof (elim disjE exE conjE)
    assume "rv' = rv"
    then show ?thesis by (intro exI [of _ ?q]) simp
  next
    fix V assume "length (bulletproofs_plus ?q) = 1" and r: "rv' = rv\<lparr>rct_p := ?q\<lparr>bulletproofs_plus := [(bulletproofs_plus ?q ! 0)\<lparr>bpp_V := V\<rparr>]\<rparr>\<rparr>"
    then show ?thesis
      by (intro exI [of _ "?q\<lparr>bulletproofs_plus := [(bulletproofs_plus ?q ! 0)\<lparr>bpp_V := V\<rparr>]\<rparr>"] conjI allI put_prunable_plus single_list) simp_all
  next
    fix V assume "length (bulletproofs ?q) = 1" and r: "rv' = rv\<lparr>rct_p := ?q\<lparr>bulletproofs := [(bulletproofs ?q ! 0)\<lparr>bp_V := V\<rparr>]\<rparr>\<rparr>"
    then show ?thesis
      by (intro exI [of _ "?q\<lparr>bulletproofs := [(bulletproofs ?q ! 0)\<lparr>bp_V := V\<rparr>]\<rparr>"] conjI allI put_prunable_bulletproof single_list) simp_all
  qed
qed

lemma expand_cases:
  assumes "expand_transaction_1 f tx base_only = Returned tx'"
  shows "\<exists>cs q. tx' = tx\<lparr>rct_signatures := rct_signatures tx\<lparr>outPk := cs, rct_p := q\<rparr>\<rparr>
    \<and> map ct_mask cs = map ct_mask (outPk (rct_signatures tx))
    \<and> CLSAGs q = CLSAGs (rct_p (rct_signatures tx)) \<and> p_pseudoOuts q = p_pseudoOuts (rct_p (rct_signatures tx))
    \<and> (\<forall>ty i o1 m. put (ser_rctsig_prunable ty i o1 m) q = put (ser_rctsig_prunable ty i o1 m) (rct_p (rct_signatures tx)))"
proof (cases "tx' = tx")
  case True
  then show ?thesis by (intro exI [of _ "outPk (rct_signatures tx)"] exI [of _ "rct_p (rct_signatures tx)"]) simp
next
  case False
  let ?rv = "rct_signatures tx"
  from False assms obtain ks where ks: "those (map get_output_public_key (vout tx)) = Some ks" "length (outPk ?rv) = length (vout tx)"
    by (auto simp: expand_transaction_1_def Let_def split: if_splits option.splits)
  define cs where "cs = map2 (\<lambda>k c. c\<lparr>ct_dest := k\<rparr>) ks (outPk ?rv)"
  have cs: "map ct_mask cs = map ct_mask (outPk ?rv)" using map2_dest_mask [of ks "outPk ?rv"] those_length [OF ks(1)] ks(2) by (simp add: cs_def)
  obtain r where r: "tx' = tx\<lparr>rct_signatures := r\<rparr>" "r = ?rv\<lparr>outPk := cs\<rparr> \<or> restore_commitments f (length (vout tx)) (?rv\<lparr>outPk := cs\<rparr>) = Returned r"
    using False assms ks by (auto simp: expand_transaction_1_def Let_def cs_def split: if_splits call.splits)
  have "\<exists>q. r = ?rv\<lparr>outPk := cs, rct_p := q\<rparr> \<and> CLSAGs q = CLSAGs (rct_p ?rv) \<and> p_pseudoOuts q = p_pseudoOuts (rct_p ?rv)
      \<and> (\<forall>ty i o1 m. put (ser_rctsig_prunable ty i o1 m) q = put (ser_rctsig_prunable ty i o1 m) (rct_p ?rv))"
    using r(2)
  proof
    assume "r = ?rv\<lparr>outPk := cs\<rparr>"
    then show ?thesis by (intro exI [of _ "rct_p ?rv"]) simp
  next
    assume "restore_commitments f (length (vout tx)) (?rv\<lparr>outPk := cs\<rparr>) = Returned r"
    from restore_put [OF this] show ?thesis by simp
  qed
  then show ?thesis using cs r(1) by blast
qed

lemma expand_put:
  assumes "expand_transaction_1 f tx base_only = Returned tx'"
  shows "put ser_transaction tx' = put ser_transaction tx"
proof -
  from expand_cases [OF assms] obtain cs q where "tx' = tx\<lparr>rct_signatures := rct_signatures tx\<lparr>outPk := cs, rct_p := q\<rparr>\<rparr>"
      "map ct_mask cs = map ct_mask (outPk (rct_signatures tx))"
      "\<forall>ty i o1 m. put (ser_rctsig_prunable ty i o1 m) q = put (ser_rctsig_prunable ty i o1 m) (rct_p (rct_signatures tx))"
    by blast
  then show ?thesis using put_rct_cong [of cs "rct_signatures tx"] put_transaction_rct by simp
qed

lemma expand_fields:
  assumes "expand_transaction_1 f tx base_only = Returned tx'"
  shows "tx_version tx' = tx_version tx" "vin tx' = vin tx" "vout tx' = vout tx" "extra tx' = extra tx" "signatures tx' = signatures tx"
    "length (outPk (rct_signatures tx')) = length (outPk (rct_signatures tx))"
    "rct_type (rct_signatures tx') = rct_type (rct_signatures tx)" "ecdhInfo (rct_signatures tx') = ecdhInfo (rct_signatures tx)"
    "pseudoOuts (rct_signatures tx') = pseudoOuts (rct_signatures tx)"
    "CLSAGs (rct_p (rct_signatures tx')) = CLSAGs (rct_p (rct_signatures tx))"
    "p_pseudoOuts (rct_p (rct_signatures tx')) = p_pseudoOuts (rct_p (rct_signatures tx))"
    "tx_version tx = 1 \<Longrightarrow> tx' = tx"
proof -
  from expand_cases [OF assms] obtain cs q where "tx' = tx\<lparr>rct_signatures := rct_signatures tx\<lparr>outPk := cs, rct_p := q\<rparr>\<rparr>"
      "map ct_mask cs = map ct_mask (outPk (rct_signatures tx))"
      "CLSAGs q = CLSAGs (rct_p (rct_signatures tx))" "p_pseudoOuts q = p_pseudoOuts (rct_p (rct_signatures tx))"
    by blast
  then show "tx_version tx' = tx_version tx" "vin tx' = vin tx" "vout tx' = vout tx" "extra tx' = extra tx" "signatures tx' = signatures tx"
    "length (outPk (rct_signatures tx')) = length (outPk (rct_signatures tx))"
    "rct_type (rct_signatures tx') = rct_type (rct_signatures tx)" "ecdhInfo (rct_signatures tx') = ecdhInfo (rct_signatures tx)"
    "pseudoOuts (rct_signatures tx') = pseudoOuts (rct_signatures tx)"
    "CLSAGs (rct_p (rct_signatures tx')) = CLSAGs (rct_p (rct_signatures tx))"
    "p_pseudoOuts (rct_p (rct_signatures tx')) = p_pseudoOuts (rct_p (rct_signatures tx))"
    using map_eq_imp_length_eq by fastforce+
  show "tx_version tx = 1 \<Longrightarrow> tx' = tx" using assms by (simp add: expand_transaction_1_def word_le_nat_alt)
qed

lemma parse_cases:
  assumes "parse_and_validate_tx_from_blob f b = Returned tx'"
  obtains tx where "serialize ser_transaction b = Some tx" and "expand_transaction_1 f tx False = Returned tx'"
  using assms by (auto simp: parse_and_validate_tx_from_blob_def split: option.splits)

section \<open>The shape of what is read\<close>

lemma typed_transaction:
  assumes "typed ser_transaction tx"
  shows "typed ser_transaction_prefix (transaction_prefix.truncate tx)"
    and "typed (ser_tx_signatures (transaction_prefix.truncate tx)) (signatures tx, rct_signatures tx)"
  using assms by (simp_all add: ser_transaction_def typed_simps)

lemma typed_prefix:
  assumes "typed ser_transaction_prefix pre"
  shows "tx_version pre = 1 \<or> tx_version pre = 2" "length (vin pre) < 2 ^ 64" "list_all (typed ser_txin) (vin pre)"
proof -
  have v: "tx_version pre \<noteq> 0" "\<not> 2 < tx_version pre"
    using assms by (simp_all add: ser_transaction_prefix_def typed_simps CURRENT_TRANSACTION_VERSION_def)
  then have "unat (tx_version pre) \<noteq> 0" "\<not> 2 < unat (tx_version pre)" by (simp_all add: word_less_nat_alt unat_eq_0)
  then have "unat (tx_version pre) = 1 \<or> unat (tx_version pre) = 2" by linarith
  then show "tx_version pre = 1 \<or> tx_version pre = 2" by (auto simp: word_unat_eq_iff)
  show "length (vin pre) < 2 ^ 64" "list_all (typed ser_txin) (vin pre)"
    using assms by (simp_all add: ser_transaction_prefix_def typed_simps)
qed

lemma typed_txin_key: "typed ser_txin (Txin_to_key k) \<Longrightarrow> length (k_image k) = 32 \<and> length (key_offsets k) < 2 ^ 64"
  by (simp add: ser_txin_def variant_typed txin_alternatives_def ser_txin_to_key_def typed_simps)

lemma typed_signatures:
  "typed (ser_signatures is) sigs \<longleftrightarrow> list_all2 (\<lambda>i s. length s = get_signature_size i \<and> list_all (\<lambda>x. length x = 64) s) is sigs"
  by (simp add: ser_signatures_def each_def list_all2_map1 elements_typed blob_typed [abs_def])

lemma typed_rct_base:
  assumes "typed (ser_rctsig_base inputs outputs) b" and "rct_type b \<noteq> RCTTypeNull"
  shows "known_rct_type (rct_type b)" "length (ecdhInfo b) = outputs" "length (outPk b) = outputs"
    "length (pseudoOuts b) = (if rct_type b = RCTTypeSimple then inputs else 0)"
  using assms by (auto simp: ser_rctsig_base_def typed_simps split: if_splits)

lemma typed_rct_prunable:
  assumes "typed (ser_rctsig_prunable ty inputs outputs mixin) q" and "ty = RCTTypeCLSAG \<or> ty = RCTTypeBulletproofPlus"
  shows "length (CLSAGs q) = inputs" "\<forall>g \<in> set (CLSAGs q). length (clsag_s g) = unat (mixin + 1)" "length (p_pseudoOuts q) = inputs"
  using assms
  by (auto simp: ser_rctsig_prunable_def ser_ring_signatures_def ser_clsag_def typed_simps rct_types list_all_iff known_rct_type_def
      split: if_splits)

lemma typed_v1:
  assumes "typed ser_transaction tx" and "tx_version tx = 1"
  shows "rct_signatures tx = null_rct"
    "list_all2 (\<lambda>i s. length s = get_signature_size i \<and> list_all (\<lambda>x. length x = 64) s) (vin tx) (signatures tx)"
  using typed_transaction(2) [OF assms(1)] assms(2)
  by (simp_all add: ser_tx_signatures_def transaction_prefix.defs typed_simps typed_signatures)

lemma typed_v2:
  assumes "typed ser_transaction tx" and "tx_version tx \<noteq> 1"
  shows "signatures tx = []"
    "rct_type (rct_signatures tx) \<noteq> RCTTypeNull \<Longrightarrow> vin tx \<noteq> []
      \<and> typed (ser_rctsig_base (length (vin tx)) (length (vout tx))) (rctSigBase.truncate (rct_signatures tx))
      \<and> typed (ser_rctsig_prunable (rct_type (rct_signatures tx)) (length (vin tx)) (length (vout tx)) (tx_mixin (vin tx)))
          (rct_p (rct_signatures tx))"
  using typed_transaction(2) [OF assms(1)] assms(2)
  by (auto simp: ser_tx_signatures_def transaction_prefix.defs typed_simps ser_rctSig_def rctSigBase.defs null_rct_def split: if_splits)

lemma ring_size:
  assumes "typed ser_transaction tx" and "vin tx \<noteq> []" and "hd (vin tx) = Txin_to_key k"
  shows "unat (tx_mixin (vin tx) + 1) = length (key_offsets k)"
proof -
  have "typed ser_txin (Txin_to_key k)"
    using typed_prefix(3) [OF typed_transaction(1) [OF assms(1)]] assms(2,3)
    by (cases "vin tx") (auto simp: transaction_prefix.defs)
  then have "length (key_offsets k) < 2 ^ 64" using typed_txin_key by blast
  then show ?thesis using assms(2,3) by (cases "vin tx") (simp_all add: tx_mixin_def unat_of_nat)
qed

text \<open>The genesis transaction as a value.\<close>

definition genesis_extra :: bytes where
  "genesis_extra = [0x01, 0x77, 0x67, 0xaa, 0xfc, 0xde, 0x9b, 0xe0, 0x0d, 0xcf, 0xd0, 0x98, 0x71, 0x5e, 0xbc, 0xf7, 0xf4,
    0x10, 0xda, 0xeb, 0xc5, 0x82, 0xfd, 0xa6, 0x9d, 0x24, 0xa2, 0x8e, 0x9d, 0x0b, 0xc8, 0x90, 0xd1]"

definition genesis_tx :: transaction where
  "genesis_tx = \<lparr>tx_version = 1, unlock_time = 60, vin = [Txin_gen 0], vout = [], extra = genesis_extra,
    signatures = [[]], rct_signatures = null_rct\<rparr>"

lemma genesis_hex: "parse_hexstr_to_binbuff GENESIS_TX = Some ([1, 60, 1, 0xff, 0, 0, 33] @ genesis_extra)"
  by code_simp

lemma length_genesis_extra: "length genesis_extra = 33"
  by (simp add: genesis_extra_def)

lemma genesis_put: "put ser_transaction genesis_tx = Some ([1, 60, 1, 0xff, 0, 0, 33] @ genesis_extra)"
  by (simp add: put_simps ser_transaction_def ser_transaction_prefix_def ser_tx_signatures_def genesis_tx_def
      transaction_prefix.defs CURRENT_TRANSACTION_VERSION_def write_varint_last length_genesis_extra
      ser_txin_def txin_alternatives_def ser_signatures_def get_signature_size_def)

lemma genesis_typed: "typed ser_transaction genesis_tx"
  by (simp add: ser_transaction_def ser_transaction_prefix_def ser_tx_signatures_def typed_simps genesis_tx_def transaction_prefix.defs
      transaction.defs CURRENT_TRANSACTION_VERSION_def typed_signatures get_signature_size_def ser_txin_def variant_typed txin_alternatives_def
      length_genesis_extra list_all_iff)

section \<open>The id of a transaction\<close>

text \<open>The strings that are hashed on the way to the id.\<close>

definition tx_inputs :: "transaction \<Rightarrow> bytes set" where
  "tx_inputs tx =
    (if tx_version tx = 1 then {the (tx_to_blob tx)}
     else
       let a = the (put ser_transaction_prefix (transaction_prefix.truncate tx));
           b = the (put (ser_rctsig_base (length (vin tx)) (length (vout tx))) (rctSigBase.truncate (rct_signatures tx)));
           c = drop (length a + length b) (the (tx_to_blob tx));
           h = (if rct_type (rct_signatures tx) = RCTTypeNull then null_hash else cn_fast_hash c)
       in {a, b, c, cn_fast_hash a @ cn_fast_hash b @ h})"

lemma blob_parts:
  assumes "tx_to_blob tx = Some w" and "tx_version tx \<noteq> 1" and "vin tx \<noteq> []"
  shows "\<exists>a b c. put ser_transaction_prefix (transaction_prefix.truncate tx) = Some a
    \<and> put (ser_rctsig_base (length (vin tx)) (length (vout tx))) (rctSigBase.truncate (rct_signatures tx)) = Some b
    \<and> w = a @ b @ c \<and> (rct_type (rct_signatures tx) = RCTTypeNull \<longrightarrow> c = [])"
  using assms
  by (auto simp: tx_to_blob_def ser_transaction_def put_simps ser_tx_signatures_def ser_rctSig_def transaction_prefix.defs
      rctSigBase.defs split: bind_splits if_splits)

lemma tx_hash_parts:
  assumes "tx_to_blob tx = Some (a @ b @ c)" and "tx_version tx \<noteq> 1" and "vin tx \<noteq> []" and "length (a @ b @ c) < 2 ^ 32"
    and a: "put ser_transaction_prefix (transaction_prefix.truncate tx) = Some a"
    and b: "put (ser_rctsig_base (length (vin tx)) (length (vout tx))) (rctSigBase.truncate (rct_signatures tx)) = Some b"
    and "a \<noteq> []"
  shows "calculate_transaction_hash tx = Some (cn_fast_hash (cn_fast_hash a @ cn_fast_hash b
    @ (if rct_type (rct_signatures tx) = RCTTypeNull then null_hash else cn_fast_hash c)))"
proof -
  have u: "unat (of_nat (length a) :: u32) = length a" "unat (of_nat (length a + length b) :: u32) = length a + length b"
    using assms(4) by (simp_all add: unat_of_nat del: of_nat_add)
  have nz: "(of_nat (length a + length b) :: u32) \<noteq> 0" using u(2) assms(7) by (metis add_is_0 length_0_conv unat_0)
  have r: "recorded_sizes tx = Some (of_nat (length a), of_nat (length a + length b))"
    using assms by (simp add: recorded_sizes_def del: of_nat_add)
  show ?thesis
    using assms u nz unfolding calculate_transaction_hash_def r
    by (simp add: get_transaction_prefix_hash_def calculate_transaction_prunable_hash_def get_blob_hash_def word_le_nat_alt del: of_nat_add)
qed

lemma prefix_not_Nil: "put ser_transaction_prefix pre = Some a \<Longrightarrow> a \<noteq> []"
  by (auto simp: ser_transaction_prefix_def put_simps split: bind_splits if_splits)

lemma no_inputs_no_hash:
  assumes "tx_to_blob tx = Some w" and "tx_version tx \<noteq> 1" and "vin tx = []" and "length w < 2 ^ 32"
  shows "calculate_transaction_hash tx = None"
proof -
  obtain a where a: "put ser_transaction_prefix (transaction_prefix.truncate tx) = Some a" "w = a"
    using assms by (auto simp: tx_to_blob_def ser_transaction_def put_simps ser_tx_signatures_def transaction_prefix.defs split: bind_splits if_splits)
  then have "unat (of_nat (length a) :: u32) \<noteq> 0" using prefix_not_Nil [OF a(1)] assms(4) by (simp add: unat_of_nat)
  then show ?thesis using assms a
    by (simp add: calculate_transaction_hash_def recorded_sizes_def get_transaction_prefix_hash_def word_le_nat_alt)
qed

lemma cn_fast_hash_cases: "cn_fast_hash a = cn_fast_hash b \<Longrightarrow> a \<in> A \<Longrightarrow> b \<in> B \<Longrightarrow> a = b \<or> collision A B"
  by (auto simp: collision_def)

lemma tx_id_v1:
  assumes "typed ser_transaction tx1" and "typed ser_transaction tx2" and "tx_version tx1 = 1" and "tx_version tx2 = 1"
    and "calculate_transaction_hash tx1 = calculate_transaction_hash tx2"
  shows "tx1 = tx2 \<or> collision (tx_inputs tx1) (tx_inputs tx2)"
proof -
  obtain w1 w2 where w: "put ser_transaction tx1 = Some w1" "put ser_transaction tx2 = Some w2"
    using tx_full.put_typed assms(1,2) by blast
  then have "cn_fast_hash w1 = cn_fast_hash w2" using assms(3-5) by (simp add: calculate_transaction_hash_def tx_to_blob_def get_blob_hash_def)
  then have "w1 = w2 \<or> collision (tx_inputs tx1) (tx_inputs tx2)"
    by (rule cn_fast_hash_cases) (simp_all add: tx_inputs_def assms(3,4) tx_to_blob_def w)
  then show ?thesis using tx_full.put_inject [OF assms(1,2)] w by auto
qed

lemma tx_id_v2:
  assumes t: "typed ser_transaction tx1" "typed ser_transaction tx2" and v: "tx_version tx1 \<noteq> 1" "tx_version tx2 \<noteq> 1"
    and "tx_to_blob tx1 = Some w1" and "tx_to_blob tx2 = Some w2" and "length w1 < 2 ^ 32" and "length w2 < 2 ^ 32"
    and h: "calculate_transaction_hash tx1 = Some h" "calculate_transaction_hash tx2 = Some h"
  shows "tx1 = tx2 \<or> collision (tx_inputs tx1) (tx_inputs tx2)"
proof -
  have i: "vin tx1 \<noteq> []" "vin tx2 \<noteq> []" using no_inputs_no_hash assms by force+
  obtain a b c where p: "put ser_transaction_prefix (transaction_prefix.truncate tx1) = Some a"
      "put (ser_rctsig_base (length (vin tx1)) (length (vout tx1))) (rctSigBase.truncate (rct_signatures tx1)) = Some b"
      "w1 = a @ b @ c" "rct_type (rct_signatures tx1) = RCTTypeNull \<longrightarrow> c = []"
    using blob_parts [OF assms(5) v(1) i(1)] by blast
  obtain a' b' c' where p': "put ser_transaction_prefix (transaction_prefix.truncate tx2) = Some a'"
      "put (ser_rctsig_base (length (vin tx2)) (length (vout tx2))) (rctSigBase.truncate (rct_signatures tx2)) = Some b'"
      "w2 = a' @ b' @ c'" "rct_type (rct_signatures tx2) = RCTTypeNull \<longrightarrow> c' = []"
    using blob_parts [OF assms(6) v(2) i(2)] by blast
  let ?h = "if rct_type (rct_signatures tx1) = RCTTypeNull then null_hash else cn_fast_hash c"
  let ?h' = "if rct_type (rct_signatures tx2) = RCTTypeNull then null_hash else cn_fast_hash c'"
  let ?C = "collision (tx_inputs tx1) (tx_inputs tx2)"
  have I: "tx_inputs tx1 = {a, b, c, cn_fast_hash a @ cn_fast_hash b @ ?h}" "tx_inputs tx2 = {a', b', c', cn_fast_hash a' @ cn_fast_hash b' @ ?h'}"
    using v assms(5,6) p p' by (simp_all add: tx_inputs_def Let_def)
  have "cn_fast_hash (cn_fast_hash a @ cn_fast_hash b @ ?h) = cn_fast_hash (cn_fast_hash a' @ cn_fast_hash b' @ ?h')"
    using h tx_hash_parts [OF _ v(1) i(1) _ p(1,2) prefix_not_Nil [OF p(1)], of c]
      tx_hash_parts [OF _ v(2) i(2) _ p'(1,2) prefix_not_Nil [OF p'(1)], of c'] assms(5-8) p(3) p'(3) by simp
  from cn_fast_hash_cases [OF this, of "tx_inputs tx1" "tx_inputs tx2"]
  have "?C \<or> cn_fast_hash a = cn_fast_hash a' \<and> cn_fast_hash b = cn_fast_hash b' \<and> ?h = ?h'"
    unfolding I by (auto simp: length_cn_fast_hash)
  then have ab: "?C \<or> a = a' \<and> b = b' \<and> ?h = ?h'"
    using cn_fast_hash_cases [of a a' "tx_inputs tx1" "tx_inputs tx2"] cn_fast_hash_cases [of b b' "tx_inputs tx1" "tx_inputs tx2"]
    unfolding I by blast
  show ?thesis
  proof (cases ?C)
    case False
    then have e: "a = a'" "b = b'" "?h = ?h'" using ab by auto
    have "rct_type (rct_signatures tx1) = hd b" "rct_type (rct_signatures tx2) = hd b'"
      using p(2) p'(2) by (auto simp: ser_rctsig_base_def put_simps rctSigBase.defs split: bind_splits)
    then have "c = c'" using e p(4) p'(4) False cn_fast_hash_cases [of c c' "tx_inputs tx1" "tx_inputs tx2"]
      unfolding I by (auto split: if_splits)
    then have "w1 = w2" using e p(3) p'(3) by simp
    then show ?thesis using tx_full.put_inject [OF t] assms(5,6) by (simp add: tx_to_blob_def)
  qed simp
qed

section \<open>Blobs that are cut short\<close>

definition empty_tx :: transaction where
  "empty_tx = \<lparr>tx_version = 1, unlock_time = 0, vin = [], vout = [], extra = [], signatures = [], rct_signatures = null_rct\<rparr>"

lemma get_varint_Nil: "get varint_field [] = Some (0, [])"
  by (simp add: varint_field_def read_varint_def read_varint_bits_def)

lemma get_container_Nil: "get (container s) [] = Some ([], [])"
  by (simp add: container_def get_varint_Nil elements_def each_def)

lemma get_varint_one: "get varint_field [1] = Some (1 :: u64, [])"
  using item_varint64 wire.get_put [OF item_wire [OF item_varint64], of 1 "[1]" "[]"] by (simp add: simple_typed varint_put write_varint_last)

lemma cut_tx_read: "serialize ser_transaction [1] = Some empty_tx"
  by (simp add: serialize_def ser_transaction_def ser_transaction_prefix_def object_def seq_def require_def get_varint_one get_varint_Nil
      get_container_Nil CURRENT_TRANSACTION_VERSION_def ser_tx_signatures_def ser_signatures_def each_def unsaved_def empty_tx_def
      transaction_prefix.defs transaction.defs)

lemma cut_tx_put: "tx_to_blob empty_tx = Some [1, 0, 0, 0, 0]"
  by (simp add: tx_to_blob_def put_simps ser_transaction_def ser_transaction_prefix_def ser_tx_signatures_def empty_tx_def
      transaction_prefix.defs CURRENT_TRANSACTION_VERSION_def write_varint_last ser_signatures_def)

lemma tx_version_cases: "typed ser_transaction tx \<Longrightarrow> tx_version tx \<noteq> 1 \<Longrightarrow> tx_version tx = 2"
  using typed_prefix(1) [OF typed_transaction(1)] by (fastforce simp: transaction_prefix.defs)

section \<open>Properties\<close>

text \<open>
  C10. Transactions survive their blob: a transaction whose members have the sizes of their types and whose
  unsaved members are as constructed is written, and reading the blob gives the transaction with the
  unsaved members restored. The same blob is written for the restored transaction.
\<close>

theorem tx_blob_roundtrip:
  assumes "typed ser_transaction tx"
  shows "\<exists>b. tx_to_blob tx = Some b
    \<and> parse_and_validate_tx_from_blob f b = expand_transaction_1 f tx False
    \<and> (\<forall>tx'. parse_and_validate_tx_from_blob f b = Returned tx' \<longrightarrow> tx_to_blob tx' = Some b)"
proof -
  obtain b where b: "put ser_transaction tx = Some b" using tx_full.put_typed [OF assms] by blast
  then have e: "parse_and_validate_tx_from_blob f b = expand_transaction_1 f tx False"
    by (simp add: parse_and_validate_tx_from_blob_def tx_full.serialize_put [OF assms b])
  then have "tx_to_blob tx' = Some b" if "parse_and_validate_tx_from_blob f b = Returned tx'" for tx'
    using expand_put [of f tx False tx'] that b by (simp add: tx_to_blob_def)
  then show ?thesis using b e by (auto simp: tx_to_blob_def)
qed

theorem tx_blob_roundtrip_witness:
  "\<exists>b. tx_to_blob genesis_tx = Some b \<and> parse_and_validate_tx_from_blob Some b = Returned genesis_tx"
  using tx_blob_roundtrip [OF genesis_typed, of Some] by (auto simp: expand_transaction_1_def genesis_tx_def word_le_nat_alt)

text \<open>
  C11. What every transaction that is read looks like. It can be written; its version is 1 or 2; key images
  have 32 bytes. Version 1: for each input as many signatures of 64 bytes as the input has ring members,
  and no ring confidential part. Version 2: no such signatures, and unless the type is null, a commitment
  and an encrypted amount for each output; for the current types also a ring signature and a pseudo output
  for each input, the signatures with as many scalars as the first input has ring members.
\<close>

theorem parsed_tx_shape:
  assumes "parse_and_validate_tx_from_blob f b = Returned tx"
  shows "(\<exists>w. tx_to_blob tx = Some w) \<and> (tx_version tx = 1 \<or> tx_version tx = 2)
    \<and> (\<forall>k. Txin_to_key k \<in> set (vin tx) \<longrightarrow> length (k_image k) = 32)
    \<and> (tx_version tx = 1 \<longrightarrow> rct_signatures tx = null_rct
        \<and> list_all2 (\<lambda>i s. length s = get_signature_size i \<and> list_all (\<lambda>x. length x = 64) s) (vin tx) (signatures tx))
    \<and> (tx_version tx = 2 \<longrightarrow> signatures tx = []
        \<and> (rct_type (rct_signatures tx) \<noteq> RCTTypeNull \<longrightarrow> vin tx \<noteq> [] \<and> known_rct_type (rct_type (rct_signatures tx))
            \<and> length (outPk (rct_signatures tx)) = length (vout tx) \<and> length (ecdhInfo (rct_signatures tx)) = length (vout tx))
        \<and> (rct_type (rct_signatures tx) \<in> {RCTTypeCLSAG, RCTTypeBulletproofPlus} \<longrightarrow>
            length (CLSAGs (rct_p (rct_signatures tx))) = length (vin tx)
            \<and> length (p_pseudoOuts (rct_p (rct_signatures tx))) = length (vin tx)
            \<and> (\<forall>g \<in> set (CLSAGs (rct_p (rct_signatures tx))). \<forall>k. hd (vin tx) = Txin_to_key k \<longrightarrow>
                  length (clsag_s g) = length (key_offsets k))))"
proof -
  obtain tx0 where r: "serialize ser_transaction b = Some tx0" and x: "expand_transaction_1 f tx0 False = Returned tx"
    using assms by (rule parse_cases)
  note t = tx_full.serialize_typed [OF r]
  let ?rv = "rct_signatures tx0"
  have w: "\<exists>w. tx_to_blob tx = Some w" using tx_full.put_typed [OF t] expand_put [OF x] by (simp add: tx_to_blob_def)
  have i: "length (k_image k) = 32" if "Txin_to_key k \<in> set (vin tx0)" for k
    using that typed_prefix(3) [OF typed_transaction(1) [OF t]] typed_txin_key by (auto simp: transaction_prefix.defs list_all_iff)
  have ver: "tx_version tx0 = 1 \<or> tx_version tx0 = 2"
    using typed_prefix(1) [OF typed_transaction(1) [OF t]] by (simp add: transaction_prefix.defs)
  have base: "known_rct_type (rct_type ?rv) \<and> length (outPk ?rv) = length (vout tx0) \<and> length (ecdhInfo ?rv) = length (vout tx0) \<and> vin tx0 \<noteq> []"
    if "tx_version tx0 = 2" "rct_type ?rv \<noteq> RCTTypeNull"
    using typed_v2(2) [OF t] typed_rct_base [of _ _ "rctSigBase.truncate ?rv"] that by (auto simp: rctSigBase.defs)
  have ring: "length (CLSAGs (rct_p ?rv)) = length (vin tx0) \<and> length (p_pseudoOuts (rct_p ?rv)) = length (vin tx0)
      \<and> (\<forall>g \<in> set (CLSAGs (rct_p ?rv)). length (clsag_s g) = unat (tx_mixin (vin tx0) + 1)) \<and> vin tx0 \<noteq> []"
    if "tx_version tx0 = 2" "rct_type ?rv \<in> {RCTTypeCLSAG, RCTTypeBulletproofPlus}"
    using typed_v2(2) [OF t] typed_rct_prunable [of "rct_type ?rv" _ _ _ "rct_p ?rv"] that by (auto simp: rct_types)
  show ?thesis unfolding expand_fields(1-11) [OF x]
    using w i ver base ring typed_v1 [OF t] typed_v2(1) [OF t] ring_size [OF t] expand_fields(12) [OF x] by auto
qed

theorem parsed_tx_shape_witness:
  "parse_and_validate_tx_from_blob Some [1] = Returned empty_tx \<and> rct_signatures empty_tx = null_rct"
proof -
  have p: "parse_and_validate_tx_from_blob Some [1] = Returned empty_tx"
    by (simp add: parse_and_validate_tx_from_blob_def cut_tx_read expand_transaction_1_def empty_tx_def word_le_nat_alt)
  then show ?thesis using parsed_tx_shape [OF p] by (simp add: empty_tx_def)
qed

text \<open>
  C19. The blob of a transaction is the only one that is read as that transaction, if the transaction has
  extra bytes or is of version 2 with inputs. Others can be cut short: integers whose bytes are missing at
  the end of the input read as 0, so that the blob with the single byte 1 is a transaction.
\<close>

theorem tx_blob_canonical:
  shows "(\<forall>b tx. parse_and_validate_tx_from_blob f b = Returned tx \<longrightarrow>
      extra tx \<noteq> [] \<or> tx_version tx = 2 \<and> vin tx \<noteq> [] \<longrightarrow> tx_to_blob tx = Some b)
    \<and> parse_and_validate_tx_from_blob f [1] = Returned empty_tx \<and> tx_to_blob empty_tx = Some [1, 0, 0, 0, 0]"
proof (intro conjI allI impI)
  fix b tx
  assume "parse_and_validate_tx_from_blob f b = Returned tx"
    and c: "extra tx \<noteq> [] \<or> tx_version tx = 2 \<and> vin tx \<noteq> []"
  then obtain tx0 where r: "serialize ser_transaction b = Some tx0" and x: "expand_transaction_1 f tx0 False = Returned tx"
    using parse_cases by blast
  have "strict_at ser_transaction tx0" using c by (intro strict_at_transaction) (auto simp: expand_fields(1,2,4) [OF x])
  then show "tx_to_blob tx = Some b"
    using serialize_strict_at [OF item_wire [OF item_transaction] r] expand_put [OF x] by (simp add: tx_to_blob_def)
next
  show "parse_and_validate_tx_from_blob f [1] = Returned empty_tx"
    by (simp add: parse_and_validate_tx_from_blob_def cut_tx_read expand_transaction_1_def empty_tx_def word_le_nat_alt)
  show "tx_to_blob empty_tx = Some [1, 0, 0, 0, 0]" by (rule cut_tx_put)
qed

theorem tx_blob_canonical_witness:
  "parse_and_validate_tx_from_blob Some [1] = Returned empty_tx \<and> tx_to_blob empty_tx \<noteq> Some [1]"
  using tx_blob_canonical [of Some] by simp



end
