(* ===== verification/Miner_Tx.thy ===== *)
theory Miner_Tx
  imports Block_Weight Tx_Id
begin

text \<open>
  The miner transaction of a block and the coins it creates: \<open>prevalidate_miner_transaction\<close> and
  \<open>validate_miner_transaction\<close> of \<open>src/cryptonote_core/blockchain.cpp\<close> with the helpers they call in
  \<open>src/cryptonote_basic/cryptonote_format_utils.cpp\<close>, and the count of generated coins along a chain.

  The lemmas show what the two checks accept, and that along every chain of accepted blocks the count
  is exactly what the miner transactions created beyond the fees, and stays below the schedule.
\<close>

section \<open>Definitions\<close>

definition CRYPTONOTE_MINED_MONEY_UNLOCK_WINDOW :: u64 where "CRYPTONOTE_MINED_MONEY_UNLOCK_WINDOW = 60"
definition HF_VERSION_MIN_V2_COINBASE_TX :: u8 where "HF_VERSION_MIN_V2_COINBASE_TX = 12"
definition HF_VERSION_REJECT_SIGS_IN_COINBASE :: u8 where "HF_VERSION_REJECT_SIGS_IN_COINBASE = 12"
definition HF_VERSION_EFFECTIVE_SHORT_TERM_MEDIAN_IN_PENALTY :: u8 where
  "HF_VERSION_EFFECTIVE_SHORT_TERM_MEDIAN_IN_PENALTY = 12"
definition HF_VERSION_EXACT_COINBASE :: u8 where "HF_VERSION_EXACT_COINBASE = 13"
definition HF_VERSION_VIEW_TAGS :: u8 where "HF_VERSION_VIEW_TAGS = 15"

fun outs_overflow_loop :: "u64 \<Rightarrow> tx_out list \<Rightarrow> bool" where
  "outs_overflow_loop money [] = True"
| "outs_overflow_loop money (o1 # os) =
    (if money > amount o1 + money then False else outs_overflow_loop (money + amount o1) os)"

definition check_outs_overflow :: "transaction \<Rightarrow> bool" where
  "check_outs_overflow tx = outs_overflow_loop 0 (vout tx)"

definition check_output_types :: "transaction \<Rightarrow> u8 \<Rightarrow> bool" where
  "check_output_types tx hf_version = list_all (\<lambda>o1.
    if hf_version > HF_VERSION_VIEW_TAGS then is_Txout_to_tagged_key (out_target o1)
    else if hf_version < HF_VERSION_VIEW_TAGS then is_Txout_to_key (out_target o1)
    else (is_Txout_to_key (out_target o1) \<or> is_Txout_to_tagged_key (out_target o1))
      \<and> txout_tag (out_target o1) = txout_tag (out_target (vout tx ! 0))) (vout tx)"

text \<open>The table of the amounts with one non-zero digit; it is sorted, so that the search finds what it has.\<close>

definition valid_decomposed_outputs :: "u64 list" where
  "valid_decomposed_outputs = concat (map (\<lambda>k. map (\<lambda>d. of_nat d * 10 ^ k) [1..<10]) [0..<19]) @ [10 ^ 19]"

definition is_valid_decomposed_amount :: "u64 \<Rightarrow> bool" where
  "is_valid_decomposed_amount a \<longleftrightarrow> a \<in> set valid_decomposed_outputs"

definition get_block_height :: "transaction \<Rightarrow> u64" where
  "get_block_height tx =
    (if length (vin tx) \<noteq> 1 then 0
     else case vin tx ! 0 of Txin_gen h \<Rightarrow> h | _ \<Rightarrow> 0)"

definition prevalidate_miner_transaction :: "transaction \<Rightarrow> u64 \<Rightarrow> u8 \<Rightarrow> bool" where
  "prevalidate_miner_transaction tx height hf_version =
    (if length (vin tx) \<noteq> 1 then False
     else case vin tx ! 0 of
            Txin_gen h \<Rightarrow>
              if \<not> (tx_version tx > 1 \<or> hf_version < HF_VERSION_MIN_V2_COINBASE_TX) then False
              else if hf_version \<ge> HF_VERSION_REJECT_SIGS_IN_COINBASE \<and> tx_version tx \<ge> 2 \<and> rct_type (rct_signatures tx) \<noteq> RCTTypeNull then False
              else if h \<noteq> height then False
              else if unlock_time tx \<noteq> height + CRYPTONOTE_MINED_MONEY_UNLOCK_WINDOW then False
              else if \<not> check_outs_overflow tx then False
              else check_output_types tx hf_version
          | _ \<Rightarrow> False)"

definition money_of :: "tx_out list \<Rightarrow> u64" where
  "money_of os = fold (\<lambda>o1 money. money + amount o1) os 0"

text \<open>
  The base reward that is accounted for and whether it is partial, or \<open>None\<close> for a rejected
  transaction. The median of the weight state and the weights of the last blocks are arguments.
\<close>

definition validate_miner_transaction ::
  "transaction \<Rightarrow> u64 \<Rightarrow> u64 \<Rightarrow> u64 \<Rightarrow> u64 \<Rightarrow> u64 list \<Rightarrow> u8 \<Rightarrow> (u64 \<times> bool) option" where
  "validate_miner_transaction tx cumulative_block_weight fee already_generated_coins weight_median last_blocks_weights version =
    (let money_in_use = money_of (vout tx)
     in if version = 3 \<and> \<not> list_all (\<lambda>o1. is_valid_decomposed_amount (amount o1)) (vout tx) then None
        else
          let median_weight =
            (if version \<ge> HF_VERSION_EFFECTIVE_SHORT_TERM_MEDIAN_IN_PENALTY then weight_median else median last_blocks_weights)
          in case get_block_reward median_weight cumulative_block_weight already_generated_coins version (get_block_height tx) of
               None \<Rightarrow> None
             | Some base_reward \<Rightarrow>
                 if base_reward + fee < money_in_use then None
                 else if version < 2 \<or> version \<ge> HF_VERSION_EXACT_COINBASE then
                   if base_reward + fee \<noteq> money_in_use then None else Some (base_reward, False)
                 else if \<not> money_in_use - fee \<le> base_reward then None
                 else Some (money_in_use - fee, base_reward + fee \<noteq> money_in_use))"

text \<open>
  Chains: the height, the coins counted by the node, and what the blocks so far created beyond the
  fees they collected. A block is any block that the two checks accept, with any weight, any fork
  version, a median that the block size rules allow, and fees that exist as coins.
\<close>

definition outputs_total :: "tx_out list \<Rightarrow> nat" where
  "outputs_total os = sum_list (map (\<lambda>o1. unat (amount o1)) os)"

inductive mined :: "nat \<Rightarrow> u64 \<Rightarrow> int \<Rightarrow> bool" where
  empty: "mined 0 0 0"
| block: "mined (Suc h) (next_generated_coins coins base_reward) (created + int (outputs_total (vout tx)) - int (unat fee))"
    if "mined h coins created" and "Suc h < 2 ^ 64"
      and "prevalidate_miner_transaction tx (of_nat h) version"
      and "validate_miner_transaction tx weight fee coins weight_median last_weights version = Some (base_reward, partial)"
      and "unat weight_median \<le> 2 ^ 32" and "\<forall>w \<in> set last_weights. unat w \<le> 2 ^ 32"
      and "fee \<le> MONEY_SUPPLY"

section \<open>Sums of amounts\<close>

lemma money_of_fold: "unat (fold (\<lambda>o1 money. money + amount o1) os m) = (unat m + outputs_total os) mod 2 ^ 64"
proof (induction os arbitrary: m)
  case (Cons o1 os)
  have "unat (m + amount o1) = (unat m + unat (amount o1)) mod 2 ^ 64" by (simp add: unat_word_ariths)
  then show ?case using Cons.IH [of "m + amount o1"] by (simp add: outputs_total_def mod_add_left_eq add.assoc)
qed (simp add: outputs_total_def)

lemma outs_overflow_loop_iff: "outs_overflow_loop m os \<longleftrightarrow> unat m + outputs_total os < 2 ^ 64"
proof (induction os arbitrary: m)
  case (Cons o1 os)
  show ?case
  proof (cases "unat m + unat (amount o1) < 2 ^ 64")
    case True
    then have s: "unat (m + amount o1) = unat m + unat (amount o1)" by (simp add: unat_add_no_overflow)
    then have "\<not> m > amount o1 + m" by (simp add: word_less_nat_alt add.commute)
    then show ?thesis using Cons.IH [of "m + amount o1"] s by (simp add: outputs_total_def add.assoc)
  next
    case False
    then have "unat (m + amount o1) = unat m + unat (amount o1) - 2 ^ 64"
      using unat_u64_less [of m] unat_u64_less [of "amount o1"]
      by (simp add: unat_word_ariths mod_if del: unat_u64_less)
    then have "m > amount o1 + m" using False unat_u64_less [of "amount o1"]
      by (simp add: word_less_nat_alt add.commute del: unat_u64_less)
    then show ?thesis using False by (simp add: outputs_total_def)
  qed
qed (simp add: outputs_total_def)

lemma money_exact:
  assumes "check_outs_overflow tx"
  shows "unat (money_of (vout tx)) = outputs_total (vout tx)"
  using assms money_of_fold [of "vout tx" 0] outs_overflow_loop_iff [of 0 "vout tx"]
  by (simp add: check_outs_overflow_def money_of_def)

lemma prevalidate_facts:
  assumes "prevalidate_miner_transaction tx height hf"
  shows "check_outs_overflow tx" and "get_block_height tx = height" and "unlock_time tx = height + 60"
    and "check_output_types tx hf"
  using assms by (auto simp: prevalidate_miner_transaction_def get_block_height_def CRYPTONOTE_MINED_MONEY_UNLOCK_WINDOW_def
      split: if_splits txin_v.splits)

section \<open>One block\<close>

lemma median_bound:
  assumes "\<forall>w \<in> set ws. unat w \<le> b"
  shows "unat (median ws) \<le> b"
proof (cases "ws = []")
  case True
  then show ?thesis by (simp add: median_def)
next
  case False
  have "\<exists>x \<in> set ws. unat (median ws) \<le> unat x"
  proof (rule ccontr)
    assume "\<not> (\<exists>x \<in> set ws. unat (median ws) \<le> unat x)"
    then have "filter (\<lambda>x. median_nat (map unat ws) \<le> x) (map unat ws) = []" by (auto simp: unat_median filter_empty_conv)
    then show False using median_nat_halves(2) [of "map unat ws"] False by simp
  qed
  then show ?thesis using assms order.trans by blast
qed

lemma block_reward_small:
  assumes "get_block_reward (if version \<ge> HF_VERSION_EFFECTIVE_SHORT_TERM_MEDIAN_IN_PENALTY then wm else median ws)
      weight coins version h = Some b"
    and "coins \<le> MONEY_SUPPLY" and "unat wm \<le> 2 ^ 32" and "\<forall>w \<in> set ws. unat w \<le> 2 ^ 32"
  shows "unat b \<le> unat (base_block_reward coins h)" and "unat b \<le> 10000000000000000"
proof -
  let ?m = "if version \<ge> HF_VERSION_EFFECTIVE_SHORT_TERM_MEDIAN_IN_PENALTY then wm else median ws"
  have "unat (get_min_block_weight version) \<le> 2 ^ 32"
    by (simp add: get_min_block_weight_def CRYPTONOTE_BLOCK_GRANTED_FULL_REWARD_ZONE_V1_def
        CRYPTONOTE_BLOCK_GRANTED_FULL_REWARD_ZONE_V2_def CRYPTONOTE_BLOCK_GRANTED_FULL_REWARD_ZONE_V5_def)
  moreover have "unat ?m \<le> 2 ^ 32" using assms(3) median_bound [OF assms(4)] by simp
  ultimately have "unat (effective_median ?m version) \<le> 2 ^ 32" by (simp only: effective_median_def unat_max max.bounded_iff simp_thms)
  then show le: "unat b \<le> unat (base_block_reward coins h)" by (rule get_block_reward_le_base [OF assms(1)])
  show "unat b \<le> 10000000000000000"
    using le base_block_reward_cap [OF assms(2), of h] by (simp add: MONEY_SUPPLY_def word_le_nat_alt)
qed

lemma unat_reward_plus_fee:
  fixes b fee :: u64
  assumes "unat b \<le> 10000000000000000" and "fee \<le> MONEY_SUPPLY"
  shows "unat (b + fee) = unat b + unat fee"
proof -
  have "unat fee \<le> 10000000000000000" using assms(2) by (simp add: MONEY_SUPPLY_def word_le_nat_alt)
  then show ?thesis using assms(1) by (intro unat_add_no_overflow) simp
qed

text \<open>The difference of outputs and fee wraps around exactly if the outputs do not cover the fee.\<close>

lemma money_minus_fee:
  fixes b fee money :: u64
  assumes "unat b \<le> 10000000000000000" and "fee \<le> MONEY_SUPPLY"
  shows "money - fee \<le> b \<longleftrightarrow> unat fee \<le> unat money \<and> unat money \<le> unat b + unat fee"
    and "unat fee \<le> unat money \<Longrightarrow> unat (money - fee) = unat money - unat fee"
proof -
  have f: "unat fee \<le> 10000000000000000" using assms(2) by (simp add: MONEY_SUPPLY_def word_le_nat_alt)
  show sub: "unat (money - fee) = unat money - unat fee" if "unat fee \<le> unat money"
    using that by (simp add: unat_sub_no_underflow)
  show "money - fee \<le> b \<longleftrightarrow> unat fee \<le> unat money \<and> unat money \<le> unat b + unat fee"
  proof (cases "unat fee \<le> unat money")
    case True
    then show ?thesis using sub by (auto simp: word_le_nat_alt)
  next
    case False
    then have "unat (money - fee) = 2 ^ 64 + unat money - unat fee"
      by (simp add: unat_sub_if_size word_size word_le_nat_alt)
    then show ?thesis using False assms(1) f by (simp add: word_le_nat_alt)
  qed
qed

text \<open>The base reward of an accepted transaction is what its outputs hold beyond the fee.\<close>

lemma validate_cases:
  assumes "check_outs_overflow tx" and "coins \<le> MONEY_SUPPLY" and "fee \<le> MONEY_SUPPLY"
    and "unat wm \<le> 2 ^ 32" and "\<forall>w \<in> set ws. unat w \<le> 2 ^ 32"
    and "b = get_block_reward (if version \<ge> HF_VERSION_EFFECTIVE_SHORT_TERM_MEDIAN_IN_PENALTY then wm else median ws)
      weight coins version (get_block_height tx)"
  shows "map_option (unat \<circ> fst) (validate_miner_transaction tx weight fee coins wm ws version) =
    (let paid = outputs_total (vout tx); exact = version < 2 \<or> version \<ge> 13
     in if b \<noteq> None \<and> (version = 3 \<longrightarrow> list_all (\<lambda>o1. is_valid_decomposed_amount (amount o1)) (vout tx))
          \<and> unat fee \<le> paid \<and> paid \<le> unat (the b) + unat fee \<and> (exact \<longrightarrow> paid = unat (the b) + unat fee)
        then Some (paid - unat fee) else None)"
proof (cases b)
  case None
  then show ?thesis using assms(6) by (simp add: validate_miner_transaction_def Let_def)
next
  case (Some base)
  note r = assms(6) [unfolded Some, symmetric]
  let ?money = "money_of (vout tx)"
  have small: "unat base \<le> 10000000000000000" by (rule block_reward_small(2) [OF r assms(2,4,5)])
  have s: "unat (base + fee) = unat base + unat fee" using small assms(3) by (rule unat_reward_plus_fee)
  have m: "unat ?money = outputs_total (vout tx)" using assms(1) by (rule money_exact)
  note d = money_minus_fee [OF small assms(3), of ?money, unfolded m]
  have e: "base + fee = ?money \<longleftrightarrow> outputs_total (vout tx) = unat base + unat fee"
    using s m by (auto simp: word_unat_eq_iff)
  have l: "base + fee < ?money \<longleftrightarrow> unat base + unat fee < outputs_total (vout tx)" using s m by (simp add: word_less_nat_alt)
  show ?thesis
  proof (cases "version < 2 \<or> version \<ge> 13")
    case True
    then show ?thesis using Some r e l
      by (auto simp: validate_miner_transaction_def HF_VERSION_EXACT_COINBASE_def Let_def)
  next
    case False
    then show ?thesis using Some r d l
      by (auto simp: validate_miner_transaction_def HF_VERSION_EXACT_COINBASE_def Let_def not_less)
  qed
qed

lemma validate_exact:
  assumes v: "validate_miner_transaction tx weight fee coins wm ws version = Some (r, partial)"
    and "check_outs_overflow tx" and "coins \<le> MONEY_SUPPLY" and "fee \<le> MONEY_SUPPLY"
    and "unat wm \<le> 2 ^ 32" and "\<forall>w \<in> set ws. unat w \<le> 2 ^ 32"
  shows "outputs_total (vout tx) = unat r + unat fee" and "unat r \<le> unat (base_block_reward coins (get_block_height tx))"
proof -
  define b where "b = get_block_reward (if version \<ge> HF_VERSION_EFFECTIVE_SHORT_TERM_MEDIAN_IN_PENALTY then wm else median ws)
    weight coins version (get_block_height tx)"
  note c = validate_cases [OF assms(2-6) b_def, unfolded v Let_def]
  obtain base where base: "b = Some base" using c by (cases b) auto
  have "unat fee \<le> outputs_total (vout tx)" "outputs_total (vout tx) \<le> unat base + unat fee" "unat r = outputs_total (vout tx) - unat fee"
    using c base by (auto split: if_splits)
  moreover have "unat base \<le> unat (base_block_reward coins (get_block_height tx))"
    using block_reward_small(1) [OF b_def [unfolded base, symmetric] assms(3,5,6)] .
  ultimately show "outputs_total (vout tx) = unat r + unat fee" "unat r \<le> unat (base_block_reward coins (get_block_height tx))"
    by simp_all
qed

section \<open>Chains\<close>

lemma mined_coins:
  assumes "mined h coins created"
  shows "coins \<le> MONEY_SUPPLY \<and> int (unat coins) = created \<and> unat coins \<le> (\<Sum>i<h. era_reward i)"
  using assms
proof (induction rule: mined.induct)
  case empty
  show ?case by (simp add: MONEY_SUPPLY_def)
next
  case (block h coins created tx version weight fee weight_median last_weights base_reward partial)
  note p = prevalidate_facts [OF block.hyps(3)]
  have c: "coins \<le> MONEY_SUPPLY" using block.IH by simp
  note e = validate_exact [OF block.hyps(4) p(1) c block.hyps(7,5,6)]
  have h: "unat (of_nat h :: u64) = h" using block.hyps(2) by (simp add: unat_of_nat take_bit_nat_eq_self)
  have cap: "unat coins + unat base_reward \<le> unat MONEY_SUPPLY"
    using e(2) base_block_reward_cap [OF c, of "get_block_height tx"] by simp
  then have n: "unat (next_generated_coins coins base_reward) = unat coins + unat base_reward"
    using unat_next_generated_coins [OF c, of base_reward] by simp
  have "unat coins \<le> 10000000000000000" using c by (simp add: MONEY_SUPPLY_def word_le_nat_alt)
  then have "unat base_reward \<le> era_reward h"
    using e(2) unat_base_block_reward [of coins "of_nat h"] h unfolding p(2) by simp
  then show ?case using block.IH e(1) n cap by (simp add: word_le_nat_alt)
qed

lemma schedule_total: "(\<Sum>i<h. era_reward i) = (\<Sum>i<h. if i = 0 then 0 else 100 * unat COIN div 2 ^ (i div 500000))"
proof -
  have "100 * unat COIN = 10000000000" by (simp add: COIN_def)
  then show ?thesis by (simp only: era_reward_def)
qed

text \<open>The genesis transaction.\<close>

lemma genesis_prevalidates: "prevalidate_miner_transaction genesis_tx 0 1"
  by (simp add: prevalidate_miner_transaction_def genesis_tx_def check_outs_overflow_def check_output_types_def
      HF_VERSION_MIN_V2_COINBASE_TX_def HF_VERSION_REJECT_SIGS_IN_COINBASE_def CRYPTONOTE_MINED_MONEY_UNLOCK_WINDOW_def null_rct_def)

lemma genesis_validates: "validate_miner_transaction genesis_tx 40 0 0 0 [] 1 = Some (0, False)"
proof -
  have "40 \<le> effective_median (median []) 1"
    by (simp add: effective_median_def median_def get_min_block_weight_def CRYPTONOTE_BLOCK_GRANTED_FULL_REWARD_ZONE_V1_def)
  then have "get_block_reward (median []) 40 0 1 0 = Some 0"
    by (simp add: get_block_reward_light base_block_reward_def)
  then show ?thesis
    by (simp add: validate_miner_transaction_def genesis_tx_def get_block_height_def money_of_def
        HF_VERSION_EFFECTIVE_SHORT_TERM_MEDIAN_IN_PENALTY_def Let_def word_le_nat_alt)
qed

section \<open>Properties\<close>






end
