(* ===== verification/Block_Blob.thy ===== *)
theory Block_Blob
  imports Tx_Id
begin

text \<open>
  Blocks, their binary form and their id: \<open>block_header\<close> and \<open>block\<close> of
  \<open>src/cryptonote_basic/cryptonote_basic.h\<close>, and \<open>get_block_hashing_blob\<close>, \<open>calculate_block_hash\<close>,
  \<open>parse_and_validate_block_from_blob\<close> and the hash of the transactions of a block of
  \<open>src/cryptonote_basic/cryptonote_format_utils.cpp\<close>. It composes the serialisers, the transaction id, the
  hash tree and the hash. The id that a block object caches is left out.

  The lemmas show that a block is read back from its blob, which other blob a block without transactions
  has, and that the id determines the block unless two different strings that were hashed have the same hash.
\<close>

section \<open>Definitions\<close>

record block_header =
  major_version :: u8
  minor_version :: u8
  timestamp :: u64
  prev_id :: bytes
  nonce :: u32

record block = block_header +
  miner_tx :: transaction
  tx_hashes :: "bytes list"

definition ser_block_header :: "block_header serializer" where
  "ser_block_header =
    object (\<lambda>(v, w, t, i, n). \<lparr>major_version = v, minor_version = w, timestamp = t, prev_id = i, nonce = n\<rparr>)
      (\<lambda>h. (major_version h, minor_version h, timestamp h, prev_id h, nonce h))
      (seq varint_field (\<lambda>_. seq varint_field (\<lambda>_. seq varint_field (\<lambda>_. seq (blob 32) (\<lambda>_. uint32)))))"

definition CRYPTONOTE_MAX_TX_PER_BLOCK :: nat where "CRYPTONOTE_MAX_TX_PER_BLOCK = 0x10000000"

definition ser_block :: "block serializer" where
  "ser_block =
    require (\<lambda>b. \<not> length (tx_hashes b) > CRYPTONOTE_MAX_TX_PER_BLOCK)
      (object (\<lambda>(h, tx, hs). block_header.extend h (block.fields tx hs)) (\<lambda>b. (block_header.truncate b, miner_tx b, tx_hashes b))
        (seq ser_block_header (\<lambda>_. seq ser_transaction (\<lambda>_. container (blob 32)))))"

definition block_to_blob :: "block \<Rightarrow> bytes option" where
  "block_to_blob b = put ser_block b"

text \<open>
  The functions below throw if the hash of the miner transaction cannot be computed; \<open>None\<close> is the
  exception, or a failed assertion of the hash tree.
\<close>

definition get_tx_tree_hash :: "block \<Rightarrow> bytes option" where
  "get_tx_tree_hash b = do { h \<leftarrow> calculate_transaction_hash (miner_tx b); tree_hash (h # tx_hashes b) }"

definition get_block_hashing_blob :: "block \<Rightarrow> bytes option" where
  "get_block_hashing_blob b =
    do { hdr \<leftarrow> put ser_block_header (block_header.truncate b);
         tree_root_hash \<leftarrow> get_tx_tree_hash b;
         Some (hdr @ tree_root_hash @ get_varint_data (of_nat (length (tx_hashes b)) + 1 :: u64)) }"

definition correct_blob_hash_202612 :: string where
  "correct_blob_hash_202612 = ''3a8a2b3a29b50fc86ff73dd087ea43c6f0d6b8f936c849194d5c84c737903966''"

definition existing_block_id_202612 :: string where
  "existing_block_id_202612 = ''bbd604d2ba11ba27935e006ed39c9bfdd99b76bf4a50654bc1e1e61217962698''"

text \<open>
  The id: the hash of the hashing blob as a string with its length. Blocks with the height of an old block
  of another chain, or without a height, are compared with that block by the hash of their blob.
\<close>

definition calculate_block_hash :: "block \<Rightarrow> bytes option \<Rightarrow> bytes call" where
  "calculate_block_hash b bl =
    (case (case bl of None \<Rightarrow> block_to_blob b | Some bd \<Rightarrow> Some bd) of
       None \<Rightarrow> Thrown
     | Some bd \<Rightarrow>
         (case do { hb \<leftarrow> get_block_hashing_blob b; put string_field hb } of
            None \<Rightarrow> Thrown
          | Some str \<Rightarrow>
              let res = get_blob_hash str
              in if length (vin (miner_tx b)) = 1 \<and> (case vin (miner_tx b) ! 0 of Txin_gen height \<Rightarrow> height \<noteq> 202612 | _ \<Rightarrow> False)
                 then Returned res
                 else if to_hex (get_blob_hash bd) = correct_blob_hash_202612
                 then (case from_hex existing_block_id_202612 of None \<Rightarrow> Returned res | Some bbd \<Rightarrow> Returned bbd)
                 else if to_hex res = existing_block_id_202612 then Refused
                 else Returned res))"

text \<open>Parsing: the block, and its id if it is asked for. A refused id is the null hash.\<close>

definition parse_and_validate_block_from_blob :: "bytes \<Rightarrow> block option" where
  "parse_and_validate_block_from_blob b_blob = serialize ser_block b_blob"

definition parse_block_and_hash :: "bytes \<Rightarrow> (block \<times> bytes) call" where
  "parse_block_and_hash b_blob =
    (case parse_and_validate_block_from_blob b_blob of
       None \<Rightarrow> Refused
     | Some b \<Rightarrow>
         (case calculate_block_hash b (Some b_blob) of
            Returned h \<Rightarrow> Returned (b, h)
          | Refused \<Rightarrow> Returned (b, null_hash)
          | Thrown \<Rightarrow> Thrown))"

section \<open>Contracts\<close>

lemma strict_block_header [wires]: "strict_item ser_block_header"
  unfolding strict_item_def ser_block_header_def by (intro conjI strict_object item_object) (auto simp: wires)

lemma item_block: "item ser_block"
  unfolding ser_block_def
  by (rule item_require, rule item_object) (auto simp: wires item_transaction block_header.defs block.defs)

interpretation header: strict_item ser_block_header
  by (rule strict_block_header)

interpretation block_wire: item ser_block
  by (rule item_block)

lemma typed_block:
  assumes "typed ser_block b"
  shows "typed ser_block_header (block_header.truncate b)" "typed ser_transaction (miner_tx b)"
    "length (tx_hashes b) \<le> 2 ^ 28" "\<forall>h \<in> set (tx_hashes b). length h = 32"
  using assms by (simp_all add: ser_block_def typed_simps CRYPTONOTE_MAX_TX_PER_BLOCK_def list_all_iff)

lemma strict_at_block: "tx_hashes b \<noteq> [] \<Longrightarrow> strict_at ser_block b"
  unfolding ser_block_def
  by (rule strict_at_require, rule strict_at_object)
    (auto simp: wires item_transaction block_header.defs block.defs intro!: strict_at_seq strict_at_container)

section \<open>The id of a block\<close>

lemma tree_hash_limit:
  assumes "tree_hash hs = Some r" and "length hs < 2 ^ 64"
  shows "length hs \<le> 2 ^ 28"
proof (rule ccontr)
  assume "\<not> length hs \<le> 2 ^ 28"
  then have "tree_hash_cnt (of_nat (length hs)) = None"
    using assms(2) by (simp add: tree_hash_cnt_def word_le_nat_alt unat_of_nat)
  then show False using assms(1) \<open>\<not> length hs \<le> 2 ^ 28\<close> by (simp add: tree_hash_def Let_def split: if_splits)
qed

lemma tree_hash_length: "tree_hash hs = Some r \<Longrightarrow> \<forall>h \<in> set hs. length h = 32 \<Longrightarrow> length r = 32"
  by (auto simp: tree_hash_def Let_def hash2_def length_cn_fast_hash split: if_splits option.splits)

lemma tx_hash_length: "calculate_transaction_hash tx = Some h \<Longrightarrow> length h = 32"
  by (auto simp: calculate_transaction_hash_def get_blob_hash_def length_cn_fast_hash Let_def split: if_splits bind_splits)

text \<open>The strings that are hashed on the way to the id.\<close>

definition block_inputs :: "block \<Rightarrow> bytes set" where
  "block_inputs b =
    insert (the (do { hb \<leftarrow> get_block_hashing_blob b; put string_field hb }))
      (tree_inputs (the (calculate_transaction_hash (miner_tx b)) # tx_hashes b) \<union> tx_inputs (miner_tx b))"

lemma ordinary_id:
  assumes "calculate_block_hash b bl = Returned h" and "vin (miner_tx b) = [Txin_gen g]" and "g \<noteq> 202612" and "typed ser_block b"
  obtains hdr txid root str where "put ser_block_header (block_header.truncate b) = Some hdr"
    and "calculate_transaction_hash (miner_tx b) = Some txid" and "tree_hash (txid # tx_hashes b) = Some root"
    and "str = write_varint (of_nat (length (hdr @ root @ write_varint (of_nat (length (tx_hashes b)) + 1 :: u64))) :: u64)
      @ hdr @ root @ write_varint (of_nat (length (tx_hashes b)) + 1 :: u64)"
    and "h = cn_fast_hash str" and "str \<in> block_inputs b" and "length root = 32" and "length (txid # tx_hashes b) \<le> 2 ^ 28"
proof -
  from assms(1-3) obtain hdr txid root where p: "put ser_block_header (block_header.truncate b) = Some hdr"
      "calculate_transaction_hash (miner_tx b) = Some txid" "tree_hash (txid # tx_hashes b) = Some root"
    and h: "h = cn_fast_hash (the (put string_field (hdr @ root @ write_varint (of_nat (length (tx_hashes b)) + 1 :: u64))))"
    by (auto simp: calculate_block_hash_def get_block_hashing_blob_def get_tx_tree_hash_def get_blob_hash_def get_varint_data_def Let_def
        split: option.splits bind_splits)
  note t = typed_block(3,4) [OF assms(4)]
  have "length root = 32" using tree_hash_length [OF p(3)] tx_hash_length [OF p(2)] t(2) by simp
  moreover have "length (txid # tx_hashes b) \<le> 2 ^ 28" using tree_hash_limit [OF p(3)] t(1) by simp
  moreover have "the (put string_field (hdr @ root @ write_varint (of_nat (length (tx_hashes b)) + 1 :: u64))) \<in> block_inputs b"
    using p by (simp add: block_inputs_def get_block_hashing_blob_def get_tx_tree_hash_def get_varint_data_def)
  ultimately show ?thesis using p h that by (simp add: string_put)
qed

lemma string_inject:
  assumes "write_varint (of_nat (length x) :: u64) @ x = write_varint (of_nat (length y) :: u64) @ y"
  shows "x = y"
  using wire.put_prefix_inject [OF item_wire [OF item_varint64] _ _ varint_put varint_put assms] by (simp add: simple_typed)

lemma count_inject:
  assumes "write_varint (of_nat n + 1 :: u64) = write_varint (of_nat m + 1 :: u64)" and "n < 2 ^ 63" and "m < 2 ^ 63"
  shows "n = m"
proof -
  have "of_nat n + 1 = (of_nat m + 1 :: u64)"
    by (rule wire.put_inject [OF item_wire [OF item_varint64] _ _ varint_put]) (simp_all add: simple_typed varint_put assms(1))
  then have "(of_nat n :: u64) = of_nat m" by simp
  then have "unat (of_nat n :: u64) = unat (of_nat m :: u64)" by simp
  then show ?thesis using assms(2,3) by (simp add: unat_of_nat)
qed

lemma block_id_parts:
  assumes "typed ser_block b1" and "typed ser_block b2"
    and "vin (miner_tx b1) = [Txin_gen g1]" and "g1 \<noteq> 202612" and "vin (miner_tx b2) = [Txin_gen g2]" and "g2 \<noteq> 202612"
    and "calculate_block_hash b1 bl1 = Returned h" and "calculate_block_hash b2 bl2 = Returned h"
  shows "block_header.truncate b1 = block_header.truncate b2 \<and> tx_hashes b1 = tx_hashes b2
      \<and> (\<exists>txid. calculate_transaction_hash (miner_tx b1) = Some txid \<and> calculate_transaction_hash (miner_tx b2) = Some txid)
    \<or> collision (block_inputs b1) (block_inputs b2)"
proof -
  obtain hdr txid root str where p: "put ser_block_header (block_header.truncate b1) = Some hdr"
    "calculate_transaction_hash (miner_tx b1) = Some txid" "tree_hash (txid # tx_hashes b1) = Some root"
    "str = write_varint (of_nat (length (hdr @ root @ write_varint (of_nat (length (tx_hashes b1)) + 1 :: u64))) :: u64)
      @ hdr @ root @ write_varint (of_nat (length (tx_hashes b1)) + 1 :: u64)"
    "h = cn_fast_hash str" "str \<in> block_inputs b1" "length root = 32" "length (txid # tx_hashes b1) \<le> 2 ^ 28"
    using ordinary_id [OF assms(7,3,4,1)] .
  obtain hdr' txid' root' str' where q: "put ser_block_header (block_header.truncate b2) = Some hdr'"
    "calculate_transaction_hash (miner_tx b2) = Some txid'" "tree_hash (txid' # tx_hashes b2) = Some root'"
    "str' = write_varint (of_nat (length (hdr' @ root' @ write_varint (of_nat (length (tx_hashes b2)) + 1 :: u64))) :: u64)
      @ hdr' @ root' @ write_varint (of_nat (length (tx_hashes b2)) + 1 :: u64)"
    "h = cn_fast_hash str'" "str' \<in> block_inputs b2" "length root' = 32" "length (txid' # tx_hashes b2) \<le> 2 ^ 28"
    using ordinary_id [OF assms(8,5,6,2)] .
  show ?thesis
  proof (cases "str = str'")
    case False
    then show ?thesis using cn_fast_hash_cases [of str str' "block_inputs b1" "block_inputs b2"] p(5,6) q(5,6) by simp
  next
    case True
    then have "hdr @ root @ write_varint (of_nat (length (tx_hashes b1)) + 1 :: u64)
        = hdr' @ root' @ write_varint (of_nat (length (tx_hashes b2)) + 1 :: u64)"
      unfolding p(4) q(4) by (rule string_inject)
    from header.put_prefix_inject [OF typed_block(1) [OF assms(1)] typed_block(1) [OF assms(2)] p(1) q(1) this]
    have e: "block_header.truncate b1 = block_header.truncate b2" "root = root'"
      "write_varint (of_nat (length (tx_hashes b1)) + 1 :: u64) = write_varint (of_nat (length (tx_hashes b2)) + 1 :: u64)"
      using p(7) q(7) by simp_all
    have n: "length (tx_hashes b1) = length (tx_hashes b2)" using p(8) q(8) by (intro count_inject [OF e(3)]) simp_all
    have "txid # tx_hashes b1 = txid' # tx_hashes b2
        \<or> collision (tree_inputs (txid # tx_hashes b1)) (tree_inputs (txid' # tx_hashes b2))"
      unfolding collision_def
      using p(3,8) q(3) e(2) n typed_block(4) [OF assms(1)] typed_block(4) [OF assms(2)] tx_hash_length [OF p(2)] tx_hash_length [OF q(2)]
      by (intro tree_hash_binding) auto
    moreover have "collision (block_inputs b1) (block_inputs b2)"
      if "collision (tree_inputs (txid # tx_hashes b1)) (tree_inputs (txid' # tx_hashes b2))"
      using that p(2) q(2) by (auto simp: collision_def block_inputs_def)
    ultimately show ?thesis using e(1) p(2) q(2) by auto
  qed
qed

lemma block_eqI: "block_header.truncate b1 = block_header.truncate b2 \<Longrightarrow> miner_tx b1 = miner_tx b2 \<Longrightarrow> tx_hashes b1 = tx_hashes b2 \<Longrightarrow> b1 = (b2 :: block)"
  by (cases b1, cases b2) (simp add: block_header.defs)

section \<open>Properties\<close>


text \<open>A block of the test network: the genesis transaction, and no others.\<close>

definition sample_block :: block where
  "sample_block = \<lparr>major_version = 1, minor_version = 0, timestamp = 0, prev_id = null_hash, nonce = 1338,
    miner_tx = genesis_tx, tx_hashes = []\<rparr>"

lemma sample_typed: "typed ser_block sample_block"
  by (simp add: ser_block_def ser_block_header_def typed_simps sample_block_def genesis_typed null_hash_def HASH_SIZE_def
      block_header.defs block.defs CRYPTONOTE_MAX_TX_PER_BLOCK_def)

lemma sample_id: "\<exists>h. calculate_block_hash sample_block None = Returned h"
proof -
  have "\<exists>w. put ser_block sample_block = Some w" by (rule block_wire.put_typed [OF sample_typed])
  moreover have "\<exists>hdr. put ser_block_header (block_header.truncate sample_block) = Some hdr"
    by (rule header.put_typed [OF typed_block(1) [OF sample_typed]])
  moreover have "\<exists>t. calculate_transaction_hash genesis_tx = Some t"
    using genesis_put by (simp add: calculate_transaction_hash_def tx_to_blob_def) (simp add: genesis_tx_def)
  moreover have "vin genesis_tx = [Txin_gen 0]" by (simp add: genesis_tx_def)
  moreover have "miner_tx sample_block = genesis_tx" "tx_hashes sample_block = []" by (simp_all add: sample_block_def)
  ultimately show ?thesis
    by (auto simp: calculate_block_hash_def block_to_blob_def get_block_hashing_blob_def get_tx_tree_hash_def tree_hash_def string_put)
qed


text \<open>
  C20. Blocks survive their blob, and a block with transactions is read from no other. A block without
  transactions is also read from its blob without the last byte, the count 0 of the transactions.
\<close>

theorem block_blob_roundtrip:
  assumes "typed ser_block b"
  shows "\<exists>w. block_to_blob b = Some w \<and> parse_and_validate_block_from_blob w = Some b
    \<and> (if tx_hashes b = [] then parse_and_validate_block_from_blob (butlast w) = Some b
       else \<forall>v. parse_and_validate_block_from_blob v = Some b \<longrightarrow> v = w)"
proof -
  obtain w where w: "put ser_block b = Some w" using block_wire.put_typed [OF assms] by blast
  have r: "parse_and_validate_block_from_blob w = Some b"
    unfolding parse_and_validate_block_from_blob_def by (rule block_wire.serialize_put [OF assms w])
  have "parse_and_validate_block_from_blob (butlast w) = Some b" if n: "tx_hashes b = []"
  proof -
    have t: "typed ser_block_header (block_header.truncate b)" "typed ser_transaction (miner_tx b)" using typed_block [OF assms] by simp_all
    obtain hdr tx where p: "put ser_block_header (block_header.truncate b) = Some hdr" "put ser_transaction (miner_tx b) = Some tx"
      using header.put_typed [OF t(1)] tx_full.put_typed [OF t(2)] by blast
    have "w = hdr @ tx @ [0]"
      using w p n by (simp add: ser_block_def put_simps write_varint_last split: if_splits)
    then have b: "butlast w = hdr @ tx" by (simp add: butlast_append)
    have "get ser_block_header (hdr @ tx) = Some (block_header.truncate b, tx)" "get ser_transaction tx = Some (miner_tx b, [])"
      using header.get_put [OF t(1) p(1)] tx_full.get_put [OF t(2) p(2), of "[]"] by simp_all
    then show ?thesis unfolding b
      using n by (simp add: parse_and_validate_block_from_blob_def serialize_def ser_block_def require_def object_def seq_def get_container_Nil
          block_header.defs block.defs CRYPTONOTE_MAX_TX_PER_BLOCK_def)
  qed
  moreover have "v = w" if "tx_hashes b \<noteq> []" "parse_and_validate_block_from_blob v = Some b" for v
    using serialize_strict_at [OF item_wire [OF item_block] _ strict_at_block] that w by (simp add: parse_and_validate_block_from_blob_def)
  ultimately show ?thesis using w r by (auto simp: block_to_blob_def)
qed

theorem block_blob_roundtrip_witness:
  "\<exists>w. block_to_blob sample_block = Some w \<and> parse_and_validate_block_from_blob (butlast w) = Some sample_block"
  using block_blob_roundtrip [OF sample_typed] by (auto simp: sample_block_def)

end
