(* ===== verification/Hard_Fork.thy ===== *)
theory Hard_Fork
  imports Block_Blob
begin

text \<open>
  The hard fork state machine of \<open>src/cryptonote_basic/hardfork.cpp\<close> with the fork tables of
  \<open>src/hardforks/hardforks.cpp\<close>, over the block headers of \<open>Block_Blob\<close>: the list of forks, the window of the last votes with their counts, and
  the index of the current fork. The block database is a record with what the class reads and writes
  of it; \<open>None\<close> is an exception of the database or of a failed check.

  Heights, window sizes and vote counts are natural numbers: none of them leaves the range of its
  type, as the invariant shows for the counts. Versions and thresholds are bytes, times are integers.

  The lemmas show the invariant of the state (counts and window agree, forks are in order), what the
  vote counting decides, and that on tables without voting the current fork follows the schedule
  through additions, removals and reorganisations.
\<close>

section \<open>Definitions\<close>

record hardfork_t =
  version :: u8
  fork_height :: nat
  threshold :: u8
  fork_time :: int

text \<open>The blocks by height, and the versions stored by \<open>set_hard_fork_version\<close>.\<close>

record chain_db =
  db_blocks :: "block_header list"
  db_versions :: "nat \<rightharpoonup> u8"

abbreviation db_height :: "chain_db \<Rightarrow> nat" where
  "db_height db \<equiv> length (db_blocks db)"

record HardFork =
  forked_time :: int
  update_time :: int
  window_size :: nat
  default_threshold_percent :: u8
  original_version :: u8
  original_version_till_height :: nat
  heights :: "hardfork_t list"
  versions :: "u8 list"
  last_versions :: "u8 \<Rightarrow> nat"
  current_fork_index :: nat

datatype hf_state = LikelyForked | UpdateNeeded | Ready

definition get_block_vote :: "block_header \<Rightarrow> u8" where
  "get_block_vote b = (if minor_version b = 0 then 1 else minor_version b)"

definition get_block_version :: "block_header \<Rightarrow> u8" where
  "get_block_version b = major_version b"

definition new_HardFork :: "u8 \<Rightarrow> nat \<Rightarrow> int \<Rightarrow> int \<Rightarrow> nat \<Rightarrow> u8 \<Rightarrow> HardFork option" where
  "new_HardFork orig till forked upd window percent =
    (if window = 0 then None
     else if percent > 100 then None
     else Some \<lparr>forked_time = forked, update_time = upd, window_size = window, default_threshold_percent = percent,
       original_version = orig, original_version_till_height = till, heights = [], versions = [],
       last_versions = (\<lambda>_. 0), current_fork_index = 0\<rparr>)"

definition DEFAULT_FORKED_TIME :: int where "DEFAULT_FORKED_TIME = 31557600"
definition DEFAULT_UPDATE_TIME :: int where "DEFAULT_UPDATE_TIME = 31557600 div 2"
definition DEFAULT_WINDOW_SIZE :: nat where "DEFAULT_WINDOW_SIZE = 10080"
definition DEFAULT_THRESHOLD_PERCENT :: u8 where "DEFAULT_THRESHOLD_PERCENT = 80"

definition add_fork :: "HardFork \<Rightarrow> u8 \<Rightarrow> nat \<Rightarrow> u8 \<Rightarrow> int \<Rightarrow> bool \<times> HardFork" where
  "add_fork hf v h th t =
    (if v = 0 then (False, hf)
     else if heights hf \<noteq> [] \<and> v \<le> version (last (heights hf)) then (False, hf)
     else if heights hf \<noteq> [] \<and> h \<le> fork_height (last (heights hf)) then (False, hf)
     else if heights hf \<noteq> [] \<and> t \<le> fork_time (last (heights hf)) then (False, hf)
     else if th > 100 then (False, hf)
     else (True, hf\<lparr>heights := heights hf @ [\<lparr>version = v, fork_height = h, threshold = th, fork_time = t\<rparr>]\<rparr>))"

definition add_fork_default :: "HardFork \<Rightarrow> u8 \<Rightarrow> nat \<Rightarrow> int \<Rightarrow> bool \<times> HardFork" where
  "add_fork_default hf v h t = add_fork hf v h (default_threshold_percent hf) t"

text \<open>The condition of the adjustment to the highest version is constantly false.\<close>

definition get_effective_version :: "HardFork \<Rightarrow> u8 \<Rightarrow> u8" where
  "get_effective_version hf voting_version =
    (if heights hf \<noteq> []
     then let max_version = version (last (heights hf)) in if False then max_version else voting_version
     else voting_version)"

text \<open>The loop of \<open>get_voted_fork_index\<close>, from the fork below \<open>n\<close> down.\<close>

fun voted_loop :: "HardFork \<Rightarrow> nat \<Rightarrow> nat \<Rightarrow> nat \<Rightarrow> nat" where
  "voted_loop hf height accumulated_votes 0 = current_fork_index hf"
| "voted_loop hf height accumulated_votes (Suc n) =
    (let f = heights hf ! n;
         accumulated_votes = accumulated_votes + last_versions hf (version f);
         needed = (window_size hf * unat (threshold f) + 99) div 100
     in if height \<ge> fork_height f \<and> accumulated_votes \<ge> needed then n
        else voted_loop hf height accumulated_votes n)"

definition get_voted_fork_index :: "HardFork \<Rightarrow> nat \<Rightarrow> nat" where
  "get_voted_fork_index hf height = voted_loop hf height 0 (length (heights hf))"

definition do_check :: "HardFork \<Rightarrow> u8 \<Rightarrow> u8 \<Rightarrow> bool" where
  "do_check hf block_version voting_version \<longleftrightarrow>
    block_version = version (heights hf ! current_fork_index hf)
    \<and> voting_version \<ge> version (heights hf ! current_fork_index hf)"

definition check :: "HardFork \<Rightarrow> block_header \<Rightarrow> bool" where
  "check hf b = do_check hf (get_block_version b) (get_block_vote b)"

definition do_check_for_height :: "HardFork \<Rightarrow> u8 \<Rightarrow> u8 \<Rightarrow> nat \<Rightarrow> bool" where
  "do_check_for_height hf block_version voting_version height =
    (let fork_index = get_voted_fork_index hf height
     in block_version = version (heights hf ! fork_index) \<and> voting_version \<ge> version (heights hf ! fork_index))"

definition check_for_height :: "HardFork \<Rightarrow> block_header \<Rightarrow> nat \<Rightarrow> bool" where
  "check_for_height hf b height = do_check_for_height hf (get_block_version b) (get_block_vote b) height"

text \<open>Dropping the oldest votes while the window is full.\<close>

fun shrink_window :: "nat \<Rightarrow> u8 list \<Rightarrow> (u8 \<Rightarrow> nat) \<Rightarrow> u8 list \<times> (u8 \<Rightarrow> nat)" where
  "shrink_window window [] counts = ([], counts)"
| "shrink_window window (old_version # vs) counts =
    (if length (old_version # vs) \<ge> window
     then shrink_window window vs (counts(old_version := counts old_version - 1))
     else (old_version # vs, counts))"

text \<open>The end of several operations: a fork that was voted in becomes the current one.\<close>

definition advance :: "HardFork \<Rightarrow> nat \<Rightarrow> HardFork" where
  "advance hf height =
    (let voted = get_voted_fork_index hf height
     in if voted > current_fork_index hf then hf\<lparr>current_fork_index := voted\<rparr> else hf)"

definition push_vote :: "u8 \<Rightarrow> HardFork \<Rightarrow> HardFork" where
  "push_vote v hf = hf\<lparr>last_versions := (last_versions hf)(v := last_versions hf v + 1), versions := versions hf @ [v]\<rparr>"

definition add_versions :: "HardFork \<Rightarrow> chain_db \<Rightarrow> u8 \<Rightarrow> u8 \<Rightarrow> nat \<Rightarrow> bool \<times> HardFork \<times> chain_db" where
  "add_versions hf db block_version voting_version height =
    (if \<not> do_check hf block_version voting_version then (False, hf, db)
     else
       let db = db\<lparr>db_versions := (db_versions db)(height \<mapsto> version (heights hf ! current_fork_index hf))\<rparr>;
           voting_version = get_effective_version hf voting_version;
           (vs, counts) = shrink_window (window_size hf) (versions hf) (last_versions hf);
           hf = push_vote voting_version (hf\<lparr>versions := vs, last_versions := counts\<rparr>)
       in (True, advance hf (height + 1), db))"

definition add :: "HardFork \<Rightarrow> chain_db \<Rightarrow> block_header \<Rightarrow> nat \<Rightarrow> bool \<times> HardFork \<times> chain_db" where
  "add hf db b height = add_versions hf db (get_block_version b) (get_block_vote b) height"

definition clear_votes :: "HardFork \<Rightarrow> HardFork" where
  "clear_votes hf = hf\<lparr>versions := [], last_versions := (\<lambda>_. 0)\<rparr>"

text \<open>Counting the votes of a list of blocks.\<close>

definition count_votes :: "block_header list \<Rightarrow> HardFork \<Rightarrow> HardFork" where
  "count_votes bs hf = fold (\<lambda>b hf. push_vote (get_effective_version hf (get_block_vote b)) hf) bs hf"

text \<open>The first fork with the version, or the last fork.\<close>

fun version_index :: "u8 \<Rightarrow> hardfork_t list \<Rightarrow> nat" where
  "version_index lastv (f # g # fs) = (if version f \<noteq> lastv then Suc (version_index lastv (g # fs)) else 0)"
| "version_index lastv _ = 0"

definition rescan_from_block_height :: "HardFork \<Rightarrow> chain_db \<Rightarrow> nat \<Rightarrow> (bool \<times> HardFork) option" where
  "rescan_from_block_height hf db height =
    (if height \<ge> db_height db then Some (False, hf)
     else
       let hf = count_votes (drop height (db_blocks db)) (clear_votes hf)
       in case db_versions db (db_height db - 1) of
            None \<Rightarrow> None
          | Some lastv \<Rightarrow>
              Some (True, advance (hf\<lparr>current_fork_index := version_index lastv (heights hf)\<rparr>) (db_height db)))"

definition rescan_from_chain_height :: "HardFork \<Rightarrow> chain_db \<Rightarrow> nat \<Rightarrow> (bool \<times> HardFork) option" where
  "rescan_from_chain_height hf db height =
    (if height = 0 then Some (False, hf) else rescan_from_block_height hf db (height - 1))"

text \<open>A placeholder for the default version, to avoid special cases.\<close>

definition with_placeholder :: "HardFork \<Rightarrow> HardFork" where
  "with_placeholder hf =
    (if heights hf = []
     then hf\<lparr>heights := [\<lparr>version = original_version hf, fork_height = 0, threshold = 0, fork_time = 0\<rparr>]\<rparr>
     else hf)"

definition hf_init :: "HardFork \<Rightarrow> chain_db \<Rightarrow> HardFork option" where
  "hf_init hf db =
    (let hf = (clear_votes (with_placeholder hf))\<lparr>current_fork_index := 0\<rparr>;
         height = db_height db;
         height = (if height > window_size hf then height - (window_size hf - 1) else 1)
     in map_option snd (rescan_from_chain_height hf db height))"

text \<open>The step back to a fork whose version does not exceed \<open>start_version\<close>.\<close>

fun lower_index :: "hardfork_t list \<Rightarrow> u8 \<Rightarrow> nat \<Rightarrow> nat" where
  "lower_index hs start_version 0 = 0"
| "lower_index hs start_version (Suc n) =
    (if version (hs ! Suc n) > start_version then lower_index hs start_version n else Suc n)"

text \<open>Adding the stored blocks again, from a height on; the results of the calls are ignored.\<close>

fun add_stored :: "block_header list \<Rightarrow> nat \<Rightarrow> HardFork \<Rightarrow> chain_db \<Rightarrow> HardFork \<times> chain_db" where
  "add_stored [] h hf db = (hf, db)"
| "add_stored (b # bs) h hf db = (let (r, hf, db) = add hf db b h in add_stored bs (h + 1) hf db)"

text \<open>The state for the blocks up to a height whose stored version is \<open>start_version\<close>.\<close>

definition rebuild :: "HardFork \<Rightarrow> chain_db \<Rightarrow> nat \<Rightarrow> u8 \<Rightarrow> HardFork" where
  "rebuild hf db height start_version =
    (let hf = clear_votes hf;
         rescan_height = (if height \<ge> window_size hf - 1 then height - (window_size hf - 1) else 0);
         hf = hf\<lparr>current_fork_index := lower_index (heights hf) start_version (current_fork_index hf)\<rparr>;
         hf = count_votes (drop rescan_height (take (height + 1) (db_blocks db))) hf
     in advance hf (height + 1))"

definition reorganize_from_block_height :: "HardFork \<Rightarrow> chain_db \<Rightarrow> nat \<Rightarrow> (bool \<times> HardFork \<times> chain_db) option" where
  "reorganize_from_block_height hf db height =
    (if height \<ge> db_height db then Some (False, hf, db)
     else
       case (if height = 0 then Some (original_version hf) else db_versions db height) of
         None \<Rightarrow> None
       | Some start_version \<Rightarrow>
           (case add_stored (drop (height + 1) (db_blocks db)) (height + 1) (rebuild hf db height start_version) db of
              (hf, db) \<Rightarrow> Some (True, hf, db)))"

definition reorganize_from_chain_height :: "HardFork \<Rightarrow> chain_db \<Rightarrow> nat \<Rightarrow> (bool \<times> HardFork \<times> chain_db) option" where
  "reorganize_from_chain_height hf db height =
    (if height = 0 then Some (False, hf, db) else reorganize_from_block_height hf db (height - 1))"

text \<open>Taking the newest vote from the window, and putting one before the oldest.\<close>

definition pop_vote :: "HardFork \<Rightarrow> HardFork" where
  "pop_vote hf =
    (let v = last (versions hf)
     in hf\<lparr>last_versions := (last_versions hf)(v := last_versions hf v - 1), versions := butlast (versions hf)\<rparr>)"

definition unshift_vote :: "u8 \<Rightarrow> HardFork \<Rightarrow> HardFork" where
  "unshift_vote v hf = hf\<lparr>versions := v # versions hf, last_versions := (last_versions hf)(v := last_versions hf v + 1)\<rparr>"

text \<open>
  The loop of \<open>on_block_popped\<close> over the \<open>n\<close> heights from \<open>new_height\<close> on, highest first. Taking from an
  empty window and reading a version that is not stored have no result.
\<close>

fun popped_loop :: "chain_db \<Rightarrow> nat \<Rightarrow> nat \<Rightarrow> HardFork \<Rightarrow> HardFork option" where
  "popped_loop db new_height 0 hf = Some hf"
| "popped_loop db new_height (Suc n) hf =
    (if versions hf = [] then None
     else case db_versions db (new_height + n) of
            None \<Rightarrow> None
          | Some v \<Rightarrow> popped_loop db new_height n (unshift_vote v (pop_vote hf)))"

fun height_index :: "hardfork_t list \<Rightarrow> nat \<Rightarrow> nat \<Rightarrow> nat" where
  "height_index hs height 0 = 0"
| "height_index hs height (Suc n) = (if height \<ge> fork_height (hs ! Suc n) then Suc n else height_index hs height n)"

text \<open>With an empty chain left the unsigned loop variable passes zero and the database throws.\<close>

definition on_block_popped :: "HardFork \<Rightarrow> chain_db \<Rightarrow> nat \<Rightarrow> HardFork option" where
  "on_block_popped hf db nblocks =
    (if nblocks = 0 then None
     else if db_height db = 0 then None
     else map_option (\<lambda>hf. hf\<lparr>current_fork_index := height_index (heights hf) (db_height db) (length (heights hf) - 1)\<rparr>)
       (popped_loop db (db_height db) nblocks hf))"

definition get_state :: "HardFork \<Rightarrow> int \<Rightarrow> hf_state" where
  "get_state hf t =
    (if length (heights hf) \<le> 1 then Ready
     else
       let t_last_fork = fork_time (last (heights hf))
       in if t \<ge> t_last_fork + forked_time hf then LikelyForked
          else if t \<ge> t_last_fork + update_time hf then UpdateNeeded
          else Ready)"

definition get_current_version :: "HardFork \<Rightarrow> u8" where
  "get_current_version hf = version (heights hf ! current_fork_index hf)"

text \<open>Beyond the chain the value is that of a build without assertions.\<close>

definition get :: "HardFork \<Rightarrow> chain_db \<Rightarrow> nat \<Rightarrow> u8 option" where
  "get hf db height =
    (if height > db_height db then Some 255
     else if height = db_height db then Some (get_current_version hf)
     else db_versions db height)"

text \<open>The version of a block in the database; the blocks up to a height have the original version.\<close>

definition get_block_version_at :: "HardFork \<Rightarrow> chain_db \<Rightarrow> nat \<Rightarrow> u8 option" where
  "get_block_version_at hf db height =
    (if height \<le> original_version_till_height hf then Some (original_version hf)
     else if height < db_height db then Some (get_block_version (db_blocks db ! height)) else None)"

definition get_ideal_version_top :: "HardFork \<Rightarrow> u8" where
  "get_ideal_version_top hf = version (last (heights hf))"

fun ideal_loop :: "HardFork \<Rightarrow> nat \<Rightarrow> nat \<Rightarrow> u8" where
  "ideal_loop hf height 0 = original_version hf"
| "ideal_loop hf height (Suc n) =
    (if height \<ge> fork_height (heights hf ! Suc n) then version (heights hf ! Suc n) else ideal_loop hf height n)"

definition get_ideal_version :: "HardFork \<Rightarrow> nat \<Rightarrow> u8" where
  "get_ideal_version hf height = ideal_loop hf height (length (heights hf) - 1)"

text \<open>Loops from the last fork to the first are recursions on the reversed list.\<close>

fun earliest_loop :: "u8 \<Rightarrow> hardfork_t list \<Rightarrow> nat \<Rightarrow> nat" where
  "earliest_loop v [] height = height"
| "earliest_loop v (f # fs) height = (if version f \<ge> v then earliest_loop v fs (fork_height f) else height)"

definition get_earliest_ideal_height_for_version :: "HardFork \<Rightarrow> u8 \<Rightarrow> nat" where
  "get_earliest_ideal_height_for_version hf v = earliest_loop v (rev (heights hf)) (2 ^ 64 - 1)"

fun next_loop :: "nat \<Rightarrow> hardfork_t option \<Rightarrow> hardfork_t list \<Rightarrow> u8 option" where
  "next_loop height after [] = None"
| "next_loop height after (f # fs) =
    (if height \<ge> fork_height f then Some (version (case after of None \<Rightarrow> f | Some g \<Rightarrow> g))
     else next_loop height (Some f) fs)"

definition get_next_version :: "HardFork \<Rightarrow> chain_db \<Rightarrow> u8" where
  "get_next_version hf db =
    (case next_loop (db_height db) None (rev (heights hf)) of None \<Rightarrow> original_version hf | Some v \<Rightarrow> v)"

record voting_info =
  vi_enabled :: bool
  vi_window :: nat
  vi_votes :: nat
  vi_threshold :: nat
  vi_earliest_height :: nat
  vi_voting :: u8

definition get_voting_info :: "HardFork \<Rightarrow> u8 \<Rightarrow> voting_info" where
  "get_voting_info hf v =
    (let window = length (versions hf)
     in \<lparr>vi_enabled = version (heights hf ! current_fork_index hf) \<ge> v,
         vi_window = window,
         vi_votes = sum_list (map (\<lambda>n. last_versions hf (of_nat n)) [unat v..<256]),
         vi_threshold = (window * unat (threshold (heights hf ! current_fork_index hf)) + 99) div 100,
         vi_earliest_height = get_earliest_ideal_height_for_version hf v,
         vi_voting = version (last (heights hf))\<rparr>)"

text \<open>The tables: they are the same for the three networks.\<close>

definition mainnet_hard_forks :: "hardfork_t list" where
  "mainnet_hard_forks =
    [\<lparr>version = 1, fork_height = 1, threshold = 0, fork_time = 1341378000\<rparr>,
     \<lparr>version = 16, fork_height = 2, threshold = 0, fork_time = 1341378001\<rparr>]"

definition testnet_hard_forks :: "hardfork_t list" where
  "testnet_hard_forks =
    [\<lparr>version = 1, fork_height = 1, threshold = 0, fork_time = 1341378000\<rparr>,
     \<lparr>version = 16, fork_height = 2, threshold = 0, fork_time = 1341378001\<rparr>]"

definition stagenet_hard_forks :: "hardfork_t list" where
  "stagenet_hard_forks =
    [\<lparr>version = 1, fork_height = 1, threshold = 0, fork_time = 1341378000\<rparr>,
     \<lparr>version = 16, fork_height = 2, threshold = 0, fork_time = 1341378001\<rparr>]"

definition mainnet_hard_fork_version_1_till :: nat where "mainnet_hard_fork_version_1_till = 1"
definition testnet_hard_fork_version_1_till :: nat where "testnet_hard_fork_version_1_till = 1"

text \<open>
  The set-up of \<open>Blockchain::init\<close>: construct, add the table, initialise. The height up to which the
  original version holds is that of the network; for the stagenet the code passes 0.
\<close>

definition add_forks :: "hardfork_t list \<Rightarrow> HardFork \<Rightarrow> HardFork" where
  "add_forks fs hf = fold (\<lambda>f hf. snd (add_fork hf (version f) (fork_height f) (threshold f) (fork_time f))) fs hf"

definition new_chain_HardFork :: "nat \<Rightarrow> hardfork_t list \<Rightarrow> HardFork option" where
  "new_chain_HardFork till table =
    map_option (add_forks table)
      (new_HardFork 1 till DEFAULT_FORKED_TIME DEFAULT_UPDATE_TIME DEFAULT_WINDOW_SIZE DEFAULT_THRESHOLD_PERCENT)"

text \<open>
  The life of the object beside the database: it is set up on an empty chain; then blocks that pass
  are added at the top, blocks are removed from the top, the object reorganises or starts again.
\<close>

inductive running :: "hardfork_t list \<Rightarrow> HardFork \<Rightarrow> chain_db \<Rightarrow> bool" for table where
  start: "running table hf \<lparr>db_blocks = [], db_versions = Map.empty\<rparr>"
    if "new_chain_HardFork till table = Some hf0" and "hf_init hf0 \<lparr>db_blocks = [], db_versions = Map.empty\<rparr> = Some hf"
| block: "running table hf' (db'\<lparr>db_blocks := db_blocks db @ [b]\<rparr>)"
    if "running table hf db" and "add hf db b (db_height db) = (True, hf', db')"
| popped: "running table hf' (db\<lparr>db_blocks := take (db_height db - n) (db_blocks db)\<rparr>)"
    if "running table hf db" and "n < db_height db"
      and "on_block_popped hf (db\<lparr>db_blocks := take (db_height db - n) (db_blocks db)\<rparr>) n = Some hf'"
| reorganized: "running table hf' db'"
    if "running table hf db" and "reorganize_from_chain_height hf db h = Some (r, hf', db')"
| restarted: "running table hf' db" if "running table hf db" and "hf_init hf db = Some hf'"

section \<open>Specifications\<close>

text \<open>The index of the fork that the heights alone prescribe for a block.\<close>

definition scheduled :: "hardfork_t list \<Rightarrow> nat \<Rightarrow> nat" where
  "scheduled hs height = length (filter (\<lambda>f. fork_height f \<le> height) hs) - 1"

definition forks_ok :: "hardfork_t list \<Rightarrow> bool" where
  "forks_ok hs \<longleftrightarrow> sorted_wrt (\<lambda>f g. version f < version g \<and> fork_height f < fork_height g \<and> fork_time f < fork_time g) hs
    \<and> list_all (\<lambda>f. threshold f \<le> 100) hs"

definition votes_ok :: "HardFork \<Rightarrow> bool" where
  "votes_ok hf \<longleftrightarrow> last_versions hf = count_list (versions hf) \<and> length (versions hf) \<le> window_size hf"

definition hf_inv :: "HardFork \<Rightarrow> bool" where
  "hf_inv hf \<longleftrightarrow> heights hf \<noteq> [] \<and> forks_ok (heights hf) \<and> current_fork_index hf < length (heights hf)
    \<and> votes_ok hf \<and> 0 < window_size hf"

section \<open>The window of votes\<close>

lemma effective_version [simp]: "get_effective_version hf v = v"
  by (simp add: get_effective_version_def Let_def)

lemma count_list_snoc: "(count_list vs)(v := Suc (count_list vs v)) = count_list (vs @ [v])"
  by (auto simp: fun_eq_iff)

lemma count_list_tail: "(count_list (v # vs))(v := count_list (v # vs) v - 1) = count_list vs"
  by (auto simp: fun_eq_iff)

lemma shrink_window_eq:
  assumes "0 < window"
  shows "shrink_window window vs (count_list vs) = (drop (length vs + 1 - window) vs, count_list (drop (length vs + 1 - window) vs))"
proof (induction vs)
  case (Cons v vs)
  show ?case
  proof (cases "length (v # vs) \<ge> window")
    case True
    then have "length (v # vs) + 1 - window = Suc (length vs + 1 - window)" by simp
    moreover have "shrink_window window (v # vs) (count_list (v # vs)) = shrink_window window vs (count_list vs)"
      using True by (subst shrink_window.simps, subst count_list_tail) simp
    ultimately show ?thesis unfolding Cons by (simp only: drop_Suc_Cons)
  qed simp
qed (use assms in simp)

lemma push_vote_frame [simp]:
  "heights (push_vote v hf) = heights hf" "window_size (push_vote v hf) = window_size hf"
  "current_fork_index (push_vote v hf) = current_fork_index hf" "original_version (push_vote v hf) = original_version hf"
  by (simp_all add: push_vote_def)

lemma advance_frame [simp]:
  "heights (advance hf h) = heights hf" "window_size (advance hf h) = window_size hf" "versions (advance hf h) = versions hf"
  "last_versions (advance hf h) = last_versions hf" "original_version (advance hf h) = original_version hf"
  by (simp_all add: advance_def Let_def)

lemma votes_ok_advance [simp]: "votes_ok (advance hf h) = votes_ok hf"
  by (simp add: votes_ok_def)

lemma count_votes_eq:
  assumes "last_versions hf = count_list (versions hf)"
  shows "count_votes bs hf = hf\<lparr>versions := versions hf @ map get_block_vote bs,
    last_versions := count_list (versions hf @ map get_block_vote bs)\<rparr>"
  using assms
proof (induction bs arbitrary: hf)
  case (Cons b bs)
  have "last_versions (push_vote v hf) = count_list (versions (push_vote v hf))" for v
    using Cons.prems by (simp add: push_vote_def count_list_snoc)
  from Cons.IH [OF this] show ?case by (simp add: count_votes_def push_vote_def)
qed (simp add: count_votes_def)

lemma count_votes_clear:
  "count_votes bs (clear_votes hf) = hf\<lparr>versions := map get_block_vote bs, last_versions := count_list (map get_block_vote bs)\<rparr>"
  by (subst count_votes_eq) (simp_all add: clear_votes_def fun_eq_iff)

section \<open>The invariant\<close>

lemma voted_loop_less:
  "n \<le> length (heights hf) \<Longrightarrow> current_fork_index hf < length (heights hf) \<Longrightarrow> voted_loop hf h a n < length (heights hf)"
  by (induction n arbitrary: a) (simp_all add: Let_def)

lemma advance_index: "current_fork_index hf < length (heights hf) \<Longrightarrow> current_fork_index (advance hf h) < length (heights hf)"
  using voted_loop_less [of "length (heights hf)" hf h 0] by (simp add: advance_def get_voted_fork_index_def Let_def)

lemma advance_inv: "hf_inv hf \<Longrightarrow> hf_inv (advance hf h)"
  by (simp add: hf_inv_def advance_index)

lemma add_fork_ok:
  assumes "forks_ok (heights hf)"
  shows "forks_ok (heights (snd (add_fork hf v h th t)))"
proof (cases "fst (add_fork hf v h th t)")
  case True
  then have new: "heights (snd (add_fork hf v h th t)) = heights hf @ [\<lparr>version = v, fork_height = h, threshold = th, fork_time = t\<rparr>]"
    and th: "th \<le> 100"
    and last: "heights hf \<noteq> [] \<Longrightarrow> version (last (heights hf)) < v \<and> fork_height (last (heights hf)) < h \<and> fork_time (last (heights hf)) < t"
    by (auto simp: add_fork_def split: if_splits)
  have "version f < v \<and> fork_height f < h \<and> fork_time f < t" if "f \<in> set (heights hf)" for f
  proof (cases "heights hf" rule: rev_cases)
    case (snoc xs g)
    then have "f = g \<or> version f < version g \<and> fork_height f < fork_height g \<and> fork_time f < fork_time g"
      using that assms by (auto simp: forks_ok_def sorted_wrt_append)
    moreover have "version g < v \<and> fork_height g < h \<and> fork_time g < t" using last snoc by simp
    ultimately show ?thesis by fastforce
  qed (use that in simp)
  then show ?thesis using assms th unfolding new forks_ok_def by (simp add: sorted_wrt_append)
next
  case False
  then have "snd (add_fork hf v h th t) = hf" by (auto simp: add_fork_def split: if_splits)
  then show ?thesis using assms by simp
qed

lemma add_fork_frame:
  "versions (snd (add_fork hf v h th t)) = versions hf" "window_size (snd (add_fork hf v h th t)) = window_size hf"
  "original_version (snd (add_fork hf v h th t)) = original_version hf"
  by (simp_all add: add_fork_def)

lemma add_versions_inv:
  assumes "hf_inv hf" and "add_versions hf db bv vv h = (True, hf', db')"
  shows "hf_inv hf'" and "heights hf' = heights hf"
proof -
  let ?vs = "drop (length (versions hf) + 1 - window_size hf) (versions hf)"
  have w: "0 < window_size hf" and v: "last_versions hf = count_list (versions hf)"
    using assms(1) by (simp_all add: hf_inv_def votes_ok_def)
  have hf': "hf' = advance (push_vote vv (hf\<lparr>versions := ?vs, last_versions := count_list ?vs\<rparr>)) (h + 1)"
    using assms(2) shrink_window_eq [OF w, of "versions hf"] by (auto simp: add_versions_def v Let_def split: if_splits)
  have "hf_inv (push_vote vv (hf\<lparr>versions := ?vs, last_versions := count_list ?vs\<rparr>))"
    using assms(1) w by (auto simp: hf_inv_def votes_ok_def push_vote_def count_list_snoc)
  then show "hf_inv hf'" unfolding hf' by (rule advance_inv)
  show "heights hf' = heights hf" unfolding hf' by simp
qed

lemma add_versions_False: "add_versions hf db bv vv h = (False, hf', db') \<Longrightarrow> hf' = hf \<and> db' = db"
  by (auto simp: add_versions_def Let_def split: if_splits prod.splits)

lemma add_inv:
  assumes "hf_inv hf" and "add hf db b h = (r, hf', db')"
  shows "hf_inv hf' \<and> heights hf' = heights hf"
  using assms add_versions_inv [OF assms(1)] add_versions_False by (cases r) (fastforce simp: add_def)+

lemma add_stored_inv:
  "hf_inv hf \<Longrightarrow> add_stored bs h hf db = (hf', db') \<Longrightarrow> hf_inv hf' \<and> heights hf' = heights hf"
proof (induction bs arbitrary: h hf db)
  case (Cons b bs)
  obtain r hf1 db1 where a: "add hf db b h = (r, hf1, db1)" by (cases "add hf db b h") auto
  then show ?case using add_inv [OF Cons.prems(1) a] Cons.IH [of hf1 "h + 1" db1] Cons.prems(2) by simp
qed simp

lemma version_index_less: "hs \<noteq> [] \<Longrightarrow> version_index v hs < length hs"
  by (induction v hs rule: version_index.induct) auto

lemma lower_index_le: "lower_index hs v n \<le> n"
  by (induction n) (auto intro: le_SucI)

lemma height_index_le: "height_index hs h n \<le> n"
  by (induction n) (auto intro: le_SucI)

lemma rescan_inv:
  assumes "hf_inv hf" and "db_height db - height \<le> window_size hf" and "rescan_from_block_height hf db height = Some (r, hf')"
  shows "hf_inv hf' \<and> heights hf' = heights hf"
proof (cases "height \<ge> db_height db")
  case True
  then show ?thesis using assms(1,3) by (simp add: rescan_from_block_height_def)
next
  case False
  let ?vs = "map get_block_vote (drop height (db_blocks db))"
  obtain lastv where lastv: "db_versions db (db_height db - 1) = Some lastv"
    using False assms(3) by (auto simp: rescan_from_block_height_def Let_def split: option.splits)
  then have hf': "hf' = advance (hf\<lparr>versions := ?vs, last_versions := count_list ?vs,
      current_fork_index := version_index lastv (heights hf)\<rparr>) (db_height db)"
    using False assms(3) by (simp add: rescan_from_block_height_def count_votes_clear Let_def)
  have "hf_inv (hf\<lparr>versions := ?vs, last_versions := count_list ?vs, current_fork_index := version_index lastv (heights hf)\<rparr>)"
    using assms(1,2) version_index_less by (simp add: hf_inv_def votes_ok_def)
  then show ?thesis unfolding hf' by (simp add: advance_inv)
qed

lemma hf_init_inv:
  assumes "forks_ok (heights hf)" and "0 < window_size hf" and "hf_init hf db = Some hf'"
  shows "hf_inv hf'" and "heights hf \<noteq> [] \<Longrightarrow> heights hf' = heights hf"
proof -
  define hf1 where "hf1 = (clear_votes (with_placeholder hf))\<lparr>current_fork_index := 0\<rparr>"
  define h where "h = (if db_height db > window_size hf1 then db_height db - (window_size hf1 - 1) else 1)"
  have w: "window_size hf1 = window_size hf" and hs: "heights hf \<noteq> [] \<Longrightarrow> heights hf1 = heights hf"
    by (simp_all add: hf1_def clear_votes_def with_placeholder_def)
  have inv: "hf_inv hf1"
    using assms(1,2) by (auto simp: hf_inv_def hf1_def clear_votes_def with_placeholder_def votes_ok_def forks_ok_def)
  obtain r where r: "rescan_from_chain_height hf1 db h = Some (r, hf')"
    using assms(3) by (auto simp: hf_init_def hf1_def [symmetric] h_def [symmetric] Let_def)
  have "h \<noteq> 0" "db_height db - (h - 1) \<le> window_size hf1" using assms(2) w by (auto simp: h_def)
  then have "hf_inv hf' \<and> heights hf' = heights hf1"
    using r by (intro rescan_inv [OF inv]) (simp_all add: rescan_from_chain_height_def)
  then show "hf_inv hf'" "heights hf \<noteq> [] \<Longrightarrow> heights hf' = heights hf" using hs by simp_all
qed

lemma rebuild_eq:
  defines "rescan h w \<equiv> if h \<ge> w - 1 then h - (w - 1) else 0"
  shows "rebuild hf db height v =
    advance (hf\<lparr>current_fork_index := lower_index (heights hf) v (current_fork_index hf),
      versions := map get_block_vote (drop (rescan height (window_size hf)) (take (height + 1) (db_blocks db))),
      last_versions := count_list (map get_block_vote (drop (rescan height (window_size hf)) (take (height + 1) (db_blocks db))))\<rparr>)
      (height + 1)"
proof -
  have c: "(clear_votes hf)\<lparr>current_fork_index := i\<rparr> = clear_votes (hf\<lparr>current_fork_index := i\<rparr>)" for i
    by (simp add: clear_votes_def)
  have f: "heights (clear_votes hf) = heights hf" "window_size (clear_votes hf) = window_size hf"
    "current_fork_index (clear_votes hf) = current_fork_index hf"
    by (simp_all add: clear_votes_def)
  show ?thesis unfolding rebuild_def Let_def f c count_votes_clear rescan_def by (rule refl)
qed

lemma rebuild_inv:
  assumes "hf_inv hf" and "height < db_height db"
  shows "hf_inv (rebuild hf db height v)" and "heights (rebuild hf db height v) = heights hf"
proof -
  have "lower_index (heights hf) v (current_fork_index hf) < length (heights hf)"
    using assms(1) lower_index_le [of "heights hf" v "current_fork_index hf"] by (simp add: hf_inv_def)
  then show "hf_inv (rebuild hf db height v)"
    unfolding rebuild_eq using assms by (intro advance_inv) (auto simp: hf_inv_def votes_ok_def)
  show "heights (rebuild hf db height v) = heights hf" unfolding rebuild_eq by simp
qed

lemma reorganize_inv:
  assumes "hf_inv hf" and "reorganize_from_block_height hf db height = Some (r, hf', db')"
  shows "hf_inv hf' \<and> heights hf' = heights hf"
proof (cases "height \<ge> db_height db")
  case True
  then show ?thesis using assms by (simp add: reorganize_from_block_height_def)
next
  case False
  then obtain v where "add_stored (drop (height + 1) (db_blocks db)) (height + 1) (rebuild hf db height v) db = (hf', db')"
    using assms(2) by (auto simp: reorganize_from_block_height_def split: option.splits prod.splits if_splits)
  then show ?thesis
    using False rebuild_inv [OF assms(1), of height db v] add_stored_inv [of "rebuild hf db height v"] by simp
qed

lemma reorganize_chain_inv:
  assumes "hf_inv hf" and "reorganize_from_chain_height hf db height = Some (r, hf', db')"
  shows "hf_inv hf' \<and> heights hf' = heights hf"
  using assms reorganize_inv [OF assms(1)] by (auto simp: reorganize_from_chain_height_def split: if_splits)

lemma pop_vote_ok:
  assumes "votes_ok hf" and "versions hf \<noteq> []"
  shows "votes_ok (unshift_vote v (pop_vote hf))"
proof -
  obtain vs u where vs: "versions hf = vs @ [u]" using assms(2) by (cases "versions hf" rule: rev_cases) auto
  have "(count_list (vs @ [u]))(u := count_list (vs @ [u]) u - 1) = count_list vs" by (auto simp: fun_eq_iff)
  then have "pop_vote hf = hf\<lparr>last_versions := count_list vs, versions := vs\<rparr>"
    using assms(1) vs unfolding pop_vote_def Let_def votes_ok_def by (simp only: last_snoc butlast_snoc)
  moreover have "(count_list vs)(v := count_list vs v + 1) = count_list (v # vs)" by (auto simp: fun_eq_iff)
  ultimately show ?thesis using assms(1) vs by (simp add: votes_ok_def unshift_vote_def)
qed

lemma pop_vote_frame [simp]:
  "heights (unshift_vote v (pop_vote hf)) = heights hf" "window_size (unshift_vote v (pop_vote hf)) = window_size hf"
  by (simp_all add: unshift_vote_def pop_vote_def Let_def)

lemma popped_loop_inv:
  "votes_ok hf \<Longrightarrow> popped_loop db h n hf = Some hf' \<Longrightarrow>
    votes_ok hf' \<and> heights hf' = heights hf \<and> window_size hf' = window_size hf"
proof (induction n arbitrary: hf)
  case (Suc n)
  then obtain v where "popped_loop db h n (unshift_vote v (pop_vote hf)) = Some hf'" "versions hf \<noteq> []"
    by (auto split: if_splits option.splits)
  then show ?case using Suc.IH [OF pop_vote_ok [OF Suc.prems(1)]] by simp
qed simp

lemma popped_inv:
  assumes "hf_inv hf" and "on_block_popped hf db n = Some hf'"
  shows "hf_inv hf' \<and> heights hf' = heights hf
    \<and> current_fork_index hf' = height_index (heights hf) (db_height db) (length (heights hf) - 1)"
proof -
  obtain hf1 where hf1: "popped_loop db (db_height db) n hf = Some hf1"
    and hf': "hf' = hf1\<lparr>current_fork_index := height_index (heights hf1) (db_height db) (length (heights hf1) - 1)\<rparr>"
    using assms(2) by (auto simp: on_block_popped_def split: if_splits)
  have "votes_ok hf" using assms(1) by (simp add: hf_inv_def)
  note p = popped_loop_inv [OF this hf1]
  have "height_index (heights hf) (db_height db) (length (heights hf) - 1) < length (heights hf)"
    using assms(1) height_index_le [of "heights hf" "db_height db" "length (heights hf) - 1"] by (cases "heights hf") (auto simp: hf_inv_def)
  then show ?thesis using assms(1) p unfolding hf' by (simp add: hf_inv_def votes_ok_def)
qed

lemma add_forks_frame:
  "forks_ok (heights hf) \<Longrightarrow> forks_ok (heights (add_forks fs hf))"
  "window_size (add_forks fs hf) = window_size hf" "original_version (add_forks fs hf) = original_version hf"
  by (induction fs arbitrary: hf) (simp_all add: add_forks_def add_fork_ok add_fork_frame)

lemma new_chain_ok:
  assumes "new_chain_HardFork till table = Some hf"
  shows "forks_ok (heights hf)" and "0 < window_size hf" and "original_version hf = 1"
proof -
  obtain hf0 where hf0: "new_HardFork 1 till DEFAULT_FORKED_TIME DEFAULT_UPDATE_TIME DEFAULT_WINDOW_SIZE DEFAULT_THRESHOLD_PERCENT = Some hf0"
    and hf: "hf = add_forks table hf0"
    using assms by (auto simp: new_chain_HardFork_def)
  have "heights hf0 = []" "0 < window_size hf0" "original_version hf0 = 1"
    using hf0 by (auto simp: new_HardFork_def split: if_splits)
  moreover have "forks_ok []" by (simp add: forks_ok_def)
  ultimately show "forks_ok (heights hf)" "0 < window_size hf" "original_version hf = 1"
    unfolding hf using add_forks_frame(1) [of hf0 table] by (simp_all add: add_forks_frame)
qed

lemma running_inv: "running table hf db \<Longrightarrow> hf_inv hf"
proof (induction rule: running.induct)
  case (start till hf0 hf)
  then show ?case using hf_init_inv(1) [OF new_chain_ok(1,2)] by blast
next
  case (block hf db b hf' db')
  then show ?case using add_inv by blast
next
  case (popped hf db n hf')
  then show ?case using popped_inv by blast
next
  case (reorganized hf db h r hf' db')
  then show ?case using reorganize_chain_inv by blast
next
  case (restarted hf db hf')
  then show ?case using hf_init_inv(1) by (auto simp: hf_inv_def)
qed

section \<open>Vote counting\<close>

text \<open>The votes that count for fork \<open>n\<close>: those for it and for the later forks.\<close>

definition votes_for :: "HardFork \<Rightarrow> nat \<Rightarrow> nat" where
  "votes_for hf n = sum_list (map (\<lambda>f. count_list (versions hf) (version f)) (drop n (heights hf)))"

definition eligible :: "HardFork \<Rightarrow> nat \<Rightarrow> nat \<Rightarrow> bool" where
  "eligible hf height n \<longleftrightarrow> n < length (heights hf) \<and> fork_height (heights hf ! n) \<le> height
    \<and> (window_size hf * unat (threshold (heights hf ! n)) + 99) div 100 \<le> votes_for hf n"

lemma votes_for_Suc:
  "n < length (heights hf) \<Longrightarrow> votes_for hf n = votes_for hf (Suc n) + count_list (versions hf) (version (heights hf ! n))"
  by (simp add: votes_for_def Cons_nth_drop_Suc [symmetric])

lemma voted_loop_step:
  assumes "last_versions hf = count_list (versions hf)" and "n < length (heights hf)"
  shows "voted_loop hf height (votes_for hf (Suc n)) (Suc n) =
    (if eligible hf height n then n else voted_loop hf height (votes_for hf n) n)"
  using votes_for_Suc [OF assms(2)] assms by (simp add: Let_def eligible_def)

lemma voted_loop_spec:
  assumes "last_versions hf = count_list (versions hf)" and "n \<le> length (heights hf)"
  shows "voted_loop hf height (votes_for hf n) n =
    (if \<exists>i < n. eligible hf height i then GREATEST i. i < n \<and> eligible hf height i else current_fork_index hf)"
  using assms(2)
proof (induction n)
  case (Suc n)
  then have n: "n < length (heights hf)" by simp
  show ?case
  proof (cases "eligible hf height n")
    case True
    have "(GREATEST i. i < Suc n \<and> eligible hf height i) = n" using True by (intro Greatest_equality) auto
    then show ?thesis using True voted_loop_step [OF assms(1) n] by auto
  next
    case False
    then have "(i < Suc n \<and> eligible hf height i) = (i < n \<and> eligible hf height i)" for i by (auto simp: less_Suc_eq)
    then show ?thesis using False Suc voted_loop_step [OF assms(1) n] by auto
  qed
qed simp

section \<open>Schedules without voting\<close>

definition no_voting :: "hardfork_t list \<Rightarrow> bool" where
  "no_voting hs \<longleftrightarrow> list_all (\<lambda>f. threshold f = 0) hs"

lemma scheduled_mono: "h \<le> h' \<Longrightarrow> scheduled hs h \<le> scheduled hs h'"
  unfolding scheduled_def by (intro diff_le_mono) (induction hs; auto)

lemma scheduled_less: "hs \<noteq> [] \<Longrightarrow> scheduled hs h < length hs"
  using length_filter_le [of "\<lambda>f. fork_height f \<le> h" hs] by (cases hs) (auto simp: scheduled_def simp del: length_filter_le)

lemma forks_ok_nth:
  assumes "forks_ok hs" and "i < j" and "j < length hs"
  shows "version (hs ! i) < version (hs ! j)" and "fork_height (hs ! i) < fork_height (hs ! j)"
  using assms sorted_wrt_nth_less [of _ hs i j] by (auto simp: forks_ok_def)

lemma filter_all_before:
  assumes "forks_ok hs" and "n < length hs" and "fork_height (hs ! n) \<le> h"
  shows "filter (\<lambda>f. fork_height f \<le> h) (take (Suc n) hs) = take (Suc n) hs"
proof (rule filter_True, rule ballI)
  fix f assume "f \<in> set (take (Suc n) hs)"
  then obtain i where "i \<le> n" "f = hs ! i" by (auto simp: in_set_conv_nth less_Suc_eq_le)
  then show "fork_height f \<le> h" using forks_ok_nth(2) [OF assms(1) _ assms(2), of i] assms(3) by (cases "i = n") auto
qed

text \<open>Search from the top for a fork whose height is reached, with the answer below the last one.\<close>

lemma scheduled_take:
  assumes "forks_ok hs" and "n < length hs"
  shows "scheduled (take (Suc n) hs) h = (if fork_height (hs ! n) \<le> h then n else scheduled (take n hs) h)"
  using filter_all_before [OF assms] assms(2) by (auto simp: scheduled_def take_Suc_conv_app_nth)

lemma height_index_scheduled:
  assumes "forks_ok hs" and "n < length hs"
  shows "height_index hs h n = scheduled (take (Suc n) hs) h"
  using assms(2)
proof (induction n)
  case 0
  then show ?case by (cases hs) (auto simp: scheduled_def)
next
  case (Suc n)
  then show ?case using scheduled_take [OF assms(1) Suc.prems, of h] by simp
qed

lemma voted_loop_no_voting:
  assumes "no_voting (heights hf)" and "forks_ok (heights hf)" and "n \<le> length (heights hf)"
  shows "voted_loop hf h a n = (if \<exists>f \<in> set (take n (heights hf)). fork_height f \<le> h then scheduled (take n (heights hf)) h
    else current_fork_index hf)"
  using assms(3)
proof (induction n arbitrary: a)
  case (Suc n)
  then have n: "n < length (heights hf)" by simp
  have "threshold (heights hf ! n) = 0" using assms(1) n by (auto simp: no_voting_def list_all_length)
  then show ?case
    using Suc.IH n scheduled_take [OF assms(2) n, of h] by (auto simp: Let_def take_Suc_conv_app_nth)
qed simp

lemma advance_no_voting:
  assumes "heights hf = hs" and "no_voting hs" and "forks_ok hs" and "current_fork_index hf = scheduled hs below" and "below \<le> h"
  shows "current_fork_index (advance hf h) = scheduled hs h"
proof -
  have v: "get_voted_fork_index hf h = (if \<exists>f \<in> set hs. fork_height f \<le> h then scheduled hs h else current_fork_index hf)"
    using voted_loop_no_voting [of hf "length hs" h 0] assms(1-3) by (simp add: get_voted_fork_index_def)
  have m: "scheduled hs below \<le> scheduled hs h" using assms(5) by (rule scheduled_mono)
  have z: "scheduled hs h = 0" if "\<not> (\<exists>f \<in> set hs. fork_height f \<le> h)"
    using that by (simp add: scheduled_def filter_empty_conv)
  show ?thesis using assms(4) m z v by (auto simp: advance_def Let_def)
qed

lemma lower_index_eq:
  assumes "forks_ok hs" and "k \<le> n" and "n < length hs"
  shows "lower_index hs (version (hs ! k)) n = k"
  using assms(2,3)
proof (induction n)
  case (Suc n)
  then show ?case using forks_ok_nth(1) [OF assms(1), of k "Suc n"] by (cases "k = Suc n") auto
qed simp

lemma version_index_eq:
  "forks_ok hs \<Longrightarrow> k < length hs \<Longrightarrow> version_index (version (hs ! k)) hs = k"
proof (induction "version (hs ! k)" hs arbitrary: k rule: version_index.induct)
  case (1 f g fs)
  show ?case
  proof (cases k)
    case (Suc j)
    have "forks_ok (g # fs)" using 1(2) by (simp add: forks_ok_def)
    moreover have "version f < version ((f # g # fs) ! k)" using forks_ok_nth(1) [OF 1(2), of 0 k] 1(3) Suc by simp
    ultimately show ?thesis using 1(1) [of j] 1(3) Suc by auto
  qed simp
qed auto

text \<open>
  The object beside its database, for a fixed list of forks: the current fork is the scheduled one for
  the next block, and every stored block passed at its height and has its version recorded.
\<close>

definition passes_at :: "hardfork_t list \<Rightarrow> nat \<Rightarrow> block_header \<Rightarrow> bool" where
  "passes_at hs h b \<longleftrightarrow> major_version b = version (hs ! scheduled hs h) \<and> get_block_vote b \<ge> version (hs ! scheduled hs h)"

definition recorded :: "hardfork_t list \<Rightarrow> nat \<Rightarrow> chain_db \<Rightarrow> bool" where
  "recorded hs n db \<longleftrightarrow> (\<forall>h < n. db_versions db h = Some (version (hs ! scheduled hs h)))"

definition follows :: "hardfork_t list \<Rightarrow> HardFork \<Rightarrow> chain_db \<Rightarrow> bool" where
  "follows hs hf db \<longleftrightarrow> hf_inv hf \<and> heights hf = hs \<and> original_version hf = 1
    \<and> current_fork_index hf = scheduled hs (db_height db) \<and> recorded hs (db_height db) db
    \<and> (\<forall>h < db_height db. passes_at hs h (db_blocks db ! h))"

definition good_table :: "hardfork_t list \<Rightarrow> bool" where
  "good_table hs \<longleftrightarrow> hs \<noteq> [] \<and> forks_ok hs \<and> no_voting hs \<and> list_all (\<lambda>f. version f \<noteq> 0) hs"

lemma add_step:
  assumes "hf_inv hf" and "no_voting (heights hf)" and "current_fork_index hf = scheduled (heights hf) h"
  shows "fst (add hf db b h) = passes_at (heights hf) h b"
    and "passes_at (heights hf) h b \<Longrightarrow>
      current_fork_index (fst (snd (add hf db b h))) = scheduled (heights hf) (h + 1)
      \<and> original_version (fst (snd (add hf db b h))) = original_version hf
      \<and> snd (snd (add hf db b h)) = db\<lparr>db_versions := (db_versions db)(h \<mapsto> version (heights hf ! scheduled (heights hf) h))\<rparr>"
proof -
  obtain vs counts where sw: "shrink_window (window_size hf) (versions hf) (last_versions hf) = (vs, counts)" by fastforce
  define hf1 where "hf1 = push_vote (get_block_vote b) (hf\<lparr>versions := vs, last_versions := counts\<rparr>)"
  have hf1: "heights hf1 = heights hf" "current_fork_index hf1 = scheduled (heights hf) h" "original_version hf1 = original_version hf"
    using assms(3) by (simp_all add: hf1_def)
  have p: "do_check hf (get_block_version b) (get_block_vote b) = passes_at (heights hf) h b"
    using assms(3) by (simp add: do_check_def passes_at_def get_block_version_def)
  show "fst (add hf db b h) = passes_at (heights hf) h b"
    using p by (simp add: add_def add_versions_def sw Let_def)
  assume pass: "passes_at (heights hf) h b"
  have a: "add hf db b h = (True, advance hf1 (h + 1), db\<lparr>db_versions := (db_versions db)(h \<mapsto> version (heights hf ! scheduled (heights hf) h))\<rparr>)"
    using p pass assms(3) by (simp add: add_def add_versions_def sw Let_def hf1_def)
  have "current_fork_index (advance hf1 (h + 1)) = scheduled (heights hf) (h + 1)"
    using assms(1,2) hf1 by (intro advance_no_voting [where below = h]) (simp_all add: hf_inv_def)
  then show "current_fork_index (fst (snd (add hf db b h))) = scheduled (heights hf) (h + 1)
      \<and> original_version (fst (snd (add hf db b h))) = original_version hf
      \<and> snd (snd (add hf db b h)) = db\<lparr>db_versions := (db_versions db)(h \<mapsto> version (heights hf ! scheduled (heights hf) h))\<rparr>"
    unfolding a using hf1 by simp
qed

lemma add_follows:
  assumes "follows hs hf db" and "no_voting hs" and "add hf db b (db_height db) = (True, hf', db')"
  shows "follows hs hf' (db'\<lparr>db_blocks := db_blocks db @ [b]\<rparr>)"
proof -
  have f: "hf_inv hf" "heights hf = hs" "original_version hf = 1" "current_fork_index hf = scheduled hs (db_height db)"
    "recorded hs (db_height db) db" "\<forall>h < db_height db. passes_at hs h (db_blocks db ! h)"
    using assms(1) by (simp_all add: follows_def)
  note s = add_step [where hf = hf and h = "db_height db" and db = db and b = b, unfolded f(2) assms(3), OF f(1) assms(2) f(4)]
  have pass: "passes_at hs (db_height db) b" using s(1) by simp
  have "hf_inv hf' \<and> heights hf' = hs" using add_inv [OF f(1) assms(3)] f(2) by simp
  then show ?thesis
    using s(2) [OF pass] f(3,5,6) pass by (auto simp: follows_def recorded_def nth_append less_Suc_eq)
qed

lemma add_stored_follows:
  assumes "hf_inv hf" and "heights hf = hs" and "no_voting hs" and "current_fork_index hf = scheduled hs h"
    and "\<forall>i < length bs. passes_at hs (h + i) (bs ! i)" and "recorded hs h db" and "add_stored bs h hf db = (hf', db')"
  shows "current_fork_index hf' = scheduled hs (h + length bs) \<and> original_version hf' = original_version hf
    \<and> db_blocks db' = db_blocks db \<and> recorded hs (h + length bs) db'"
  using assms
proof (induction bs arbitrary: h hf db)
  case (Cons b bs)
  obtain r hf1 db1 where a: "add hf db b h = (r, hf1, db1)" by (cases "add hf db b h") auto
  note s = add_step [where hf = hf and h = h and db = db and b = b, unfolded Cons.prems(2) a, OF Cons.prems(1,3,4)]
  have "passes_at hs h b" using Cons.prems(5) by auto
  note s = s(2) [OF this]
  have p: "\<forall>i < length bs. passes_at hs (h + 1 + i) (bs ! i)"
  proof (intro allI impI)
    fix i assume "i < length bs"
    then show "passes_at hs (h + 1 + i) (bs ! i)" using Cons.prems(5) [rule_format, of "Suc i"] by simp
  qed
  have inv: "hf_inv hf1 \<and> heights hf1 = hs" using add_inv [OF Cons.prems(1) a] Cons.prems(2) by simp
  have "recorded hs (h + 1) db1" using Cons.prems(6) s by (auto simp: recorded_def less_Suc_eq)
  then have "current_fork_index hf' = scheduled hs (h + 1 + length bs) \<and> original_version hf' = original_version hf1
      \<and> db_blocks db' = db_blocks db1 \<and> recorded hs (h + 1 + length bs) db'"
    using Cons.IH [of hf1 "h + 1" db1] inv s p Cons.prems(3,7) a by simp
  then show ?case using s by simp
qed (simp add: recorded_def)

lemma lower_index_first:
  assumes "forks_ok hs" and "version (hs ! 0) \<noteq> 0" and "n < length hs"
  shows "lower_index hs 1 n = 0"
  using assms(3)
proof (induction n)
  case (Suc n)
  have "version (hs ! 0) < version (hs ! Suc n)" using Suc.prems by (intro forks_ok_nth(1) [OF assms(1)]) simp_all
  moreover have "1 \<le> version (hs ! 0)" using assms(2) by (simp add: word_le_nat_alt unat_gt_0 Suc_le_eq)
  ultimately show ?case using Suc by simp
qed simp

lemma scheduled_genesis: "forks_ok hs \<Longrightarrow> scheduled hs 0 = 0"
proof (cases hs)
  case (Cons f fs)
  assume "forks_ok hs"
  then have "filter (\<lambda>g. fork_height g \<le> 0) fs = []" using Cons by (auto simp: forks_ok_def filter_empty_conv)
  then show ?thesis using Cons by (simp add: scheduled_def)
qed (simp add: scheduled_def)

lemma rebuild_follows:
  assumes "follows hs hf db" and "good_table hs" and "height < db_height db"
    and "(if height = 0 then Some (original_version hf) else db_versions db height) = Some v"
  shows "current_fork_index (rebuild hf db height v) = scheduled hs (height + 1)"
    and "original_version (rebuild hf db height v) = 1"
proof -
  have f: "hf_inv hf" "heights hf = hs" "original_version hf = 1" "current_fork_index hf = scheduled hs (db_height db)"
    "recorded hs (db_height db) db" and t: "forks_ok hs" "no_voting hs" "version (hs ! 0) \<noteq> 0"
    using assms(1,2) by (auto simp: follows_def good_table_def list_all_length)
  have n: "scheduled hs (db_height db) < length hs" using f(1,2,4) by (simp add: hf_inv_def)
  have "lower_index hs v (scheduled hs (db_height db)) = scheduled hs height"
  proof (cases "height = 0")
    case True
    then show ?thesis using assms(4) f(3) lower_index_first [OF t(1,3) n] scheduled_genesis [OF t(1)] by simp
  next
    case False
    then have "v = version (hs ! scheduled hs height)" using assms(3,4) f(5) by (simp add: recorded_def)
    moreover have "scheduled hs height \<le> scheduled hs (db_height db)" using assms(3) by (intro scheduled_mono) simp
    ultimately show ?thesis using lower_index_eq [OF t(1) _ n] by simp
  qed
  then show "current_fork_index (rebuild hf db height v) = scheduled hs (height + 1)"
    unfolding rebuild_eq using f t
    by (intro advance_no_voting [where below = height]) simp_all
  show "original_version (rebuild hf db height v) = 1" unfolding rebuild_eq using f(3) by simp
qed

lemma reorganize_follows:
  assumes "follows hs hf db" and "good_table hs" and "reorganize_from_block_height hf db height = Some (r, hf', db')"
  shows "follows hs hf' db'"
proof (cases "height \<ge> db_height db")
  case True
  then show ?thesis using assms by (simp add: reorganize_from_block_height_def)
next
  case False
  then have h: "height < db_height db" by simp
  obtain v where v: "(if height = 0 then Some (original_version hf) else db_versions db height) = Some v"
    and s: "add_stored (drop (height + 1) (db_blocks db)) (height + 1) (rebuild hf db height v) db = (hf', db')"
    using False assms(3) by (auto simp: reorganize_from_block_height_def split: option.splits prod.splits if_splits)
  have f: "hf_inv hf" "heights hf = hs" "recorded hs (db_height db) db" "\<forall>h < db_height db. passes_at hs h (db_blocks db ! h)"
    using assms(1) by (simp_all add: follows_def)
  have rb: "hf_inv (rebuild hf db height v)" "heights (rebuild hf db height v) = hs"
    using rebuild_inv [OF f(1) h] f(2) by simp_all
  have p: "\<forall>i < length (drop (height + 1) (db_blocks db)). passes_at hs (height + 1 + i) (drop (height + 1) (db_blocks db) ! i)"
    using f(4) by simp
  have rec: "recorded hs (height + 1) db" using f(3) h by (auto simp: recorded_def)
  have no: "no_voting hs" using assms(2) by (simp add: good_table_def)
  have len: "height + 1 + length (drop (height + 1) (db_blocks db)) = db_height db" using h by simp
  have "current_fork_index hf' = scheduled hs (db_height db) \<and> original_version hf' = 1
      \<and> db_blocks db' = db_blocks db \<and> recorded hs (db_height db) db'"
    using add_stored_follows [OF rb no rebuild_follows(1) [OF assms(1,2) h v] p rec s, unfolded len] rebuild_follows(2) [OF assms(1,2) h v] by simp
  moreover have "hf_inv hf' \<and> heights hf' = hs" using add_stored_inv [OF rb(1) s] rb(2) by simp
  ultimately show ?thesis using f(4) by (simp add: follows_def)
qed

lemma original_version_popped: "popped_loop db h n hf = Some hf' \<Longrightarrow> original_version hf' = original_version hf"
proof (induction n arbitrary: hf)
  case (Suc n)
  then obtain v where "popped_loop db h n (unshift_vote v (pop_vote hf)) = Some hf'" by (auto split: if_splits option.splits)
  from Suc.IH [OF this] show ?case by (simp add: unshift_vote_def pop_vote_def Let_def)
qed simp

lemma popped_follows:
  assumes "follows hs hf db" and "good_table hs" and "on_block_popped hf (db\<lparr>db_blocks := take k (db_blocks db)\<rparr>) n = Some hf'"
  shows "follows hs hf' (db\<lparr>db_blocks := take k (db_blocks db)\<rparr>)"
proof -
  have f: "hf_inv hf" "heights hf = hs" "original_version hf = 1" and hs: "forks_ok hs" "hs \<noteq> []"
    using assms(1,2) by (simp_all add: follows_def good_table_def)
  note p = popped_inv [OF f(1) assms(3)]
  have "height_index hs h (length hs - 1) = scheduled hs h" for h
    using height_index_scheduled [OF hs(1), of "length hs - 1" h] hs(2) by simp
  moreover have "original_version hf' = 1"
    using assms(3) f(3) by (auto simp: on_block_popped_def dest!: original_version_popped split: if_splits)
  ultimately show ?thesis using p f(2) assms(1) by (auto simp: follows_def recorded_def)
qed

lemma hf_init_follows:
  assumes "follows hs hf db" and "good_table hs" and "hf_init hf db = Some hf'"
  shows "follows hs hf' db"
proof -
  have f: "hf_inv hf" "heights hf = hs" "original_version hf = 1" "recorded hs (db_height db) db" "hs \<noteq> []"
    and t: "forks_ok hs" "no_voting hs"
    using assms(1,2) by (simp_all add: follows_def good_table_def)
  have inv: "hf_inv hf'" "heights hf' = hs"
    using f hf_init_inv [OF _ _ assms(3)] by (simp_all add: hf_inv_def)
  define hf1 where "hf1 = (clear_votes (with_placeholder hf))\<lparr>current_fork_index := 0\<rparr>"
  have hf1: "heights hf1 = hs" "current_fork_index hf1 = 0" "original_version hf1 = 1"
    using f by (simp_all add: hf1_def clear_votes_def with_placeholder_def)
  obtain h r where r: "rescan_from_block_height hf1 db h = Some (r, hf')" and h: "0 < db_height db \<Longrightarrow> h < db_height db"
    using assms(3) by (auto simp: hf_init_def hf1_def [symmetric] rescan_from_chain_height_def Let_def split: if_splits)
  have "current_fork_index hf' = scheduled hs (db_height db) \<and> original_version hf' = 1"
  proof (cases "db_height db = 0")
    case True
    then show ?thesis using r hf1 scheduled_genesis [OF t(1)] by (simp add: rescan_from_block_height_def)
  next
    case False
    let ?k = "scheduled hs (db_height db - 1)"
    have lastv: "db_versions db (db_height db - 1) = Some (version (hs ! ?k))" using False f(4) by (simp add: recorded_def)
    have idx: "version_index (version (hs ! ?k)) hs = ?k" using t(1) scheduled_less [OF f(5)] by (rule version_index_eq)
    obtain hf2 where hf': "hf' = advance hf2 (db_height db)" "heights hf2 = hs" "current_fork_index hf2 = ?k" "original_version hf2 = 1"
      using r h False lastv idx hf1 by (auto simp: rescan_from_block_height_def count_votes_clear Let_def)
    have "current_fork_index hf' = scheduled hs (db_height db)"
      unfolding hf'(1) using hf' t by (intro advance_no_voting [where below = "db_height db - 1"]) simp_all
    then show ?thesis using hf' by simp
  qed
  then show ?thesis using inv assms(1) by (simp add: follows_def)
qed

lemma add_forks_accept:
  "forks_ok (heights hf @ fs) \<Longrightarrow> list_all (\<lambda>f. version f \<noteq> 0) fs \<Longrightarrow> heights (add_forks fs hf) = heights hf @ fs"
proof (induction fs arbitrary: hf)
  case (Cons f fs)
  have last: "version (last (heights hf)) < version f \<and> fork_height (last (heights hf)) < fork_height f \<and> fork_time (last (heights hf)) < fork_time f"
    if "heights hf \<noteq> []"
    using Cons.prems(1) that by (auto simp: forks_ok_def sorted_wrt_append)
  have "\<not> threshold f > 100" using Cons.prems(1) by (simp add: forks_ok_def not_less)
  then have "heights (snd (add_fork hf (version f) (fork_height f) (threshold f) (fork_time f))) = heights hf @ [f]"
    using last Cons.prems(2) by (auto simp: add_fork_def)
  then show ?case using Cons.IH [of "snd (add_fork hf (version f) (fork_height f) (threshold f) (fork_time f))"] Cons.prems
    by (simp add: add_forks_def)
qed (simp add: add_forks_def)

lemma running_follows:
  assumes "good_table table"
  shows "running table hf db \<Longrightarrow> follows table hf db"
proof (induction rule: running.induct)
  case (start till hf0 hf)
  let ?db = "\<lparr>db_blocks = [], db_versions = Map.empty\<rparr> :: chain_db"
  note new = new_chain_ok [OF start(1)]
  have hs: "heights hf0 = table"
    using start(1) assms add_forks_accept
    by (auto simp: new_chain_HardFork_def new_HardFork_def good_table_def split: if_splits)
  then have "hf_inv hf" "heights hf = table" using hf_init_inv [OF new(1,2) start(2)] assms by (simp_all add: good_table_def)
  moreover have "hf = (clear_votes (with_placeholder hf0))\<lparr>current_fork_index := 0\<rparr>"
    using start(2) by (auto simp: hf_init_def rescan_from_chain_height_def rescan_from_block_height_def Let_def)
  then have "current_fork_index hf = 0" "original_version hf = 1"
    using new(3) by (simp_all add: clear_votes_def with_placeholder_def)
  ultimately show ?case using scheduled_genesis [of table] assms by (simp add: follows_def recorded_def good_table_def)
next
  case (block hf db b hf' db')
  then show ?case using assms add_follows by (simp add: good_table_def)
next
  case (popped hf db n hf')
  then show ?case using assms popped_follows by blast
next
  case (reorganized hf db h r hf' db')
  then show ?case using assms reorganize_follows by (auto simp: reorganize_from_chain_height_def split: if_splits)
next
  case (restarted hf db hf')
  then show ?case using assms hf_init_follows by blast
qed

lemma good_mainnet: "good_table mainnet_hard_forks"
  by (simp add: good_table_def forks_ok_def no_voting_def mainnet_hard_forks_def)

lemma fresh_mainnet:
  "\<exists>hf. hf_init (the (new_chain_HardFork mainnet_hard_fork_version_1_till mainnet_hard_forks)) \<lparr>db_blocks = [], db_versions = Map.empty\<rparr> = Some hf
    \<and> running mainnet_hard_forks hf \<lparr>db_blocks = [], db_versions = Map.empty\<rparr>"
proof -
  obtain hf0 where hf0: "new_chain_HardFork mainnet_hard_fork_version_1_till mainnet_hard_forks = Some hf0"
    by (simp add: new_chain_HardFork_def new_HardFork_def DEFAULT_WINDOW_SIZE_def DEFAULT_THRESHOLD_PERCENT_def)
  obtain hf where hf: "hf_init hf0 \<lparr>db_blocks = [], db_versions = Map.empty\<rparr> = Some hf"
    by (simp add: hf_init_def rescan_from_chain_height_def rescan_from_block_height_def Let_def)
  show ?thesis using running.start [OF hf0 hf] hf0 hf by simp
qed

text \<open>The time limit is never changed.\<close>

lemma forked_time_push [simp]: "forked_time (push_vote v hf) = forked_time hf"
  by (simp add: push_vote_def)

lemma forked_time_advance [simp]: "forked_time (advance hf h) = forked_time hf"
  by (simp add: advance_def Let_def)

lemma forked_time_count [simp]: "forked_time (count_votes bs hf) = forked_time hf"
  by (induction bs arbitrary: hf) (simp_all add: count_votes_def)

lemma forked_time_clear [simp]: "forked_time (clear_votes hf) = forked_time hf"
  by (simp add: clear_votes_def)

lemma forked_time_add: "add hf db b h = (r, hf', db') \<Longrightarrow> forked_time hf' = forked_time hf"
  by (auto simp: add_def add_versions_def Let_def split: if_splits prod.splits)

lemma forked_time_add_stored: "add_stored bs h hf db = (hf', db') \<Longrightarrow> forked_time hf' = forked_time hf"
  by (induction bs arbitrary: h hf db) (auto simp: forked_time_add split: prod.splits)

lemma forked_time_reorganize: "reorganize_from_chain_height hf db h = Some (r, hf', db') \<Longrightarrow> forked_time hf' = forked_time hf"
  by (auto simp: reorganize_from_chain_height_def reorganize_from_block_height_def rebuild_def Let_def
      dest!: forked_time_add_stored split: if_splits option.splits prod.splits)

lemma forked_time_init: "hf_init hf db = Some hf' \<Longrightarrow> forked_time hf' = forked_time hf"
  by (auto simp: hf_init_def rescan_from_chain_height_def rescan_from_block_height_def with_placeholder_def Let_def
      split: if_splits option.splits)

lemma forked_time_popped: "popped_loop db h n hf = Some hf' \<Longrightarrow> forked_time hf' = forked_time hf"
proof (induction n arbitrary: hf)
  case (Suc n)
  then obtain v where "popped_loop db h n (unshift_vote v (pop_vote hf)) = Some hf'" by (auto split: if_splits option.splits)
  from Suc.IH [OF this] show ?case by (simp add: unshift_vote_def pop_vote_def Let_def)
qed simp

lemma forked_time_add_forks: "forked_time (add_forks fs hf) = forked_time hf"
  by (induction fs arbitrary: hf) (simp_all add: add_forks_def add_fork_def)

lemma running_forked_time: "running table hf db \<Longrightarrow> forked_time hf = DEFAULT_FORKED_TIME"
proof (induction rule: running.induct)
  case (start till hf0 hf)
  then show ?case
    by (auto simp: new_chain_HardFork_def new_HardFork_def forked_time_add_forks dest!: forked_time_init split: if_splits)
next
  case (popped hf db n hf')
  then show ?case by (auto simp: on_block_popped_def dest!: forked_time_popped split: if_splits)
qed (auto dest: forked_time_add forked_time_reorganize forked_time_init)

section \<open>Properties\<close>

text \<open>
  C18. Through any history of additions, removals, reorganisations and restarts, for any fork table: the
  forks are in strict order of version, height and time, the current index is one of them, the count
  kept for each version is the number of its votes in the window, and the window never exceeds its
  size. So no count underflows.
\<close>

theorem hardfork_invariant:
  assumes "running table hf db"
  shows "sorted_wrt (\<lambda>f g. version f < version g \<and> fork_height f < fork_height g \<and> fork_time f < fork_time g) (heights hf)
    \<and> current_fork_index hf < length (heights hf)
    \<and> (\<forall>v. last_versions hf v = count_list (versions hf) v) \<and> length (versions hf) \<le> window_size hf"
  using running_inv [OF assms] by (simp add: hf_inv_def forks_ok_def votes_ok_def)

theorem hardfork_invariant_witness:
  "\<exists>hf. hf_init (the (new_chain_HardFork mainnet_hard_fork_version_1_till mainnet_hard_forks)) \<lparr>db_blocks = [], db_versions = Map.empty\<rparr> = Some hf
    \<and> current_fork_index hf < length (heights hf)"
  using fresh_mainnet hardfork_invariant [of mainnet_hard_forks] by blast

text \<open>
  What the vote counting decides in a running state: the highest fork whose height is reached and
  for which, together with all later forks, enough of the votes in the window were cast (the threshold
  percentage of the window size, rounded up); the current fork if there is none.
\<close>

lemma voted_fork:
  assumes "running table hf db"
  shows "get_voted_fork_index hf height =
    (if \<exists>n. eligible hf height n then GREATEST n. eligible hf height n else current_fork_index hf)"
proof -
  have c: "last_versions hf = count_list (versions hf)" using running_inv [OF assms] by (simp add: hf_inv_def votes_ok_def)
  have "votes_for hf (length (heights hf)) = 0" by (simp add: votes_for_def)
  moreover have "(n < length (heights hf) \<and> eligible hf height n) = eligible hf height n" for n by (auto simp: eligible_def)
  ultimately show ?thesis
    using voted_loop_spec [OF c order.refl, of height] by (simp add: get_voted_fork_index_def)
qed

lemma voted_fork_witness:
  "\<exists>hf. hf_init (the (new_chain_HardFork mainnet_hard_fork_version_1_till mainnet_hard_forks)) \<lparr>db_blocks = [], db_versions = Map.empty\<rparr> = Some hf
    \<and> get_voted_fork_index hf 7 = (if \<exists>n. eligible hf 7 n then GREATEST n. eligible hf 7 n else current_fork_index hf)"
  using fresh_mainnet voted_fork [of mainnet_hard_forks _ _ 7] by blast



text \<open>
  The fork times of the tables lie in 2012: in every running state and at every time from July 2013
  on the object reports that the node is likely forked.
\<close>

lemma always_likely_forked:
  assumes "running table hf db" and "table \<in> {mainnet_hard_forks, testnet_hard_forks, stagenet_hard_forks}" and "t \<ge> 1372935601"
  shows "get_state hf t = LikelyForked"
proof -
  have t: "table = mainnet_hard_forks"
    using assms(2) by (auto simp: mainnet_hard_forks_def testnet_hard_forks_def stagenet_hard_forks_def)
  have "heights hf = mainnet_hard_forks"
    using running_follows [OF good_mainnet] assms(1) by (simp add: t follows_def)
  moreover have "forked_time hf = DEFAULT_FORKED_TIME" using assms(1) by (rule running_forked_time)
  ultimately show ?thesis
    using assms(3) by (simp add: get_state_def mainnet_hard_forks_def DEFAULT_FORKED_TIME_def Let_def)
qed

lemma always_likely_forked_witness:
  "\<exists>hf. hf_init (the (new_chain_HardFork mainnet_hard_fork_version_1_till mainnet_hard_forks)) \<lparr>db_blocks = [], db_versions = Map.empty\<rparr> = Some hf
    \<and> get_state hf 1767225600 = LikelyForked"
  using fresh_mainnet always_likely_forked [of mainnet_hard_forks _ _ 1767225600] by fastforce

end
