(* ===== verification/Rolling_Median.thy ===== *)
theory Rolling_Median
  imports Block_Weight
begin

text \<open>
  The median of the last \<open>N\<close> values of a stream: \<open>contrib/epee/include/rolling_median.h\<close>. The values are
  in a ring; an array of ring indices, with positions from \<open>- N/2\<close> to \<open>(N - 1)/2\<close>, has the median at
  position 0, a heap with the smallest at the top on the positive side, and one with the largest at the
  top on the negative side. A second array holds the position of each ring index.

  Arrays are functions; what the memory holds before the first write is arbitrary. Ring indices and
  sizes are natural numbers, positions are integers; they stay far below the limits of \<open>int\<close> for every
  window whose storage can be allocated.

  The two sides mirror each other: the locale \<open>heap_side\<close> has the direction of the positions and the
  order as parameters, its lemmas on moving an entry up or down are proved once and used for both.
  They show that after any number of insertions the median is that of the values in the window.
\<close>

section \<open>Definitions\<close>

record rolling_median_t =
  rm_data :: "nat \<Rightarrow> u64"
  rm_pos :: "nat \<Rightarrow> int"
  rm_heap :: "int \<Rightarrow> nat"
  rm_N :: nat
  rm_idx :: nat
  minCt :: int
  maxCt :: int
  rm_sz :: nat

text \<open>The value at a position.\<close>

definition mmvalue :: "rolling_median_t \<Rightarrow> int \<Rightarrow> u64" where
  "mmvalue s i = rm_data s (rm_heap s i)"

definition mmless :: "rolling_median_t \<Rightarrow> int \<Rightarrow> int \<Rightarrow> bool" where
  "mmless s i j \<longleftrightarrow> mmvalue s i < mmvalue s j"

definition mmexchange :: "rolling_median_t \<Rightarrow> int \<Rightarrow> int \<Rightarrow> rolling_median_t" where
  "mmexchange s i j =
    (let t = rm_heap s i;
         h = (rm_heap s)(i := rm_heap s j, j := t)
     in s\<lparr>rm_heap := h, rm_pos := (rm_pos s)(h i := i, h j := j)\<rparr>)"

definition mmCmpExch :: "rolling_median_t \<Rightarrow> int \<Rightarrow> int \<Rightarrow> bool \<times> rolling_median_t" where
  "mmCmpExch s i j = (if mmless s i j then (True, mmexchange s i j) else (False, s))"

text \<open>Division of an \<open>int\<close> by two, which truncates towards zero.\<close>

definition half :: "int \<Rightarrow> int" where
  "half i = (if i < 0 then - (- i div 2) else i div 2)"

text \<open>
  The loops that move an entry down, from the doubled position on. They are only entered on their own
  side of 0; the sign in the condition says so, since they would not end at 0.
\<close>

function minSortDown_loop :: "rolling_median_t \<Rightarrow> int \<Rightarrow> rolling_median_t" where
  "minSortDown_loop s i =
    (if 0 < i \<and> i \<le> minCt s then
       let i = (if i < minCt s \<and> mmless s (i + 1) i then i + 1 else i)
       in case mmCmpExch s i (half i) of
            (True, s) \<Rightarrow> minSortDown_loop s (i * 2)
          | (False, s) \<Rightarrow> s
     else s)"
  by pat_completeness auto
termination
  by (relation "measure (\<lambda>(s, i). nat (minCt s + 1 - i))")
    (auto simp: mmCmpExch_def mmexchange_def Let_def split: if_splits)

definition minSortDown :: "rolling_median_t \<Rightarrow> int \<Rightarrow> rolling_median_t" where
  "minSortDown s i = minSortDown_loop s (i * 2)"

function maxSortDown_loop :: "rolling_median_t \<Rightarrow> int \<Rightarrow> rolling_median_t" where
  "maxSortDown_loop s i =
    (if i < 0 \<and> i \<ge> - maxCt s then
       let i = (if i > - maxCt s \<and> mmless s i (i - 1) then i - 1 else i)
       in case mmCmpExch s (half i) i of
            (True, s) \<Rightarrow> maxSortDown_loop s (i * 2)
          | (False, s) \<Rightarrow> s
     else s)"
  by pat_completeness auto
termination
  by (relation "measure (\<lambda>(s, i). nat (maxCt s + 1 + i))")
    (auto simp: mmCmpExch_def mmexchange_def Let_def split: if_splits)

definition maxSortDown :: "rolling_median_t \<Rightarrow> int \<Rightarrow> rolling_median_t" where
  "maxSortDown s i = maxSortDown_loop s (i * 2)"

function minSortUp :: "rolling_median_t \<Rightarrow> int \<Rightarrow> bool \<times> rolling_median_t" where
  "minSortUp s i =
    (if i > 0 then
       case mmCmpExch s i (half i) of
         (True, s) \<Rightarrow> minSortUp s (half i)
       | (False, s) \<Rightarrow> (i = 0, s)
     else (i = 0, s))"
  by pat_completeness auto
termination
  by (relation "measure (\<lambda>(s, i). nat i)") (auto simp: half_def)

function maxSortUp :: "rolling_median_t \<Rightarrow> int \<Rightarrow> bool \<times> rolling_median_t" where
  "maxSortUp s i =
    (if i < 0 then
       case mmCmpExch s (half i) i of
         (True, s) \<Rightarrow> maxSortUp s (half i)
       | (False, s) \<Rightarrow> (i = 0, s)
     else (i = 0, s))"
  by pat_completeness auto
termination
  by (relation "measure (\<lambda>(s, i). nat (- i))") (auto simp: half_def)

declare minSortDown_loop.simps [simp del] maxSortDown_loop.simps [simp del] minSortUp.simps [simp del] maxSortUp.simps [simp del]

text \<open>The initial pattern of the positions: median, max, min, max and so on.\<close>

definition fill_pos :: "nat \<Rightarrow> int" where
  "fill_pos n = int ((n + 1) div 2) * (if odd n then - 1 else 1)"

fun clear_loop :: "nat \<Rightarrow> rolling_median_t \<Rightarrow> rolling_median_t" where
  "clear_loop 0 s = s"
| "clear_loop (Suc n) s = clear_loop n (s\<lparr>rm_pos := (rm_pos s)(n := fill_pos n), rm_heap := (rm_heap s)(fill_pos n := n)\<rparr>)"

definition rm_clear :: "rolling_median_t \<Rightarrow> rolling_median_t" where
  "rm_clear s = clear_loop (rm_N s) (s\<lparr>rm_idx := 0, minCt := 0, maxCt := 0, rm_sz := 0\<rparr>)"

text \<open>The constructor; the state it is given stands for the uninitialised memory.\<close>

definition new_rolling_median :: "rolling_median_t \<Rightarrow> nat \<Rightarrow> rolling_median_t" where
  "new_rolling_median mem N = rm_clear (mem\<lparr>rm_N := N\<rparr>)"

text \<open>The two branches of \<open>insert\<close> that may end at the median.\<close>

definition min_insert :: "rolling_median_t \<Rightarrow> int \<Rightarrow> rolling_median_t" where
  "min_insert s p =
    (case minSortUp s p of
       (True, s) \<Rightarrow> (case mmCmpExch s 0 (- 1) of (True, s) \<Rightarrow> maxSortDown s (- 1) | (False, s) \<Rightarrow> s)
     | (False, s) \<Rightarrow> s)"

definition max_insert :: "rolling_median_t \<Rightarrow> int \<Rightarrow> rolling_median_t" where
  "max_insert s p =
    (case maxSortUp s p of
       (True, s) \<Rightarrow>
         (if minCt s \<noteq> 0 then case mmCmpExch s 1 0 of (True, s) \<Rightarrow> minSortDown s 1 | (False, s) \<Rightarrow> s else s)
     | (False, s) \<Rightarrow> s)"

definition rm_insert :: "rolling_median_t \<Rightarrow> u64 \<Rightarrow> rolling_median_t" where
  "rm_insert s v =
    (let p = rm_pos s (rm_idx s);
         old = rm_data s (rm_idx s);
         s = s\<lparr>rm_data := (rm_data s)(rm_idx s := v), rm_idx := (rm_idx s + 1) mod rm_N s, rm_sz := min (rm_sz s + 1) (rm_N s)\<rparr>
     in if p > 0 then
          (if minCt s < int ((rm_N s - 1) div 2) then min_insert (s\<lparr>minCt := minCt s + 1\<rparr>) p
           else if v > old then minSortDown s p
           else min_insert s p)
        else if p < 0 then
          (if maxCt s < int (rm_N s div 2) then max_insert (s\<lparr>maxCt := maxCt s + 1\<rparr>) p
           else if v < old then maxSortDown s p
           else max_insert s p)
        else
          let s = (if maxCt s \<noteq> 0 then case maxSortUp s (- 1) of (True, s) \<Rightarrow> maxSortDown s (- 1) | (False, s) \<Rightarrow> s else s);
              s = (if minCt s \<noteq> 0 then case minSortUp s 1 of (True, s) \<Rightarrow> minSortDown s 1 | (False, s) \<Rightarrow> s else s)
          in s)"

definition rm_median :: "rolling_median_t \<Rightarrow> u64" where
  "rm_median s =
    (let v = mmvalue s 0 in if minCt s < maxCt s then get_mid v (mmvalue s (- 1)) else v)"

section \<open>Exchanges\<close>

text \<open>What an exchange leaves as it is.\<close>

definition frame :: "rolling_median_t \<Rightarrow> rolling_median_t \<Rightarrow> bool" where
  "frame s s' \<longleftrightarrow> rm_data s' = rm_data s \<and> rm_N s' = rm_N s \<and> rm_idx s' = rm_idx s \<and> rm_sz s' = rm_sz s
    \<and> minCt s' = minCt s \<and> maxCt s' = maxCt s"

text \<open>The positions in use, and the invariant of the two index arrays: they are inverse to each other,
  and what is not in use has the initial pattern.\<close>

definition active :: "rolling_median_t \<Rightarrow> int set" where
  "active s = {- int (rm_sz s div 2) .. (int (rm_sz s) - 1) div 2}"

definition indices_ok :: "rolling_median_t \<Rightarrow> bool" where
  "indices_ok s \<longleftrightarrow>
    (\<forall>i \<in> active s. rm_heap s i < rm_sz s \<and> rm_pos s (rm_heap s i) = i)
    \<and> (\<forall>n < rm_sz s. rm_pos s n \<in> active s \<and> rm_heap s (rm_pos s n) = n)
    \<and> (\<forall>n. rm_sz s \<le> n \<and> n < rm_N s \<longrightarrow> rm_pos s n = fill_pos n \<and> rm_heap s (fill_pos n) = n)"

lemma frame_refl [simp]: "frame s s"
  by (simp add: frame_def)

lemma frame_trans: "frame s t \<Longrightarrow> frame t u \<Longrightarrow> frame s u"
  by (simp add: frame_def)

lemma frame_exchange [simp]: "frame s (mmexchange s i j)"
  by (simp add: frame_def mmexchange_def Let_def)

lemma active_frame: "frame s s' \<Longrightarrow> active s' = active s"
  by (simp add: frame_def active_def)

lemma mmvalue_exchange: "mmvalue (mmexchange s i j) = (mmvalue s)(i := mmvalue s j, j := mmvalue s i)"
  by (auto simp: mmvalue_def mmexchange_def Let_def)

lemma indices_ok_exchange:
  assumes "indices_ok s" and "i \<in> active s" and "j \<in> active s"
  shows "indices_ok (mmexchange s i j)"
proof -
  let ?s = "mmexchange s i j"
  have sel: "rm_sz ?s = rm_sz s" "rm_N ?s = rm_N s" "active ?s = active s"
    "rm_heap ?s = (rm_heap s)(i := rm_heap s j, j := rm_heap s i)"
    "rm_pos ?s = (rm_pos s)(rm_heap ?s i := i, rm_heap ?s j := j)"
    by (simp_all add: mmexchange_def active_def Let_def)
  have h: "rm_heap s k < rm_sz s" "rm_pos s (rm_heap s k) = k" if "k \<in> active s" for k
    using assms(1) that by (simp_all add: indices_ok_def)
  have inj: "rm_heap s k = rm_heap s l \<longleftrightarrow> k = l" if "k \<in> active s" "l \<in> active s" for k l
    using h(2) that by metis
  have p: "rm_pos s n \<in> active s" "rm_heap s (rm_pos s n) = n" if "n < rm_sz s" for n
    using assms(1) that by (simp_all add: indices_ok_def)
  have f: "rm_pos s n = fill_pos n" "rm_heap s (fill_pos n) = n" if "rm_sz s \<le> n" "n < rm_N s" for n
    using assms(1) that by (simp_all add: indices_ok_def)
  have out: "fill_pos n \<notin> active s" if "rm_sz s \<le> n" "n < rm_N s" for n
    using h(1) [of "fill_pos n"] f(2) [OF that] that(1) by auto
  show ?thesis
    unfolding indices_ok_def sel(1-3)
  proof (intro conjI ballI allI impI)
    fix k assume k: "k \<in> active s"
    show "rm_heap ?s k < rm_sz s" using h(1) assms(2,3) k by (simp add: sel(4))
    show "rm_pos ?s (rm_heap ?s k) = k" using h(2) inj assms(2,3) k by (auto simp: sel(4,5))
  next
    fix n assume n: "n < rm_sz s"
    show "rm_pos ?s n \<in> active s" using p(1) [OF n] assms(2,3) by (simp add: sel(4,5))
    show "rm_heap ?s (rm_pos ?s n) = n" using p(2) [OF n] h(2) assms(2,3) by (auto simp: sel(4,5))
  next
    fix n assume n: "rm_sz s \<le> n \<and> n < rm_N s"
    then have "n \<noteq> rm_heap ?s i" "n \<noteq> rm_heap ?s j" using h(1) [OF assms(2)] h(1) [OF assms(3)] by (auto simp: sel(4))
    then show "rm_pos ?s n = fill_pos n" using f(1) n by (simp add: sel(5))
    have "fill_pos n \<noteq> i" "fill_pos n \<noteq> j" using out assms(2,3) n by auto
    then show "rm_heap ?s (fill_pos n) = n" using f(2) n by (simp add: sel(4))
  qed
qed

section \<open>One side\<close>

text \<open>The loops for either side; \<open>k\<close> is the distance from the median.\<close>

definition exch_side :: "int \<Rightarrow> rolling_median_t \<Rightarrow> int \<Rightarrow> int \<Rightarrow> rolling_median_t" where
  "exch_side dir s child parent = (if dir = 1 then mmexchange s child parent else mmexchange s parent child)"

function sort_up :: "(u64 \<Rightarrow> u64 \<Rightarrow> bool) \<Rightarrow> int \<Rightarrow> rolling_median_t \<Rightarrow> nat \<Rightarrow> bool \<times> rolling_median_t" where
  "sort_up before dir s k =
    (if 0 < k \<and> before (mmvalue s (dir * int k)) (mmvalue s (dir * int (k div 2)))
     then sort_up before dir (exch_side dir s (dir * int k) (dir * int (k div 2))) (k div 2)
     else (k = 0, s))"
  by pat_completeness auto
termination
  by (relation "measure (\<lambda>(before, dir, s, k). k)") auto

definition smaller_child :: "(u64 \<Rightarrow> u64 \<Rightarrow> bool) \<Rightarrow> int \<Rightarrow> nat \<Rightarrow> rolling_median_t \<Rightarrow> nat \<Rightarrow> nat" where
  "smaller_child before dir c s k =
    (if k < c \<and> before (mmvalue s (dir * int (k + 1))) (mmvalue s (dir * int k)) then k + 1 else k)"

function sort_down :: "(u64 \<Rightarrow> u64 \<Rightarrow> bool) \<Rightarrow> int \<Rightarrow> nat \<Rightarrow> rolling_median_t \<Rightarrow> nat \<Rightarrow> rolling_median_t" where
  "sort_down before dir c s k =
    (if 0 < k \<and> k \<le> c then
       let k = smaller_child before dir c s k
       in if before (mmvalue s (dir * int k)) (mmvalue s (dir * int (k div 2)))
          then sort_down before dir c (exch_side dir s (dir * int k) (dir * int (k div 2))) (k * 2)
          else s
     else s)"
  by pat_completeness auto
termination
  by (relation "measure (\<lambda>(before, dir, c, s, k). c + 1 - k)") (auto simp: smaller_child_def Let_def split: if_splits)

declare sort_up.simps [simp del] sort_down.simps [simp del]

lemma frame_exch_side [simp]: "frame s (exch_side dir s i j)"
  by (simp add: exch_side_def)

lemma mmvalue_exch_side: "mmvalue (exch_side dir s i j) = (mmvalue s)(i := mmvalue s j, j := mmvalue s i)"
  by (auto simp: exch_side_def mmvalue_exchange)

lemma indices_ok_exch_side: "indices_ok s \<Longrightarrow> i \<in> active s \<Longrightarrow> j \<in> active s \<Longrightarrow> indices_ok (exch_side dir s i j)"
  by (simp add: exch_side_def indices_ok_exchange)

locale heap_side =
  fixes before :: "u64 \<Rightarrow> u64 \<Rightarrow> bool" and dir :: int and cnt :: "rolling_median_t \<Rightarrow> int"
  assumes dir: "dir = 1 \<or> dir = - 1"
    and asym: "before x y \<Longrightarrow> \<not> before y x"
    and le_trans: "\<not> before y x \<Longrightarrow> \<not> before z y \<Longrightarrow> \<not> before z x"
    and cnt_frame: "frame s s' \<Longrightarrow> cnt s' = cnt s"
begin

definition side :: "rolling_median_t \<Rightarrow> nat \<Rightarrow> u64" where
  "side s k = mmvalue s (dir * int k)"

definition ordered :: "rolling_median_t \<Rightarrow> bool" where
  "ordered s \<longleftrightarrow> (\<forall>k. 0 < k \<longrightarrow> int k \<le> cnt s \<longrightarrow> \<not> before (side s k) (side s (k div 2)))"

text \<open>Ordered but for an entry that may be too far down, or too far up.\<close>

definition up_ok :: "rolling_median_t \<Rightarrow> nat \<Rightarrow> bool" where
  "up_ok s k \<longleftrightarrow> (\<forall>j. 0 < j \<longrightarrow> int j \<le> cnt s \<longrightarrow> j \<noteq> k \<longrightarrow> \<not> before (side s j) (side s (j div 2)))
    \<and> (\<forall>j. 0 < k \<longrightarrow> j div 2 = k \<longrightarrow> int j \<le> cnt s \<longrightarrow> \<not> before (side s j) (side s (k div 2)))"

definition down_ok :: "rolling_median_t \<Rightarrow> nat \<Rightarrow> bool" where
  "down_ok s k \<longleftrightarrow> (\<forall>j. 0 < j \<longrightarrow> int j \<le> cnt s \<longrightarrow> j div 2 \<noteq> k \<longrightarrow> \<not> before (side s j) (side s (j div 2)))
    \<and> (\<forall>j. 0 < j \<longrightarrow> j div 2 = k \<longrightarrow> int j \<le> cnt s \<longrightarrow> \<not> before (side s j) (side s (k div 2)))"

definition fits :: "rolling_median_t \<Rightarrow> bool" where
  "fits s \<longleftrightarrow> (\<forall>k. int k \<le> cnt s \<longrightarrow> dir * int k \<in> active s)"

lemma irrefl: "\<not> before x x"
  using asym by blast

lemma position_eq: "dir * int j = dir * int k \<longleftrightarrow> j = k"
  using dir by auto

lemma side_exch:
  "side (exch_side dir s (dir * int a) (dir * int b)) = (side s)(a := side s b, b := side s a)"
  by (auto simp: side_def mmvalue_exch_side position_eq)

lemma other_exch:
  "dir * i < 0 \<Longrightarrow> mmvalue (exch_side dir s (dir * int a) (dir * int b)) i = mmvalue s i"
  using dir by (auto simp: mmvalue_exch_side)

lemma fits_frame: "frame s s' \<Longrightarrow> fits s' = fits s"
  by (simp add: fits_def active_frame cnt_frame)

lemma up_step:
  assumes "up_ok s k" and "0 < k" and "int k \<le> cnt s" and "before (side s k) (side s (k div 2))"
  shows "up_ok (exch_side dir s (dir * int k) (dir * int (k div 2))) (k div 2)"
proof -
  let ?p = "k div 2"
  let ?s = "exch_side dir s (dir * int k) (dir * int ?p)"
  have c: "cnt ?s = cnt s" by (rule cnt_frame) simp
  have pk: "?p \<noteq> k" using assms(2) by simp
  have e: "side ?s = (side s)(k := side s ?p, ?p := side s k)" by (rule side_exch)
  note u = assms(1) [unfolded up_ok_def]
  show ?thesis
    unfolding up_ok_def c
  proof (intro conjI allI impI)
    fix j assume j: "0 < j" "int j \<le> cnt s" "j \<noteq> ?p"
    consider (here) "j = k" | (below) "j \<noteq> k" "j div 2 = k" | (sibling) "j \<noteq> k" "j div 2 = ?p"
      | (other) "j \<noteq> k" "j div 2 \<noteq> k" "j div 2 \<noteq> ?p" by blast
    then show "\<not> before (side ?s j) (side ?s (j div 2))"
    proof cases
      case here
      then show ?thesis using asym [OF assms(4)] pk by (simp add: e)
    next
      case below
      then have "\<not> before (side s j) (side s ?p)" using u j assms(2) by blast
      then show ?thesis using below j(3) pk by (simp add: e)
    next
      case sibling
      then have "\<not> before (side s j) (side s ?p)" using u j by metis
      from le_trans [OF asym [OF assms(4)] this] show ?thesis using sibling j(3) pk by (simp add: e)
    next
      case other
      then show ?thesis using u j by (simp add: e)
    qed
  next
    fix j assume j: "0 < ?p" "j div 2 = ?p" "int j \<le> cnt s"
    have pp: "?p div 2 \<noteq> ?p" "?p div 2 \<noteq> k" "j \<noteq> ?p" using j(1,2) by auto
    have "int ?p \<le> cnt s" using assms(3) by linarith
    then have "\<not> before (side s ?p) (side s (?p div 2))" using u j(1) pk by metis
    moreover have "\<not> before (side s j) (side s ?p)" if "j \<noteq> k" using u j that by (metis gr0I div_0)
    ultimately show "\<not> before (side ?s j) (side ?s (?p div 2))"
      using pp le_trans unfolding e by (cases "j = k") auto
  qed
qed

lemma up_exit: "up_ok s k \<Longrightarrow> k = 0 \<or> \<not> before (side s k) (side s (k div 2)) \<Longrightarrow> ordered s"
  unfolding up_ok_def ordered_def by (metis neq0_conv)

text \<open>Moving an entry up orders the side. If it arrives at the median, the old median is next to it.\<close>

lemma sort_up_spec:
  assumes "indices_ok s" and "fits s" and "int k \<le> cnt s" and "up_ok s k" and "sort_up before dir s k = (b, s')"
  shows "indices_ok s' \<and> frame s s' \<and> ordered s' \<and> (\<forall>i. dir * i < 0 \<longrightarrow> mmvalue s' i = mmvalue s i)
    \<and> (if b \<and> 0 < k then side s' 0 = side s k \<and> side s' 1 = side s 0 else side s' 0 = side s 0)"
  using assms
proof (induction k arbitrary: s rule: less_induct)
  case (less k)
  show ?case
  proof (cases "0 < k \<and> before (side s k) (side s (k div 2))")
    case False
    then have "sort_up before dir s k = (k = 0, s)" by (subst sort_up.simps) (auto simp: side_def)
    then have s': "s' = s" "b = (k = 0)" using less.prems(5) by simp_all
    have "ordered s" using less.prems(4) False by (intro up_exit) auto
    then show ?thesis using s' less.prems(1) by auto
  next
    case True
    let ?s = "exch_side dir s (dir * int k) (dir * int (k div 2))"
    have f: "frame s ?s" by simp
    have h: "int (k div 2) \<le> cnt s" using less.prems(3) by linarith
    have 1: "indices_ok ?s"
      using less.prems(1-3) h by (intro indices_ok_exch_side) (auto simp: fits_def)
    have 2: "fits ?s" using less.prems(2) fits_frame [OF f] by simp
    have 3: "int (k div 2) \<le> cnt ?s" using h cnt_frame [OF f] by simp
    have 4: "up_ok ?s (k div 2)" using True less.prems(3,4) by (intro up_step) auto
    have 5: "sort_up before dir ?s (k div 2) = (b, s')"
      using less.prems(5) True by (subst (asm) sort_up.simps) (simp add: side_def)
    have "k div 2 < k" using True by simp
    note IH = less.IH [OF this 1 2 3 4 5]
    have b: "b" if "k = 1"
      using 5 that by (simp add: sort_up.simps)
    have s1: "s' = ?s" if "k = 1"
      using 5 that by (simp add: sort_up.simps)
    have e: "side ?s = (side s)(k := side s (k div 2), k div 2 := side s k)" by (rule side_exch)
    have "if b \<and> 0 < k then side s' 0 = side s k \<and> side s' 1 = side s 0 else side s' 0 = side s 0"
    proof (cases "k = 1")
      case True
      then show ?thesis using b s1 e by simp
    next
      case False
      then have "0 < k div 2" "k \<noteq> k div 2" "k \<noteq> 0" using True by auto
      then show ?thesis using IH unfolding e by (auto split: if_splits)
    qed
    moreover have "\<forall>i. dir * i < 0 \<longrightarrow> mmvalue s' i = mmvalue s i" using IH other_exch by simp
    ultimately show ?thesis using IH frame_trans [OF f] by blast
  qed
qed

lemma down_step:
  assumes "down_ok s k" and "0 < k" and "m div 2 = k" and "int m \<le> cnt s" and "before (side s m) (side s k)"
    and "\<And>j. 0 < j \<Longrightarrow> j div 2 = k \<Longrightarrow> int j \<le> cnt s \<Longrightarrow> \<not> before (side s j) (side s m)"
  shows "down_ok (exch_side dir s (dir * int m) (dir * int k)) m"
proof -
  let ?s = "exch_side dir s (dir * int m) (dir * int k)"
  have c: "cnt ?s = cnt s" by (rule cnt_frame) simp
  have e: "side ?s = (side s)(m := side s k, k := side s m)" by (rule side_exch)
  have mk: "m \<noteq> k" "k < m" "k div 2 \<noteq> k" "k div 2 \<noteq> m" "0 < m" using assms(2,3) by auto
  note d = assms(1) [unfolded down_ok_def]
  show ?thesis
    unfolding down_ok_def c
  proof (intro conjI allI impI)
    fix j assume j: "0 < j" "int j \<le> cnt s" "j div 2 \<noteq> m"
    consider (here) "j = m" | (top) "j = k" | (sibling) "j \<noteq> m" "j \<noteq> k" "j div 2 = k"
      | (other) "j \<noteq> m" "j \<noteq> k" "j div 2 \<noteq> k" by blast
    then show "\<not> before (side ?s j) (side ?s (j div 2))"
    proof cases
      case here
      then show ?thesis using asym [OF assms(5)] mk assms(3) by (simp add: e)
    next
      case top
      have "\<not> before (side s m) (side s (k div 2))" using d assms(3,4) mk(5) by blast
      then show ?thesis using top mk by (simp add: e)
    next
      case sibling
      then show ?thesis using assms(6) [of j] j mk by (simp add: e)
    next
      case other
      then show ?thesis using d j by (simp add: e)
    qed
  next
    fix j assume j: "0 < j" "j div 2 = m" "int j \<le> cnt s"
    then have "\<not> before (side s j) (side s m)" using d mk(1) by metis
    moreover have "j \<noteq> m" "j \<noteq> k" using j mk by auto
    ultimately show "\<not> before (side ?s j) (side ?s (m div 2))" using mk assms(3) by (simp add: e)
  qed
qed

lemma down_exit:
  assumes "down_ok s k" and "\<And>j. 0 < j \<Longrightarrow> j div 2 = k \<Longrightarrow> int j \<le> cnt s \<Longrightarrow> \<not> before (side s j) (side s k)"
  shows "ordered s"
  using assms unfolding down_ok_def ordered_def by metis

text \<open>The child that the loop compares is first among the children.\<close>

lemma smaller_child_facts:
  assumes "int (2 * k) \<le> cnt s" and "0 < k"
  defines "m \<equiv> smaller_child before dir (nat (cnt s)) s (2 * k)"
  shows "m div 2 = k" and "int m \<le> cnt s" and "0 < m" and "k < m"
    and "\<And>j. 0 < j \<Longrightarrow> j div 2 = k \<Longrightarrow> int j \<le> cnt s \<Longrightarrow> \<not> before (side s j) (side s m)"
proof -
  have m: "m = (if int (2 * k) < cnt s \<and> before (side s (2 * k + 1)) (side s (2 * k)) then 2 * k + 1 else 2 * k)"
    using assms(1,2) by (auto simp: m_def smaller_child_def side_def)
  show "m div 2 = k" "int m \<le> cnt s" "0 < m" "k < m" using assms(1,2) by (auto simp: m)
  fix j assume j: "0 < j" "j div 2 = k" "int j \<le> cnt s"
  then have "j = 2 * k \<or> j = 2 * k + 1" by linarith
  then show "\<not> before (side s j) (side s m)" using irrefl asym j(3) unfolding m by auto
qed

lemma sort_down_spec:
  assumes "indices_ok s" and "fits s" and "0 < k" and "down_ok s k"
  shows "indices_ok (sort_down before dir (nat (cnt s)) s (2 * k)) \<and> frame s (sort_down before dir (nat (cnt s)) s (2 * k))
    \<and> ordered (sort_down before dir (nat (cnt s)) s (2 * k))
    \<and> (\<forall>i. dir * i \<le> 0 \<longrightarrow> mmvalue (sort_down before dir (nat (cnt s)) s (2 * k)) i = mmvalue s i)"
  using assms
proof (induction "nat (cnt s) - k" arbitrary: s k rule: less_induct)
  case less
  let ?m = "smaller_child before dir (nat (cnt s)) s (2 * k)"
  show ?case
  proof (cases "int (2 * k) \<le> cnt s")
    case False
    then have "sort_down before dir (nat (cnt s)) s (2 * k) = s"
      using less.prems(3) by (subst sort_down.simps) auto
    moreover have "ordered s"
      using less.prems(4) by (rule down_exit) (use False in linarith)
    ultimately show ?thesis using less.prems(1) by simp
  next
    case True
    note m = smaller_child_facts [OF True less.prems(3)]
    have step: "sort_down before dir (nat (cnt s)) s (2 * k) =
      (if before (side s ?m) (side s k)
       then sort_down before dir (nat (cnt s)) (exch_side dir s (dir * int ?m) (dir * int k)) (2 * ?m) else s)"
      using True less.prems(3) m(1) by (subst sort_down.simps) (auto simp: side_def Let_def mult.commute)
    show ?thesis
    proof (cases "before (side s ?m) (side s k)")
      case False
      have "ordered s"
        using less.prems(4) by (rule down_exit) (use m(5) False le_trans in blast)
      then show ?thesis using False step less.prems(1) by simp
    next
      case True
      let ?s = "exch_side dir s (dir * int ?m) (dir * int k)"
      have f: "frame s ?s" by simp
      note c = cnt_frame [OF f]
      have "indices_ok ?s"
        using less.prems(1,2) m(2,4) by (intro indices_ok_exch_side) (auto simp: fits_def)
      moreover have "fits ?s" using less.prems(2) fits_frame [OF f] by simp
      moreover have "down_ok ?s ?m" using down_step [OF less.prems(4,3) m(1,2) True m(5)] .
      moreover have "nat (cnt ?s) - ?m < nat (cnt s) - k" using m(2,4) c by linarith
      ultimately have IH: "indices_ok (sort_down before dir (nat (cnt s)) ?s (2 * ?m))
        \<and> frame ?s (sort_down before dir (nat (cnt s)) ?s (2 * ?m))
        \<and> ordered (sort_down before dir (nat (cnt s)) ?s (2 * ?m))
        \<and> (\<forall>i. dir * i \<le> 0 \<longrightarrow> mmvalue (sort_down before dir (nat (cnt s)) ?s (2 * ?m)) i = mmvalue ?s i)"
        using less.hyps [of ?s ?m] m(3) unfolding c by blast
      have "mmvalue ?s i = mmvalue s i" if "dir * i \<le> 0" for i
        using that dir less.prems(3) m(3) by (auto simp: mmvalue_exch_side)
      then show ?thesis using IH True step frame_trans [OF f] by simp
    qed
  qed
qed

text \<open>A value is replaced, or added at the end.\<close>

lemma replace_up:
  assumes "ordered s" and "cnt b = cnt s" and "\<And>j. int j \<le> cnt s \<Longrightarrow> side b j = (if j = k then v else side s j)"
    and "0 < k" and "int k \<le> cnt s" and "\<not> before (side s k) v"
  shows "up_ok b k"
proof -
  have o: "\<not> before (side s j) (side s (j div 2))" if "0 < j" "int j \<le> cnt s" for j
    using assms(1) that unfolding ordered_def by blast
  have h: "int (j div 2) \<le> cnt s" if "int j \<le> cnt s" for j using that by linarith
  show ?thesis
    unfolding up_ok_def assms(2)
  proof (intro conjI allI impI)
    fix j assume j: "0 < j" "int j \<le> cnt s" "j \<noteq> k"
    show "\<not> before (side b j) (side b (j div 2))"
    proof (cases "j div 2 = k")
      case True
      then have "\<not> before (side s j) v" using le_trans [OF assms(6), of "side s j"] o [OF j(1,2)] by simp
      then show ?thesis using True j assms(3) [OF j(2)] assms(3) [OF h [OF j(2)]] by simp
    next
      case False
      then show ?thesis using o [OF j(1,2)] j assms(3) [OF j(2)] assms(3) [OF h [OF j(2)]] by simp
    qed
  next
    fix j assume j: "0 < k" "j div 2 = k" "int j \<le> cnt s"
    then have "j \<noteq> k" "0 < j" "k div 2 \<noteq> k" by auto
    moreover from this have "\<not> before (side s j) (side s k)" using o [of j] j by simp
    then have "\<not> before (side s j) (side s (k div 2))" using le_trans o [OF assms(4,5)] by blast
    ultimately show "\<not> before (side b j) (side b (k div 2))"
      using assms(3) [OF j(3)] assms(3) [OF h [OF assms(5)]] by simp
  qed
qed

lemma append_up:
  assumes "ordered s" and "cnt b = cnt s + 1" and "\<And>j. int j \<le> cnt b \<Longrightarrow> side b j = (if j = k then v else side s j)"
    and "int k = cnt b"
  shows "up_ok b k"
proof -
  have "\<not> before (side b j) (side b (j div 2))" if "0 < j" "int j \<le> cnt b" "j \<noteq> k" for j
  proof -
    have j: "int j \<le> cnt s" "j div 2 \<noteq> k" "int (j div 2) \<le> cnt b" using that assms(2,4) by linarith+
    have "\<not> before (side s j) (side s (j div 2))" using assms(1) that(1) j(1) unfolding ordered_def by blast
    then show ?thesis using assms(3) [OF that(2)] assms(3) [OF j(3)] that(3) j(2) by simp
  qed
  moreover have "\<not> int j \<le> cnt b" if "j div 2 = k" "0 < k" for j using that assms(4) by linarith
  ultimately show ?thesis unfolding up_ok_def by blast
qed

lemma replace_down:
  assumes "ordered s" and "cnt b = cnt s" and "\<And>j. int j \<le> cnt s \<Longrightarrow> side b j = (if j = k then v else side s j)"
    and "0 < k" and "int k \<le> cnt s" and "\<not> before v (side s k)"
  shows "down_ok b k"
proof -
  have o: "\<not> before (side s j) (side s (j div 2))" if "0 < j" "int j \<le> cnt s" for j
    using assms(1) that unfolding ordered_def by blast
  have h: "int (j div 2) \<le> cnt s" if "int j \<le> cnt s" for j using that by linarith
  show ?thesis
    unfolding down_ok_def assms(2)
  proof (intro conjI allI impI)
    fix j assume j: "0 < j" "int j \<le> cnt s" "j div 2 \<noteq> k"
    have "\<not> before v (side s (k div 2))" using le_trans [OF o [OF assms(4,5)] assms(6)] .
    then show "\<not> before (side b j) (side b (j div 2))"
      using o [OF j(1,2)] j assms(3) [OF j(2)] assms(3) [OF h [OF j(2)]] by (cases "j = k") simp_all
  next
    fix j assume j: "0 < j" "j div 2 = k" "int j \<le> cnt s"
    then have "j \<noteq> k" "k div 2 \<noteq> k" using assms(4) by auto
    moreover have "\<not> before (side s j) (side s k)" using o [of j] j by simp
    then have "\<not> before (side s j) (side s (k div 2))" using le_trans o [OF assms(4,5)] by blast
    ultimately show "\<not> before (side b j) (side b (k div 2))"
      using assms(3) [OF j(3)] assms(3) [OF h [OF assms(5)]] by simp
  qed
qed

text \<open>Comparing the median with the top of a side, and exchanging them where needed.\<close>

lemma root_fix:
  assumes "indices_ok s" and "fits s" and "0 < cnt s"
    and "\<And>j. 1 < j \<Longrightarrow> int j \<le> cnt s \<Longrightarrow> \<not> before (side s j) (side s (j div 2))"
  defines "t \<equiv> (if before (side s 1) (side s 0) then sort_down before dir (nat (cnt s)) (exch_side dir s dir 0) 2 else s)"
  shows "indices_ok t \<and> frame s t \<and> ordered t \<and> (\<forall>i. dir * i < 0 \<longrightarrow> mmvalue t i = mmvalue s i)
    \<and> side t 0 = (if before (side s 1) (side s 0) then side s 1 else side s 0)"
proof (cases "before (side s 1) (side s 0)")
  case False
  have "ordered s"
    unfolding ordered_def
  proof (intro allI impI)
    fix k assume "0 < k" "int k \<le> cnt s"
    then show "\<not> before (side s k) (side s (k div 2))" using assms(4) [of k] False by (cases "k = 1") auto
  qed
  then show ?thesis using False assms(1) by (simp add: t_def)
next
  case True
  let ?s = "exch_side dir s (dir * int 1) (dir * int 0)"
  have f: "frame s ?s" by simp
  note c = cnt_frame [OF f]
  have e: "side ?s = (side s)(1 := side s 0, 0 := side s 1)" by (rule side_exch)
  have a: "dir * int k \<in> active s" if "int k \<le> cnt s" for k using assms(2) that unfolding fits_def by blast
  have "indices_ok ?s" using assms(1,3) by (intro indices_ok_exch_side a) simp_all
  moreover have "fits ?s" using assms(2) fits_frame [OF f] by simp
  moreover have "down_ok ?s 1"
    unfolding down_ok_def c
  proof (intro conjI allI impI)
    fix j :: nat assume j: "0 < j" "int j \<le> cnt s" "j div 2 \<noteq> 1"
    show "\<not> before (side ?s j) (side ?s (j div 2))"
    proof (cases "j = 1")
      case here: True
      show ?thesis using asym [OF True] unfolding e here by simp
    next
      case False
      then have "1 < j" "j div 2 \<noteq> 0" using j(1) by auto
      then show ?thesis using assms(4) j False unfolding e by auto
    qed
  next
    fix j :: nat assume j: "0 < j" "j div 2 = 1" "int j \<le> cnt s"
    then show "\<not> before (side ?s j) (side ?s (1 div 2))" using assms(4) [of j] unfolding e by auto
  qed
  ultimately have d: "indices_ok (sort_down before dir (nat (cnt s)) ?s (2 * 1)) \<and> frame ?s (sort_down before dir (nat (cnt s)) ?s (2 * 1))
    \<and> ordered (sort_down before dir (nat (cnt s)) ?s (2 * 1))
    \<and> (\<forall>i. dir * i \<le> 0 \<longrightarrow> mmvalue (sort_down before dir (nat (cnt s)) ?s (2 * 1)) i = mmvalue ?s i)"
    using sort_down_spec [of ?s 1] unfolding c by simp
  have t: "t = sort_down before dir (nat (cnt s)) ?s (2 * 1)" using True by (simp add: t_def)
  have "side t 0 = side ?s 0" using d unfolding t side_def by simp
  moreover have "mmvalue t i = mmvalue s i" if "dir * i < 0" for i
    using d other_exch [of i s 1 0] that unfolding t by simp
  ultimately show ?thesis using d frame_trans [OF f] True unfolding t e by simp
qed

text \<open>A side stays ordered when only the median changes, to a value that is not after its top.\<close>

lemma ordered_change:
  assumes "ordered s" and "cnt s' = cnt s" and "\<And>k. 0 < k \<Longrightarrow> int k \<le> cnt s \<Longrightarrow> side s' k = side s k"
    and "0 < cnt s \<Longrightarrow> \<not> before (side s 1) (side s' 0)"
  shows "ordered s'"
  unfolding ordered_def assms(2)
proof (intro allI impI)
  fix k :: nat assume k: "0 < k" "int k \<le> cnt s"
  show "\<not> before (side s' k) (side s' (k div 2))"
  proof (cases "k = 1")
    case True
    then show ?thesis using assms(3) [of 1] assms(4) k by simp
  next
    case False
    then have "0 < k div 2" "int (k div 2) \<le> cnt s" using k by auto
    then show ?thesis using assms(1,3) k unfolding ordered_def by simp
  qed
qed

lemma ordered_top: "ordered s \<Longrightarrow> 0 < k \<Longrightarrow> int k \<le> cnt s \<Longrightarrow> \<not> before (side s k) (side s 1)"
proof (induction k rule: less_induct)
  case (less k)
  show ?case
  proof (cases "k = 1")
    case False
    then have "0 < k div 2" "k div 2 < k" using less.prems(2) by auto
    moreover from this have "int (k div 2) \<le> cnt s" using less.prems(3) by linarith
    ultimately show ?thesis using less.IH [of "k div 2"] less.prems le_trans unfolding ordered_def by blast
  qed (simp add: irrefl)
qed

lemma ordered_median:
  assumes "ordered s" and "int k \<le> cnt s"
  shows "\<not> before (side s k) (side s 0)"
proof (cases "k = 0")
  case True
  then show ?thesis using irrefl by simp
next
  case False
  then have k: "0 < k" "int 1 \<le> cnt s" using assms(2) by linarith+
  have "\<not> before (side s 1) (side s (1 div 2))"
    using assms(1) k(2) unfolding ordered_def by (elim allE [of _ 1]) simp
  then have "\<not> before (side s 1) (side s 0)" by simp
  from this ordered_top [OF assms(1) k(1) assms(2)] show ?thesis by (rule le_trans)
qed

end

text \<open>The two sides of the structure.\<close>

interpretation min_side: heap_side "(<)" 1 minCt
  by unfold_locales (auto simp: frame_def)

interpretation max_side: heap_side "\<lambda>x y. y < x" "- 1" maxCt
  by unfold_locales (auto simp: frame_def)

lemma half_int [simp]: "half (int k) = int (k div 2)" "half (- int k) = - int (k div 2)"
  by (simp_all add: half_def zdiv_int)

lemma minSortUp_eq: "minSortUp s (int k) = sort_up (<) 1 s k"
proof (induction k arbitrary: s rule: less_induct)
  case (less k)
  show ?case
    using less.IH [of "k div 2"]
    by (subst minSortUp.simps, subst sort_up.simps) (simp add: mmCmpExch_def mmless_def exch_side_def)
qed

lemma maxSortUp_eq: "maxSortUp s (- int k) = sort_up (\<lambda>x y. y < x) (- 1) s k"
proof (induction k arbitrary: s rule: less_induct)
  case (less k)
  show ?case
    using less.IH [of "k div 2"]
    by (subst maxSortUp.simps, subst sort_up.simps) (simp add: mmCmpExch_def mmless_def exch_side_def)
qed

lemma minSortDown_loop_eq: "minSortDown_loop s (int k) = sort_down (<) 1 (nat (minCt s)) s k"
proof (induction "nat (minCt s) + 1 - k" arbitrary: s k rule: less_induct)
  case less
  let ?m = "smaller_child (<) 1 (nat (minCt s)) s k"
  show ?case
  proof (cases "0 < k \<and> k \<le> nat (minCt s)")
    case False
    then show ?thesis by (subst minSortDown_loop.simps, subst sort_down.simps) auto
  next
    case True
    then have c: "0 < int k \<and> int k \<le> minCt s" by linarith
    have m: "(if int k < minCt s \<and> mmless s (int k + 1) (int k) then int k + 1 else int k) = int ?m"
      using c by (auto simp: smaller_child_def mmless_def add.commute)
    have "k \<le> ?m" by (simp add: smaller_child_def)
    then have "nat (minCt s) + 1 - ?m * 2 < nat (minCt s) + 1 - k" using True by linarith
    then have "nat (minCt (mmexchange s (int ?m) (int (?m div 2)))) + 1 - ?m * 2 < nat (minCt s) + 1 - k"
      by (simp add: mmexchange_def Let_def)
    from less.hyps [OF this] show ?thesis
      using True c m
      by (subst minSortDown_loop.simps, subst sort_down.simps)
        (simp add: mmCmpExch_def mmless_def exch_side_def mmexchange_def Let_def)
  qed
qed

lemma minSortDown_eq: "minSortDown s (int k) = sort_down (<) 1 (nat (minCt s)) s (2 * k)"
  using minSortDown_loop_eq [of s "2 * k"] by (simp add: minSortDown_def mult.commute)

lemma maxSortDown_loop_eq: "maxSortDown_loop s (- int k) = sort_down (\<lambda>x y. y < x) (- 1) (nat (maxCt s)) s k"
proof (induction "nat (maxCt s) + 1 - k" arbitrary: s k rule: less_induct)
  case less
  let ?m = "smaller_child (\<lambda>x y. y < x) (- 1) (nat (maxCt s)) s k"
  show ?case
  proof (cases "0 < k \<and> k \<le> nat (maxCt s)")
    case False
    then show ?thesis by (subst maxSortDown_loop.simps, subst sort_down.simps) auto
  next
    case True
    then have c: "- int k < 0 \<and> - int k \<ge> - maxCt s" by linarith
    have m: "(if - int k > - maxCt s \<and> mmless s (- int k) (- int k - 1) then - int k - 1 else - int k) = - int ?m"
      using c by (auto simp: smaller_child_def mmless_def minus_diff_commute)
    have "k \<le> ?m" by (simp add: smaller_child_def)
    then have "nat (maxCt s) + 1 - ?m * 2 < nat (maxCt s) + 1 - k" using True by linarith
    then have "nat (maxCt (mmexchange s (- int (?m div 2)) (- int ?m))) + 1 - ?m * 2 < nat (maxCt s) + 1 - k"
      by (simp add: mmexchange_def Let_def)
    from less.hyps [OF this] show ?thesis
      using True c m
      by (subst maxSortDown_loop.simps, subst sort_down.simps)
        (simp add: mmCmpExch_def mmless_def exch_side_def mmexchange_def Let_def)
  qed
qed

lemma maxSortDown_eq: "maxSortDown s (- int k) = sort_down (\<lambda>x y. y < x) (- 1) (nat (maxCt s)) s (2 * k)"
  using maxSortDown_loop_eq [of s "2 * k"] by (simp add: maxSortDown_def mult.commute)

section \<open>Insertion\<close>

lemma min_side_side: "min_side.side s k = mmvalue s (int k)"
  by (simp add: min_side.side_def)

lemma max_side_side: "max_side.side s k = mmvalue s (- int k)"
  by (simp add: max_side.side_def)

lemmas sides = min_side_side max_side_side

definition both_fit :: "rolling_median_t \<Rightarrow> bool" where
  "both_fit s \<longleftrightarrow> min_side.fits s \<and> max_side.fits s"

definition both_ordered :: "rolling_median_t \<Rightarrow> bool" where
  "both_ordered s \<longleftrightarrow> min_side.ordered s \<and> max_side.ordered s"

lemma both_fit_frame: "frame s s' \<Longrightarrow> both_fit s' = both_fit s"
  by (simp add: both_fit_def min_side.fits_frame max_side.fits_frame)

lemma frame_counts: "frame s s' \<Longrightarrow> minCt s' = minCt s" "frame s s' \<Longrightarrow> maxCt s' = maxCt s"
  by (simp_all add: frame_def)

text \<open>The comparison of the median with either top.\<close>

definition fix_max :: "rolling_median_t \<Rightarrow> rolling_median_t" where
  "fix_max s = (if mmless s 0 (- 1) then maxSortDown (mmexchange s 0 (- 1)) (- 1) else s)"

definition fix_min :: "rolling_median_t \<Rightarrow> rolling_median_t" where
  "fix_min s = (if mmless s 1 0 then minSortDown (mmexchange s 1 0) 1 else s)"

lemma fix_max_spec:
  assumes "indices_ok s" and "both_fit s" and "0 < maxCt s"
    and "\<And>j. 1 < j \<Longrightarrow> int j \<le> maxCt s \<Longrightarrow> mmvalue s (- int j) \<le> mmvalue s (- int (j div 2))"
  shows "indices_ok (fix_max s) \<and> frame s (fix_max s) \<and> max_side.ordered (fix_max s)
    \<and> (\<forall>i > 0. mmvalue (fix_max s) i = mmvalue s i) \<and> mmvalue (fix_max s) 0 = max (mmvalue s 0) (mmvalue s (- 1))"
proof -
  have c: "maxCt (mmexchange s 0 (- 1)) = maxCt s" using frame_exchange [of s 0 "- 1"] by (simp add: frame_def)
  have "fix_max s = (if mmvalue s 0 < mmvalue s (- 1)
    then sort_down (\<lambda>x y. y < x) (- 1) (nat (maxCt s)) (exch_side (- 1) s (- 1) 0) 2 else s)"
    using maxSortDown_eq [of "mmexchange s 0 (- 1)" 1] by (simp add: fix_max_def mmless_def exch_side_def c)
  moreover have "\<not> max_side.side s (j div 2) < max_side.side s j" if "1 < j" "int j \<le> maxCt s" for j
    using assms(4) that by (simp add: sides not_less)
  moreover have "max_side.fits s" using assms(2) by (simp add: both_fit_def)
  ultimately show ?thesis
    using max_side.root_fix [OF assms(1) _ assms(3)] 
    by (cases "mmvalue s 0 < mmvalue s (- 1)") (simp_all add: sides max.absorb1 max.absorb2 not_less)
qed

lemma fix_min_spec:
  assumes "indices_ok s" and "both_fit s" and "0 < minCt s"
    and "\<And>j. 1 < j \<Longrightarrow> int j \<le> minCt s \<Longrightarrow> mmvalue s (int (j div 2)) \<le> mmvalue s (int j)"
  shows "indices_ok (fix_min s) \<and> frame s (fix_min s) \<and> min_side.ordered (fix_min s)
    \<and> (\<forall>i < 0. mmvalue (fix_min s) i = mmvalue s i) \<and> mmvalue (fix_min s) 0 = min (mmvalue s 0) (mmvalue s 1)"
proof -
  have c: "minCt (mmexchange s 1 0) = minCt s" using frame_exchange [of s 1 0] by (simp add: frame_def)
  have "fix_min s = (if mmvalue s 1 < mmvalue s 0
    then sort_down (<) 1 (nat (minCt s)) (exch_side 1 s 1 0) 2 else s)"
    using minSortDown_eq [of "mmexchange s 1 0" 1] by (simp add: fix_min_def mmless_def exch_side_def c)
  moreover have "\<not> min_side.side s j < min_side.side s (j div 2)" if "1 < j" "int j \<le> minCt s" for j
    using assms(4) that by (simp add: sides not_less)
  moreover have "min_side.fits s" using assms(2) by (simp add: both_fit_def)
  ultimately show ?thesis
    using min_side.root_fix [OF assms(1) _ assms(3)] 
    by (cases "mmvalue s 1 < mmvalue s 0") (simp_all add: sides min.absorb1 min.absorb2 not_less)
qed

lemma min_insert_eq: "min_insert s p = (case minSortUp s p of (b, t) \<Rightarrow> if b then fix_max t else t)"
  by (simp add: min_insert_def fix_max_def mmCmpExch_def split: prod.split bool.split)

lemma max_insert_eq: "max_insert s p = (case maxSortUp s p of (b, t) \<Rightarrow> if b \<and> minCt t \<noteq> 0 then fix_min t else t)"
  by (simp add: max_insert_def fix_min_def mmCmpExch_def split: prod.split bool.split)

lemma min_insert_spec:
  assumes "indices_ok s" and "both_fit s" and "0 < k" and "int k \<le> minCt s" and "0 < maxCt s"
    and "min_side.up_ok s k" and "max_side.ordered s"
  shows "indices_ok (min_insert s (int k)) \<and> frame s (min_insert s (int k)) \<and> both_ordered (min_insert s (int k))"
proof -
  obtain b t where u: "minSortUp s (int k) = (b, t)" by fastforce
  have f: "min_side.fits s" using assms(2) by (simp add: both_fit_def)
  from min_side.sort_up_spec [OF assms(1) f assms(4,6) u [unfolded minSortUp_eq]] assms(3)
  have t: "indices_ok t" "frame s t" "min_side.ordered t" "\<And>i. i < 0 \<Longrightarrow> mmvalue t i = mmvalue s i"
    and b: "if b then mmvalue t 1 = mmvalue s 0 else mmvalue t 0 = mmvalue s 0"
    by (auto simp: sides split: if_splits)
  note c = frame_counts [OF t(2)]
  have neg: "mmvalue t (- int j) = mmvalue s (- int j)" if "0 < j" for j using t(4) that by simp
  have o: "mmvalue s (- int j) \<le> mmvalue s (- int (j div 2))" if "0 < j" "int j \<le> maxCt s" for j
    using assms(7) that by (simp add: max_side.ordered_def sides not_less)
  show ?thesis
  proof (cases b)
    case False
    have "max_side.ordered t"
      using assms(7) c(2)
    proof (rule max_side.ordered_change)
      show "\<not> max_side.side t 0 < max_side.side s 1" if "0 < maxCt s"
        using o [of 1] that b False by (simp add: sides not_less)
    qed (simp add: sides neg)
    then show ?thesis using False t u by (simp add: min_insert_eq both_ordered_def)
  next
    case True
    have bf: "both_fit t" using assms(2) both_fit_frame [OF t(2)] by simp
    have "mmvalue t (- int j) \<le> mmvalue t (- int (j div 2))" if "1 < j" "int j \<le> maxCt t" for j
      using o [of j] that c neg by simp
    from fix_max_spec [OF t(1) bf _ this] assms(5) c
    have m: "indices_ok (fix_max t)" "frame t (fix_max t)" "max_side.ordered (fix_max t)"
      "\<And>i. i > 0 \<Longrightarrow> mmvalue (fix_max t) i = mmvalue t i" "mmvalue (fix_max t) 0 = max (mmvalue t 0) (mmvalue t (- 1))"
      by simp_all
    have "min_side.ordered (fix_max t)"
      using t(3) frame_counts(1) [OF m(2)]
    proof (rule min_side.ordered_change)
      have "mmvalue t 0 \<le> mmvalue t 1"
        using min_side.ordered_median [OF t(3), of 1] assms(3,4) c by (simp add: sides not_less)
      moreover have "mmvalue t (- 1) \<le> mmvalue t 1" using o [of 1] neg [of 1] b True assms(5) by simp
      ultimately show "\<not> min_side.side t 1 < min_side.side (fix_max t) 0"
        using m(5) by (simp add: sides not_less)
    qed (simp add: sides m(4))
    then show ?thesis using True t u m frame_trans by (auto simp: min_insert_eq both_ordered_def)
  qed
qed

lemma max_insert_spec:
  assumes "indices_ok s" and "both_fit s" and "0 < k" and "int k \<le> maxCt s" and "0 \<le> minCt s"
    and "max_side.up_ok s k" and "min_side.ordered s"
  shows "indices_ok (max_insert s (- int k)) \<and> frame s (max_insert s (- int k)) \<and> both_ordered (max_insert s (- int k))"
proof -
  obtain b t where u: "maxSortUp s (- int k) = (b, t)" by fastforce
  have f: "max_side.fits s" using assms(2) by (simp add: both_fit_def)
  from max_side.sort_up_spec [OF assms(1) f assms(4,6) u [unfolded maxSortUp_eq]] assms(3)
  have t: "indices_ok t" "frame s t" "max_side.ordered t" "\<And>i. 0 < i \<Longrightarrow> mmvalue t i = mmvalue s i"
    and b: "if b then mmvalue t (- 1) = mmvalue s 0 else mmvalue t 0 = mmvalue s 0"
    by (auto simp: sides split: if_splits)
  note c = frame_counts [OF t(2)]
  have pos: "mmvalue t (int j) = mmvalue s (int j)" if "0 < j" for j using t(4) that by simp
  have o: "mmvalue s (int (j div 2)) \<le> mmvalue s (int j)" if "0 < j" "int j \<le> minCt s" for j
    using assms(7) that by (simp add: min_side.ordered_def sides not_less)
  show ?thesis
  proof (cases "b \<and> minCt t \<noteq> 0")
    case False
    have "min_side.ordered t"
      using assms(7) c(1)
    proof (rule min_side.ordered_change)
      show "\<not> min_side.side s 1 < min_side.side t 0" if "0 < minCt s"
        using o [of 1] that b c False by (simp add: sides not_less)
    qed (simp add: sides pos)
    then show ?thesis using False t u by (auto simp: max_insert_eq both_ordered_def)
  next
    case True
    then have m0: "0 < minCt s" using assms(5) c by simp
    have bf: "both_fit t" using assms(2) both_fit_frame [OF t(2)] by simp
    have "mmvalue t (int (j div 2)) \<le> mmvalue t (int j)" if "1 < j" "int j \<le> minCt t" for j
      using o [of j] pos [of j] pos [of "j div 2"] that c by simp
    from fix_min_spec [OF t(1) bf _ this] m0 c
    have m: "indices_ok (fix_min t)" "frame t (fix_min t)" "min_side.ordered (fix_min t)"
      "\<And>i. i < 0 \<Longrightarrow> mmvalue (fix_min t) i = mmvalue t i" "mmvalue (fix_min t) 0 = min (mmvalue t 0) (mmvalue t 1)"
      by simp_all
    have "max_side.ordered (fix_min t)"
      using t(3) frame_counts(2) [OF m(2)]
    proof (rule max_side.ordered_change)
      have "mmvalue t (- 1) \<le> mmvalue t 0"
        using max_side.ordered_median [OF t(3), of 1] assms(3,4) c by (simp add: sides not_less)
      moreover have "mmvalue t (- 1) \<le> mmvalue t 1" using o [of 1] pos [of 1] b True m0 by simp
      ultimately show "\<not> max_side.side (fix_min t) 0 < max_side.side t 1"
        using m(5) by (simp add: sides not_less)
    qed (simp add: sides m(4))
    then show ?thesis using True t u m frame_trans by (auto simp: max_insert_eq both_ordered_def)
  qed
qed

text \<open>The branch of a new value at the median.\<close>

definition median_insert :: "rolling_median_t \<Rightarrow> rolling_median_t" where
  "median_insert s =
    (let s = (if maxCt s \<noteq> 0 then fix_max s else s) in if minCt s \<noteq> 0 then fix_min s else s)"

lemma maxSortUp_top: "(case maxSortUp s (- 1) of (True, s) \<Rightarrow> maxSortDown s (- 1) | (False, s) \<Rightarrow> s) = fix_max s"
  by (subst maxSortUp.simps) (simp add: mmCmpExch_def fix_max_def half_def maxSortUp.simps [of _ 0])

lemma minSortUp_top: "(case minSortUp s 1 of (True, s) \<Rightarrow> minSortDown s 1 | (False, s) \<Rightarrow> s) = fix_min s"
  by (subst minSortUp.simps) (simp add: mmCmpExch_def fix_min_def half_def minSortUp.simps [of _ 0])

lemma median_insert_spec:
  assumes "indices_ok s" and "both_fit s" and "0 \<le> minCt s" and "0 \<le> maxCt s"
    and "\<And>j. 1 < j \<Longrightarrow> int j \<le> maxCt s \<Longrightarrow> mmvalue s (- int j) \<le> mmvalue s (- int (j div 2))"
    and "\<And>j. 1 < j \<Longrightarrow> int j \<le> minCt s \<Longrightarrow> mmvalue s (int (j div 2)) \<le> mmvalue s (int j)"
    and "0 < maxCt s \<Longrightarrow> 0 < minCt s \<Longrightarrow> mmvalue s (- 1) \<le> mmvalue s 1"
  shows "indices_ok (median_insert s) \<and> frame s (median_insert s) \<and> both_ordered (median_insert s)"
proof -
  define t where "t = (if maxCt s \<noteq> 0 then fix_max s else s)"
  have triv: "max_side.ordered u" if "maxCt u = 0" for u using that by (simp add: max_side.ordered_def)
  have triv': "min_side.ordered u" if "minCt u = 0" for u using that by (simp add: min_side.ordered_def)
  have t: "indices_ok t" "frame s t" "max_side.ordered t" "\<And>i. 0 < i \<Longrightarrow> mmvalue t i = mmvalue s i"
    and t0: "mmvalue t 0 = (if maxCt s \<noteq> 0 then max (mmvalue s 0) (mmvalue s (- 1)) else mmvalue s 0)"
    using fix_max_spec [OF assms(1,2) _ assms(5)] assms(1,4) triv by (auto simp: t_def)
  note c = frame_counts [OF t(2)]
  have top: "mmvalue t (- 1) \<le> mmvalue t 0" if "0 < maxCt s"
    using max_side.ordered_median [OF t(3), of 1] that c by (simp add: sides not_less)
  show ?thesis
  proof (cases "minCt t = 0")
    case True
    then have "median_insert s = t" by (simp add: median_insert_def t_def Let_def)
    then show ?thesis using t True triv' by (simp add: both_ordered_def)
  next
    case False
    then have m0: "0 < minCt s" using assms(3) c by simp
    have bf: "both_fit t" using assms(2) both_fit_frame [OF t(2)] by simp
    have "mmvalue t (int (j div 2)) \<le> mmvalue t (int j)" if "1 < j" "int j \<le> minCt t" for j
      using assms(6) [of j] t(4) [of "int j"] t(4) [of "int (j div 2)"] that c by simp
    from fix_min_spec [OF t(1) bf _ this] m0 c
    have m: "indices_ok (fix_min t)" "frame t (fix_min t)" "min_side.ordered (fix_min t)"
      "\<And>i. i < 0 \<Longrightarrow> mmvalue (fix_min t) i = mmvalue t i" "mmvalue (fix_min t) 0 = min (mmvalue t 0) (mmvalue t 1)"
      by simp_all
    have "max_side.ordered (fix_min t)"
      using t(3) frame_counts(2) [OF m(2)]
    proof (rule max_side.ordered_change)
      show "\<not> max_side.side (fix_min t) 0 < max_side.side t 1" if x: "0 < maxCt t"
      proof -
        have s1: "mmvalue s (- 1) \<le> mmvalue s 1" using assms(7) m0 x c by simp
        have "mmvalue t (- 1) \<le> mmvalue s 1"
        proof (cases "mmless s 0 (- 1)")
          case True
          then have "mmvalue t 0 = mmvalue s (- 1)" using t0 x c by (simp add: mmless_def max.absorb2)
          then show ?thesis using top x c s1 by simp
        next
          case False
          then have "t = s" by (simp add: t_def fix_max_def)
          then show ?thesis using s1 by simp
        qed
        then show ?thesis using top x c m(5) t(4) [of 1] by (simp add: sides not_less)
      qed
    qed (simp add: sides m(4))
    moreover have "median_insert s = fix_min t" using False by (simp add: median_insert_def t_def Let_def)
    ultimately show ?thesis using t m frame_trans by (auto simp: both_ordered_def)
  qed
qed

section \<open>The invariant\<close>

definition rm_inv :: "rolling_median_t \<Rightarrow> bool" where
  "rm_inv s \<longleftrightarrow> indices_ok s \<and> both_ordered s \<and> 0 < rm_N s \<and> rm_sz s \<le> rm_N s \<and> rm_idx s < rm_N s
    \<and> (rm_sz s < rm_N s \<longrightarrow> rm_idx s = rm_sz s)
    \<and> minCt s = int ((rm_sz s - 1) div 2) \<and> maxCt s = int (rm_sz s div 2)"

text \<open>The state after the value is stored and before it is moved.\<close>

definition stored :: "rolling_median_t \<Rightarrow> u64 \<Rightarrow> rolling_median_t" where
  "stored s v =
    (let n = min (rm_sz s + 1) (rm_N s)
     in s\<lparr>rm_data := (rm_data s)(rm_idx s := v), rm_idx := (rm_idx s + 1) mod rm_N s, rm_sz := n,
       minCt := int ((n - 1) div 2), maxCt := int (n div 2)\<rparr>)"

lemma active_stored:
  "active (stored s v) = {- int (min (rm_sz s + 1) (rm_N s) div 2) .. (int (min (rm_sz s + 1) (rm_N s)) - 1) div 2}"
  by (simp add: active_def stored_def Let_def)

lemma active_Suc: "{- int (Suc n div 2) .. (int (Suc n) - 1) div 2} = insert (fill_pos n) {- int (n div 2) .. (int n - 1) div 2}"
proof (cases "even n")
  case True
  then obtain m where "n = 2 * m" by (rule evenE)
  then show ?thesis by (auto simp: fill_pos_def)
next
  case False
  then obtain m where "n = 2 * m + 1" by (rule oddE)
  then show ?thesis by (auto simp: fill_pos_def)
qed

lemma fill_pos_fresh: "fill_pos n \<notin> {- int (n div 2) .. (int n - 1) div 2}"
proof (cases "even n")
  case True
  then obtain m where "n = 2 * m" by (rule evenE)
  then show ?thesis by (auto simp: fill_pos_def)
next
  case False
  then obtain m where "n = 2 * m + 1" by (rule oddE)
  then show ?thesis by (auto simp: fill_pos_def)
qed

lemma stored_facts:
  assumes "rm_inv s"
  defines "p \<equiv> rm_pos s (rm_idx s)"
  shows "indices_ok (stored s v)" and "p \<in> active (stored s v)"
    and "\<And>i. i \<in> active (stored s v) \<Longrightarrow> mmvalue (stored s v) i = (if i = p then v else mmvalue s i)"
    and "both_fit (stored s v)"
    and "rm_sz s < rm_N s \<Longrightarrow> p = fill_pos (rm_sz s)"
proof -
  have inv: "indices_ok s" "rm_idx s < rm_N s" "rm_sz s < rm_N s \<Longrightarrow> rm_idx s = rm_sz s" "rm_sz s \<le> rm_N s" "0 < rm_N s"
    using assms(1) by (simp_all add: rm_inv_def)
  have sel: "rm_pos (stored s v) = rm_pos s" "rm_heap (stored s v) = rm_heap s" "rm_N (stored s v) = rm_N s"
    "rm_sz (stored s v) = min (rm_sz s + 1) (rm_N s)"
    by (simp_all add: stored_def Let_def)
  show fp: "p = fill_pos (rm_sz s)" if "rm_sz s < rm_N s"
    using inv that by (simp add: p_def indices_ok_def)
  show ok: "indices_ok (stored s v)"
  proof (cases "rm_sz s < rm_N s")
    case False
    then have "rm_sz (stored s v) = rm_sz s" using inv sel by simp
    then show ?thesis using inv(1) sel by (simp add: indices_ok_def active_def)
  next
    case True
    then have z: "rm_sz (stored s v) = Suc (rm_sz s)" using sel by simp
    have a: "active (stored s v) = insert (fill_pos (rm_sz s)) (active s)"
      using True active_Suc [of "rm_sz s"] by (simp add: active_def z)
    have "rm_pos s (rm_sz s) = fill_pos (rm_sz s)" "rm_heap s (fill_pos (rm_sz s)) = rm_sz s"
      using inv(1) True by (simp_all add: indices_ok_def)
    then show ?thesis
      using inv(1) unfolding indices_ok_def sel(1-3) z a by (auto simp: less_Suc_eq)
  qed
  have idx: "rm_idx s < rm_sz (stored s v)" using inv sel by (cases "rm_sz s < rm_N s") auto
  then show pa: "p \<in> active (stored s v)" using ok sel by (simp add: indices_ok_def p_def)
  have hp: "rm_heap s p = rm_idx s" using ok idx sel by (simp add: indices_ok_def p_def)
  have ph: "rm_pos s (rm_heap s i) = i" if "i \<in> active (stored s v)" for i using ok that sel by (simp add: indices_ok_def)
  show "mmvalue (stored s v) i = (if i = p then v else mmvalue s i)" if "i \<in> active (stored s v)" for i
    using hp ph [OF that] by (auto simp: mmvalue_def p_def sel stored_def Let_def)
  show "both_fit (stored s v)"
    using inv(5) by (auto simp: both_fit_def min_side.fits_def max_side.fits_def active_def stored_def Let_def zdiv_int of_nat_diff)
qed

lemma counts_same:
  "t\<lparr>minCt := minCt t, maxCt := b\<rparr> = t\<lparr>maxCt := b\<rparr>" "t\<lparr>minCt := a, maxCt := maxCt t\<rparr> = t\<lparr>minCt := a\<rparr>"
  "t\<lparr>minCt := minCt t, maxCt := maxCt t\<rparr> = t"
  by (cases t; simp)+

lemma insert_eq:
  assumes "rm_inv s"
  defines "p \<equiv> rm_pos s (rm_idx s)" and "old \<equiv> rm_data s (rm_idx s)"
  shows "rm_insert s v =
    (if p > 0 then (if rm_sz s = rm_N s \<and> v > old then minSortDown (stored s v) p else min_insert (stored s v) p)
     else if p < 0 then (if rm_sz s = rm_N s \<and> v < old then maxSortDown (stored s v) p else max_insert (stored s v) p)
     else median_insert (stored s v))"
proof -
  define s1 where "s1 = s\<lparr>rm_data := (rm_data s)(rm_idx s := v), rm_idx := (rm_idx s + 1) mod rm_N s,
    rm_sz := min (rm_sz s + 1) (rm_N s)\<rparr>"
  have inv: "rm_sz s \<le> rm_N s" "0 < rm_N s" "minCt s = int ((rm_sz s - 1) div 2)" "maxCt s = int (rm_sz s div 2)"
    using assms(1) by (simp_all add: rm_inv_def)
  have code: "rm_insert s v =
    (if p > 0 then
       (if minCt s < int ((rm_N s - 1) div 2) then min_insert (s1\<lparr>minCt := minCt s + 1\<rparr>) p
        else if v > old then minSortDown s1 p else min_insert s1 p)
     else if p < 0 then
       (if maxCt s < int (rm_N s div 2) then max_insert (s1\<lparr>maxCt := maxCt s + 1\<rparr>) p
        else if v < old then maxSortDown s1 p else max_insert s1 p)
     else median_insert s1)"
    unfolding rm_insert_def median_insert_def s1_def p_def old_def Let_def maxSortUp_top minSortUp_top by simp
  have c1: "minCt s1 = minCt s" "maxCt s1 = maxCt s" by (simp_all add: s1_def)
  have st: "stored s v = s1\<lparr>minCt := int ((min (rm_sz s + 1) (rm_N s) - 1) div 2), maxCt := int (min (rm_sz s + 1) (rm_N s) div 2)\<rparr>"
    by (simp add: stored_def s1_def Let_def)
  have same: "stored s v = s1" if "rm_sz s = rm_N s"
    unfolding st using that inv c1 counts_same(3) [where t = s1] by simp
  show ?thesis
  proof (cases "rm_sz s = rm_N s")
    case True
    then show ?thesis unfolding code using same inv by simp
  next
    case False
    then have l: "rm_sz s < rm_N s" using inv by simp
    note fp = stored_facts(5) [OF assms(1) l, folded p_def]
    have z: "min (rm_sz s + 1) (rm_N s) = rm_sz s + 1" using l by simp
    consider (pos) m where "p > 0" "rm_sz s = 2 * m" "0 < m" | (neg) m where "p < 0" "rm_sz s = 2 * m + 1" | (zero) "p = 0" "rm_sz s = 0"
    proof (cases "even (rm_sz s)")
      case True
      then obtain m where "rm_sz s = 2 * m" by (rule evenE)
      then show ?thesis using fp that by (cases "m = 0") (auto simp: fill_pos_def)
    next
      case False
      then obtain m where "rm_sz s = 2 * m + 1" by (rule oddE)
      then show ?thesis using fp that by (auto simp: fill_pos_def)
    qed
    then show ?thesis
    proof cases
      case pos
      have "(2 * m - 1) div 2 = m - 1" "m \<le> (rm_N s - 1) div 2" using pos(2,3) l by presburger+
      then have "int (rm_sz s div 2) = minCt s + 1" "int ((rm_sz s + 1) div 2) = maxCt s1" "minCt s < int ((rm_N s - 1) div 2)"
        using pos(2,3) l inv(3,4) c1 by auto
      then have "stored s v = s1\<lparr>minCt := minCt s + 1\<rparr>" unfolding st z using counts_same(2) [where t = s1] by simp
      then show ?thesis unfolding code using pos(1) False \<open>minCt s < _\<close> by simp
    next
      case neg
      have "int ((rm_sz s + 1 - 1) div 2) = minCt s1" "int ((rm_sz s + 1) div 2) = maxCt s + 1" "maxCt s < int (rm_N s div 2)"
        using neg(2) l inv(3,4) c1 by auto
      then have "stored s v = s1\<lparr>maxCt := maxCt s + 1\<rparr>" unfolding st z using counts_same(1) [where t = s1] by simp
      then show ?thesis unfolding code using neg(1) False \<open>maxCt s < _\<close> by simp
    next
      case zero
      then have "stored s v = s1" unfolding st z using inv(3,4) c1 counts_same(3) [where t = s1] by simp
      then show ?thesis unfolding code using zero by simp
    qed
  qed
qed

lemma stored_values:
  fixes v :: u64
  assumes "rm_inv s"
  defines "p \<equiv> rm_pos s (rm_idx s)" and "b \<equiv> stored s v"
  shows "\<And>i. - maxCt b \<le> i \<Longrightarrow> i \<le> minCt b \<Longrightarrow> mmvalue b i = (if i = p then v else mmvalue s i)"
    and "- maxCt b \<le> p" and "p \<le> minCt b" and "0 \<le> minCt b" and "minCt b \<le> maxCt b"
    and "rm_sz s = rm_N s \<Longrightarrow> rm_data s (rm_idx s) = mmvalue s p \<and> minCt b = minCt s \<and> maxCt b = maxCt s"
    and "rm_sz s < rm_N s \<Longrightarrow> p > 0 \<Longrightarrow> minCt b = p \<and> minCt b = minCt s + 1 \<and> maxCt b = maxCt s"
    and "rm_sz s < rm_N s \<Longrightarrow> p < 0 \<Longrightarrow> maxCt b = - p \<and> maxCt b = maxCt s + 1 \<and> minCt b = minCt s"
    and "rm_sz s < rm_N s \<Longrightarrow> p = 0 \<Longrightarrow> minCt b = 0 \<and> maxCt b = 0"
proof -
  have inv: "indices_ok s" "0 < rm_N s" "rm_sz s \<le> rm_N s" "rm_idx s < rm_N s"
    "minCt s = int ((rm_sz s - 1) div 2)" "maxCt s = int (rm_sz s div 2)"
    using assms by (simp_all add: rm_inv_def)
  define n where "n = min (rm_sz s + 1) (rm_N s)"
  have n: "0 < n" using inv(2) by (simp add: n_def)
  have c: "minCt b = int ((n - 1) div 2)" "maxCt b = int (n div 2)" by (simp_all add: b_def stored_def Let_def n_def)
  have "(int n - 1) div 2 = int ((n - 1) div 2)" using n by (simp add: zdiv_int of_nat_diff)
  then have a: "active b = {- maxCt b .. minCt b}" unfolding c unfolding b_def active_stored n_def [symmetric] by simp
  note st = stored_facts(2,3) [OF assms(1), where v = v, folded p_def b_def]
  show "mmvalue b i = (if i = p then v else mmvalue s i)" if "- maxCt b \<le> i" "i \<le> minCt b" for i
    using st(2) that by (simp add: a)
  show "- maxCt b \<le> p" "p \<le> minCt b" using st(1) by (simp_all add: a)
  show "0 \<le> minCt b" "minCt b \<le> maxCt b" by (simp_all add: c div_le_mono)
  show "rm_data s (rm_idx s) = mmvalue s p \<and> minCt b = minCt s \<and> maxCt b = maxCt s" if "rm_sz s = rm_N s"
    using inv that by (simp add: p_def indices_ok_def mmvalue_def c n_def)
  assume l: "rm_sz s < rm_N s"
  note fp = stored_facts(5) [OF assms(1) l, folded p_def]
  have nl: "n = rm_sz s + 1" using l by (simp add: n_def)
  show "minCt b = p \<and> minCt b = minCt s + 1 \<and> maxCt b = maxCt s" if "p > 0"
  proof -
    have "even (rm_sz s)" "0 < rm_sz s" using that unfolding fp fill_pos_def by (auto intro: ccontr split: if_splits)
    then obtain m where m: "rm_sz s = 2 * m" "0 < m" by auto
    then have "(2 * m - 1) div 2 = m - 1" by presburger
    then show ?thesis using m unfolding fp by (simp add: c nl inv(5,6) fill_pos_def)
  qed
  show "maxCt b = - p \<and> maxCt b = maxCt s + 1 \<and> minCt b = minCt s" if "p < 0"
  proof -
    have "odd (rm_sz s)" using that unfolding fp fill_pos_def by (auto split: if_splits)
    then obtain m where m: "rm_sz s = 2 * m + 1" by (rule oddE)
    then show ?thesis unfolding fp by (simp add: c nl inv(5,6) fill_pos_def)
  qed
  show "minCt b = 0 \<and> maxCt b = 0" if "p = 0"
  proof -
    have "rm_sz s = 0" using that unfolding fp fill_pos_def by (auto split: if_splits)
    then show ?thesis by (simp add: c nl)
  qed
qed

lemma insert_positive:
  assumes "rm_inv s" and "rm_pos s (rm_idx s) > 0"
  shows "indices_ok (rm_insert s v) \<and> frame (stored s v) (rm_insert s v) \<and> both_ordered (rm_insert s v)"
proof -
  let ?b = "stored s v"
  obtain k where p: "rm_pos s (rm_idx s) = int k" and k: "0 < k" using assms(2) by (metis zero_less_imp_eq_int)
  note sv = stored_values [OF assms(1), where v = v, unfolded p]
  note st = stored_facts(1,4) [OF assms(1), of v]
  have inv: "rm_sz s \<le> rm_N s" "min_side.ordered s" "max_side.ordered s"
    using assms(1) by (simp_all add: rm_inv_def both_ordered_def)
  have side: "min_side.side ?b j = (if j = k then v else min_side.side s j)" if "int j \<le> minCt ?b" for j
    using sv(1) [of "int j"] sv(4,5) that by (simp add: sides)
  have other: "mmvalue ?b i = mmvalue s i" if "- maxCt ?b \<le> i" "i \<le> 0" for i
    using sv(1) [OF that(1)] sv(4) that(2) k by simp
  have mx: "maxCt ?b = maxCt s" using sv(6,7) k inv(1) by (cases "rm_sz s = rm_N s") auto
  have "max_side.ordered ?b"
    using inv(3) mx
  proof (rule max_side.ordered_change)
    show "max_side.side ?b j = max_side.side s j" if "0 < j" "int j \<le> maxCt s" for j
      using other [of "- int j"] that mx by (simp add: sides)
    show "\<not> max_side.side ?b 0 < max_side.side s 1" if "0 < maxCt s"
      using max_side.ordered_median [OF inv(3), of 1] other [of 0] that mx by (simp add: sides)
  qed
  note hi = this
  show ?thesis
  proof (cases "rm_sz s = rm_N s \<and> v > rm_data s (rm_idx s)")
    case True
    have "min_side.down_ok ?b k"
      using inv(2) sv(6) True side sv(3) k by (intro min_side.replace_down [where s = s and v = v]) (auto simp: sides)
    moreover have e: "rm_insert s v = sort_down (<) 1 (nat (minCt ?b)) ?b (2 * k)"
      using insert_eq [OF assms(1)] p k True by (simp add: minSortDown_eq)
    ultimately have d: "indices_ok (rm_insert s v)" "frame ?b (rm_insert s v)" "min_side.ordered (rm_insert s v)"
      "\<And>i. i \<le> 0 \<Longrightarrow> mmvalue (rm_insert s v) i = mmvalue ?b i"
      using min_side.sort_down_spec [OF st(1) _ k] st(2) by (auto simp: both_fit_def)
    have "max_side.ordered (rm_insert s v)"
      using hi frame_counts(2) [OF d(2)]
    proof (rule max_side.ordered_change)
      show "\<not> max_side.side (rm_insert s v) 0 < max_side.side ?b 1" if "0 < maxCt ?b"
        using max_side.ordered_median [OF hi, of 1] d(4) [of 0] that by (simp add: sides)
    qed (simp add: sides d(4))
    then show ?thesis using d by (simp add: both_ordered_def)
  next
    case False
    have "min_side.up_ok ?b k"
    proof (cases "rm_sz s = rm_N s")
      case True
      then show ?thesis
        using inv(2) sv(6) False side sv(3) k
        by (intro min_side.replace_up [where s = s and v = v]) (auto simp: sides not_less)
    next
      case False
      then show ?thesis
        using inv(1,2) sv(7) side k by (intro min_side.append_up [where s = s and v = v]) auto
    qed
    moreover have "rm_insert s v = min_insert ?b (int k)" using insert_eq [OF assms(1)] p k False by auto
    moreover have "0 < maxCt ?b" using sv(3,5) k by linarith
    ultimately show ?thesis using min_insert_spec [OF st k sv(3)] hi by simp
  qed
qed

lemma insert_negative:
  assumes "rm_inv s" and "rm_pos s (rm_idx s) < 0"
  shows "indices_ok (rm_insert s v) \<and> frame (stored s v) (rm_insert s v) \<and> both_ordered (rm_insert s v)"
proof -
  let ?b = "stored s v"
  obtain k where p: "rm_pos s (rm_idx s) = - int k" and k: "0 < k"
    using assms(2) by (metis neg_0_less_iff_less minus_minus zero_less_imp_eq_int)
  note sv = stored_values [OF assms(1), where v = v, unfolded p]
  note st = stored_facts(1,4) [OF assms(1), of v]
  have inv: "rm_sz s \<le> rm_N s" "min_side.ordered s" "max_side.ordered s"
    using assms(1) by (simp_all add: rm_inv_def both_ordered_def)
  have range: "int k \<le> maxCt ?b" using sv(2) by simp
  have side: "max_side.side ?b j = (if j = k then v else max_side.side s j)" if "int j \<le> maxCt ?b" for j
    using sv(1) [of "- int j"] sv(4,5) that by (simp add: sides)
  have other: "mmvalue ?b i = mmvalue s i" if "0 \<le> i" "i \<le> minCt ?b" for i
    using sv(1) [OF _ that(2)] sv(4,5) that(1) k by simp
  have mn: "minCt ?b = minCt s" using sv(6,8) k inv(1) by (cases "rm_sz s = rm_N s") auto
  have lo: "min_side.ordered ?b"
    using inv(2) mn
  proof (rule min_side.ordered_change)
    show "min_side.side ?b j = min_side.side s j" if "0 < j" "int j \<le> minCt s" for j
      using other [of "int j"] that mn by (simp add: sides)
    show "\<not> min_side.side s 1 < min_side.side ?b 0" if "0 < minCt s"
      using min_side.ordered_median [OF inv(2), of 1] other [of 0] that mn by (simp add: sides)
  qed
  show ?thesis
  proof (cases "rm_sz s = rm_N s \<and> v < rm_data s (rm_idx s)")
    case True
    have "max_side.down_ok ?b k"
      using inv(3) sv(6) True side range k by (intro max_side.replace_down [where s = s and v = v]) (auto simp: sides)
    moreover have e: "rm_insert s v = sort_down (\<lambda>x y. y < x) (- 1) (nat (maxCt ?b)) ?b (2 * k)"
      using insert_eq [OF assms(1)] p k True by (simp add: maxSortDown_eq)
    ultimately have d: "indices_ok (rm_insert s v)" "frame ?b (rm_insert s v)" "max_side.ordered (rm_insert s v)"
      "\<And>i. 0 \<le> i \<Longrightarrow> mmvalue (rm_insert s v) i = mmvalue ?b i"
      using max_side.sort_down_spec [OF st(1) _ k] st(2) by (auto simp: both_fit_def)
    have "min_side.ordered (rm_insert s v)"
      using lo frame_counts(1) [OF d(2)]
    proof (rule min_side.ordered_change)
      show "\<not> min_side.side ?b 1 < min_side.side (rm_insert s v) 0" if "0 < minCt ?b"
        using min_side.ordered_median [OF lo, of 1] d(4) [of 0] that by (simp add: sides)
    qed (simp add: sides d(4))
    then show ?thesis using d by (simp add: both_ordered_def)
  next
    case False
    have "max_side.up_ok ?b k"
    proof (cases "rm_sz s = rm_N s")
      case True
      then show ?thesis
        using inv(3) sv(6) False side range k
        by (intro max_side.replace_up [where s = s and v = v]) (auto simp: sides not_less)
    next
      case False
      then show ?thesis
        using inv(1,3) sv(8) side k by (intro max_side.append_up [where s = s and v = v]) auto
    qed
    moreover have "rm_insert s v = max_insert ?b (- int k)" using insert_eq [OF assms(1)] p k False by auto
    ultimately show ?thesis using max_insert_spec [OF st k range sv(4)] lo by simp
  qed
qed

lemma insert_zero:
  assumes "rm_inv s" and "rm_pos s (rm_idx s) = 0"
  shows "indices_ok (rm_insert s v) \<and> frame (stored s v) (rm_insert s v) \<and> both_ordered (rm_insert s v)"
proof -
  let ?b = "stored s v"
  note sv = stored_values [OF assms(1), where v = v, unfolded assms(2)]
  note st = stored_facts(1,4) [OF assms(1), of v]
  have inv: "rm_sz s \<le> rm_N s" "min_side.ordered s" "max_side.ordered s"
    using assms(1) by (simp_all add: rm_inv_def both_ordered_def)
  have full: "rm_sz s = rm_N s" if "0 < maxCt ?b" using sv(9) that inv(1) by (cases "rm_sz s = rm_N s") auto
  have e: "rm_insert s v = median_insert ?b" using insert_eq [OF assms(1)] assms(2) by simp
  have same: "mmvalue ?b i = mmvalue s i" if "- maxCt ?b \<le> i" "i \<le> minCt ?b" "i \<noteq> 0" for i
    using sv(1) [OF that(1,2)] that(3) by simp
  show ?thesis
    unfolding e
  proof (rule median_insert_spec [OF st sv(4)])
    show "0 \<le> maxCt ?b" using sv(4,5) by simp
    show "mmvalue ?b (- int j) \<le> mmvalue ?b (- int (j div 2))" if "1 < j" "int j \<le> maxCt ?b" for j
    proof -
      have c: "maxCt ?b = maxCt s" using sv(6) full that by simp
      have "mmvalue s (- int j) \<le> mmvalue s (- int (j div 2))"
        using inv(3) that c by (simp add: max_side.ordered_def sides not_less)
      then show ?thesis using same [of "- int j"] same [of "- int (j div 2)"] that sv(4) by simp
    qed
    show "mmvalue ?b (int (j div 2)) \<le> mmvalue ?b (int j)" if "1 < j" "int j \<le> minCt ?b" for j
    proof -
      have c: "minCt ?b = minCt s" using sv(5,6) full that by simp
      have "mmvalue s (int (j div 2)) \<le> mmvalue s (int j)"
        using inv(2) that c by (simp add: min_side.ordered_def sides not_less)
      then show ?thesis using same [of "int j"] same [of "int (j div 2)"] that sv(4,5) by simp
    qed
    show "mmvalue ?b (- 1) \<le> mmvalue ?b 1" if "0 < maxCt ?b" "0 < minCt ?b"
      using max_side.ordered_median [OF inv(3), of 1] min_side.ordered_median [OF inv(2), of 1]
        sv(6) [OF full [OF that(1)]] same [of "- 1"] same [of 1] that by (simp add: sides)
  qed
qed

lemma insert_inv:
  assumes "rm_inv s"
  shows "rm_inv (rm_insert s v)" and "frame (stored s v) (rm_insert s v)"
proof -
  have *: "indices_ok (rm_insert s v) \<and> frame (stored s v) (rm_insert s v) \<and> both_ordered (rm_insert s v)"
    using insert_positive [OF assms] insert_negative [OF assms] insert_zero [OF assms]
    by (cases "rm_pos s (rm_idx s)" "0 :: int" rule: linorder_cases) auto
  then show "frame (stored s v) (rm_insert s v)" by simp
  define n where "n = min (rm_sz s + 1) (rm_N s)"
  have "0 < rm_N s" "n \<le> rm_N s" using assms by (simp_all add: rm_inv_def n_def)
  moreover have "n < rm_N s \<Longrightarrow> (rm_idx s + 1) mod rm_N s = n"
    using assms by (auto simp: rm_inv_def n_def min_def split: if_splits)
  ultimately show "rm_inv (rm_insert s v)"
    using * by (auto simp: rm_inv_def frame_def stored_def Let_def n_def)
qed

section \<open>The window\<close>

text \<open>The values in the ring after a history of insertions.\<close>

definition holds :: "rolling_median_t \<Rightarrow> u64 list \<Rightarrow> bool" where
  "holds s xs \<longleftrightarrow> rm_inv s \<and> rm_idx s = length xs mod rm_N s \<and> rm_sz s = min (length xs) (rm_N s)
    \<and> (\<forall>t < length xs. length xs - rm_N s \<le> t \<longrightarrow> rm_data s (t mod rm_N s) = xs ! t)"

lemma clear_loop_sel:
  "rm_data (clear_loop n s) = rm_data s" "rm_N (clear_loop n s) = rm_N s" "rm_idx (clear_loop n s) = rm_idx s"
  "rm_sz (clear_loop n s) = rm_sz s" "minCt (clear_loop n s) = minCt s" "maxCt (clear_loop n s) = maxCt s"
  by (induction n arbitrary: s) simp_all

lemma fill_pos_inj: "fill_pos m = fill_pos n \<longleftrightarrow> m = n"
proof
  assume e: "fill_pos m = fill_pos n"
  show "m = n"
  proof (cases "even m"; cases "even n")
    assume "even m" "even n"
    then show ?thesis using e by (auto elim!: evenE simp: fill_pos_def)
  next
    assume "odd m" "odd n"
    then show ?thesis using e by (auto elim!: oddE simp: fill_pos_def)
  qed (use e in \<open>auto elim!: evenE oddE simp: fill_pos_def\<close>)
qed simp

lemma clear_loop_fill:
  "(m < n \<longrightarrow> rm_pos (clear_loop n s) m = fill_pos m \<and> rm_heap (clear_loop n s) (fill_pos m) = m)
    \<and> (n \<le> m \<longrightarrow> rm_pos (clear_loop n s) m = rm_pos s m \<and> rm_heap (clear_loop n s) (fill_pos m) = rm_heap s (fill_pos m))"
  by (induction n arbitrary: s) (auto simp: fill_pos_inj less_Suc_eq)

lemma holds_clear: "0 < rm_N s \<Longrightarrow> holds (rm_clear s) []"
  by (auto simp: holds_def rm_clear_def clear_loop_sel clear_loop_fill rm_inv_def indices_ok_def active_def
      both_ordered_def min_side.ordered_def max_side.ordered_def)

lemma holds_new: "0 < N \<Longrightarrow> holds (new_rolling_median mem N) []"
  by (simp add: new_rolling_median_def holds_clear)

lemma holds_insert:
  assumes "holds s xs"
  shows "holds (rm_insert s v) (xs @ [v])"
proof -
  have h: "rm_inv s" "rm_idx s = length xs mod rm_N s" "rm_sz s = min (length xs) (rm_N s)" "0 < rm_N s"
    and d: "\<And>t. t < length xs \<Longrightarrow> length xs - rm_N s \<le> t \<Longrightarrow> rm_data s (t mod rm_N s) = xs ! t"
    using assms by (simp_all add: holds_def rm_inv_def)
  note i = insert_inv [OF h(1), of v]
  have f: "rm_data (rm_insert s v) = (rm_data s)(rm_idx s := v)" "rm_N (rm_insert s v) = rm_N s"
    "rm_idx (rm_insert s v) = (rm_idx s + 1) mod rm_N s" "rm_sz (rm_insert s v) = min (rm_sz s + 1) (rm_N s)"
    using i(2) by (simp_all add: frame_def stored_def Let_def)
  have "rm_data (rm_insert s v) (t mod rm_N s) = (xs @ [v]) ! t"
    if t: "t < Suc (length xs)" "Suc (length xs) - rm_N s \<le> t" for t
  proof (cases "t = length xs")
    case True
    then show ?thesis by (simp add: f h(2))
  next
    case False
    then have "t < length xs" "length xs - t < rm_N s" using t h(4) by linarith+
    then have "t mod rm_N s \<noteq> length xs mod rm_N s"
      by (metis less_imp_le mod_eq_dvd_iff_nat nat_dvd_not_less zero_less_diff)
    then show ?thesis using d [of t] \<open>t < length xs\<close> t(2) by (simp add: f h(2) nth_append)
  qed
  then show ?thesis
    using i(1) h by (auto simp: holds_def f mod_Suc_eq min_def)
qed

lemma holds_inserts: "holds s xs \<Longrightarrow> holds (fold (\<lambda>v s. rm_insert s v) vs s) (xs @ vs)"
proof (induction vs arbitrary: s xs)
  case (Cons v vs)
  then show ?case using Cons.IH [OF holds_insert [OF Cons.prems, of v]] by simp
qed simp

lemma inserts_N: "holds s xs \<Longrightarrow> rm_N (fold (\<lambda>v s. rm_insert s v) vs s) = rm_N s"
proof (induction vs arbitrary: s xs)
  case (Cons v vs)
  have "rm_inv s" using Cons.prems by (simp add: holds_def)
  then have "rm_N (rm_insert s v) = rm_N s" using insert_inv(2) by (auto simp: frame_def stored_def Let_def)
  then show ?case using Cons.IH [OF holds_insert [OF Cons.prems, of v]] by simp
qed simp

lemma ring_image:
  fixes N len :: nat
  assumes "0 < N"
  shows "inj_on (\<lambda>t. t mod N) {len - N..<len}" and "(\<lambda>t. t mod N) ` {len - N..<len} = {0..<min len N}"
proof -
  show i: "inj_on (\<lambda>t. t mod N) {len - N..<len}"
  proof (rule linorder_inj_onI)
    fix t u assume *: "t < u" "t \<in> {len - N..<len}" "u \<in> {len - N..<len}"
    then have "0 < u - t" "u - t < N" by auto
    then show "t mod N \<noteq> u mod N" using *(1) by (metis less_imp_le mod_eq_dvd_iff_nat nat_dvd_not_less)
  qed auto
  have "(\<lambda>t. t mod N) ` {len - N..<len} \<subseteq> {0..<min len N}"
    using assms by (auto simp: less_le_trans [OF le_less_trans [OF mod_less_eq_dividend]])
  moreover have "card ((\<lambda>t. t mod N) ` {len - N..<len}) = card {0..<min len N}" using i by (simp add: card_image)
  ultimately show "(\<lambda>t. t mod N) ` {len - N..<len} = {0..<min len N}" by (intro card_subset_eq) auto
qed

lemma mset_window:
  assumes "holds s xs"
  shows "mset (drop (length xs - rm_N s) xs) = image_mset (mmvalue s) (mset_set (active s))"
proof -
  let ?W = "{length xs - rm_N s..<length xs}"
  have N: "0 < rm_N s" and ok: "indices_ok s" and sz: "rm_sz s = min (length xs) (rm_N s)"
    using assms by (simp_all add: holds_def rm_inv_def)
  have "drop (length xs - rm_N s) xs = map ((!) xs) [length xs - rm_N s..<length xs]"
    by (rule nth_equalityI) simp_all
  then have "mset (drop (length xs - rm_N s) xs) = image_mset ((!) xs) (mset_set ?W)" by simp
  also have "\<dots> = image_mset (\<lambda>t. rm_data s (t mod rm_N s)) (mset_set ?W)"
    using assms by (intro image_mset_cong) (simp add: holds_def)
  also have "\<dots> = image_mset (rm_data s) (mset_set {0..<rm_sz s})"
  proof -
    have "mset_set {0..<rm_sz s} = image_mset (\<lambda>t. t mod rm_N s) (mset_set ?W)"
      using ring_image [OF N, of "length xs"] image_mset_mset_set sz by metis
    then show ?thesis by (simp add: image_mset.compositionality comp_def)
  qed
  also have "mset_set {0..<rm_sz s} = image_mset (rm_heap s) (mset_set (active s))"
  proof -
    have "inj_on (rm_heap s) (active s)" using ok by (intro inj_on_inverseI [of _ "rm_pos s"]) (simp add: indices_ok_def)
    moreover have "rm_heap s ` active s = {0..<rm_sz s}" using ok by (force simp: indices_ok_def image_iff)
    ultimately show ?thesis using image_mset_mset_set by metis
  qed
  also have "image_mset (rm_data s) (image_mset (rm_heap s) (mset_set (active s))) = image_mset (mmvalue s) (mset_set (active s))"
    by (simp add: image_mset.compositionality comp_def mmvalue_def cong: image_mset_cong)
  finally show ?thesis .
qed

lemma mset_positions:
  "image_mset f (mset_set {- int a..int b}) =
    mset (map (\<lambda>k. f (- int k)) [1..<Suc a]) + {#f 0#} + mset (map (\<lambda>k. f (int k)) [1..<Suc b])"
proof -
  let ?l = "map (\<lambda>k. - int k) [1..<Suc a] @ [0] @ map int [1..<Suc b]"
  have "x \<in> set ?l" if "x \<in> {- int a..int b}" for x
  proof (cases x "0 :: int" rule: linorder_cases)
    case less
    then have "x = - int (nat (- x))" "nat (- x) \<in> {1..<Suc a}" using that by auto
    then show ?thesis by (metis (no_types, lifting) UnI1 imageI set_append set_map set_upt)
  next
    case greater
    then have "x = int (nat x)" "nat x \<in> {1..<Suc b}" using that by auto
    then show ?thesis by (metis (no_types, lifting) UnI2 imageI set_append set_map set_upt)
  qed simp
  then have "{- int a..int b} \<subseteq> set ?l" by blast
  then have "set ?l = {- int a..int b}" by (intro equalityI) (auto simp del: upt_Suc)
  moreover have "distinct ?l" by (auto simp: distinct_map inj_on_def)
  ultimately have "mset_set {- int a..int b} = mset ?l" by (metis mset_set_set)
  then show ?thesis by (simp add: comp_def image_mset.compositionality del: upt_Suc)
qed

lemma get_mid_commute: "get_mid a b = get_mid b a"
  by (simp add: get_mid_def ac_simps)

lemma last_sorted_max:
  fixes l :: "'a::linorder list"
  assumes "sorted l" and "x \<in> set l" and "\<And>y. y \<in> set l \<Longrightarrow> y \<le> x"
  shows "l ! (length l - 1) = x"
proof -
  have "l \<noteq> []" using assms(2) by auto
  obtain i where i: "i < length l" "l ! i = x" using assms(2) by (auto simp: in_set_conv_nth)
  have "x \<le> l ! (length l - 1)" using i assms(1) by (auto simp: sorted_iff_nth_mono)
  moreover have "l ! (length l - 1) \<le> x" using assms(3) \<open>l \<noteq> []\<close> by simp
  ultimately show ?thesis by simp
qed

lemma rm_median_window:
  assumes "holds s xs" and "xs \<noteq> []"
  shows "rm_median s = median (drop (length xs - rm_N s) xs)"
proof -
  let ?q = "drop (length xs - rm_N s) xs"
  have inv: "0 < rm_N s" "min_side.ordered s" "max_side.ordered s" "minCt s = int ((rm_sz s - 1) div 2)" "maxCt s = int (rm_sz s div 2)"
    and sz: "rm_sz s = min (length xs) (rm_N s)"
    using assms(1) by (simp_all add: holds_def rm_inv_def both_ordered_def)
  define n where "n = rm_sz s"
  have n: "0 < n" "length ?q = n" using assms(2) inv(1) sz by (simp_all add: n_def)
  define L where "L = sort (map (\<lambda>k. mmvalue s (- int k)) [1..<Suc (n div 2)])"
  define R where "R = sort (map (\<lambda>k. mmvalue s (int k)) [1..<Suc ((n - 1) div 2)])"
  have act: "active s = {- int (n div 2)..int ((n - 1) div 2)}"
    using n(1) by (simp add: active_def n_def zdiv_int of_nat_diff)
  have "mset (L @ mmvalue s 0 # R) = mset ?q"
    unfolding mset_window [OF assms(1)] act mset_positions by (simp add: L_def R_def del: upt_Suc)
  moreover have Lle: "x \<le> mmvalue s 0" if "x \<in> set L" for x
    using that max_side.ordered_median [OF inv(3)] inv(5) by (auto simp: L_def sides n_def not_less simp del: upt_Suc)
  have "mmvalue s 0 \<le> x" if "x \<in> set R" for x
    using that min_side.ordered_median [OF inv(2)] inv(4) by (auto simp: R_def sides n_def not_less simp del: upt_Suc)
  then have "sorted (L @ mmvalue s 0 # R)"
    using Lle by (fastforce simp: sorted_append L_def R_def simp del: upt_Suc)
  ultimately have sorted: "sort ?q = L @ mmvalue s 0 # R" by (metis properties_for_sort)
  have len: "length L = n div 2" by (simp add: L_def del: upt_Suc)
  have top: "L ! (n div 2 - 1) = mmvalue s (- 1)" if "0 < n div 2"
  proof -
    have "mmvalue s (- 1) \<in> set L" using that by (force simp: L_def image_iff simp del: upt_Suc)
    moreover have "x \<le> mmvalue s (- 1)" if "x \<in> set L" for x
      using that max_side.ordered_top [OF inv(3)] inv(5) by (auto simp: L_def sides n_def not_less simp del: upt_Suc)
    ultimately show ?thesis using last_sorted_max [of L] len by (simp add: L_def del: upt_Suc)
  qed
  show ?thesis
  proof (cases "n = 1")
    case True
    then obtain x where x: "?q = [x]" using n(2) by (metis One_nat_def length_0_conv length_Suc_conv)
    have "length L = 0" using True len by simp
    then have "x = mmvalue s 0" using sorted x by simp
    then show ?thesis using x True inv(4,5) by (simp add: rm_median_def median_def n_def)
  next
    case False
    have mid: "sort ?q ! (n div 2) = mmvalue s 0" using sorted len by (simp add: nth_append)
    have below: "sort ?q ! (n div 2 - 1) = mmvalue s (- 1)"
      using sorted len top n(1) False by (simp add: nth_append)
    have even: "minCt s < maxCt s \<longleftrightarrow> n mod 2 = 0" using n(1) inv(4,5) unfolding n_def by presburger
    show ?thesis using n mid below even False
      by (auto simp: rm_median_def median_def Let_def get_mid_commute [of "mmvalue s 0"])
  qed
qed

lemma new_N: "rm_N (new_rolling_median mem N) = N"
  by (simp add: new_rolling_median_def rm_clear_def clear_loop_sel)

text \<open>
  C4. The rolling median, for a window of any positive size, any initial memory and any history of
  insertions: what \<open>median\<close> returns is the median, as defined by sorting, of the last \<open>N\<close> values inserted
  (of all of them while there are fewer).
\<close>

theorem rolling_median_correct:
  assumes "0 < N" and "xs \<noteq> []"
  shows "rm_median (fold (\<lambda>v s. rm_insert s v) xs (new_rolling_median mem N)) = median (drop (length xs - N) xs)"
  using rm_median_window [OF holds_inserts [OF holds_new [OF assms(1)], where vs = xs and mem1 = mem]] assms(2)
  by (simp add: inserts_N [OF holds_new [OF assms(1)]] new_N)

theorem rolling_median_correct_witness:
  "rm_median (fold (\<lambda>v s. rm_insert s v) [5, 1, 4, 2, 9, 7]
     (new_rolling_median \<lparr>rm_data = \<lambda>_. 0, rm_pos = \<lambda>_. 0, rm_heap = \<lambda>_. 0, rm_N = 0, rm_idx = 0, minCt = 0, maxCt = 0, rm_sz = 0\<rparr> 4)) = 5"
  by (subst rolling_median_correct) (simp_all add: median_def get_mid_def Let_def)

end
