(* ===== verification/Long_Term_Weight.thy ===== *)
theory Long_Term_Weight
  imports Rolling_Median Tree_Hash
begin

text \<open>
  The cached median of the long-term block weights and what the chain derives from it:
  \<open>Blockchain::get_long_term_block_weight_median\<close> and its callers in
  \<open>src/cryptonote_core/blockchain.cpp\<close>. The cache is a rolling median and the id of the last block whose
  weight went into it; a request is answered from the cache, by moving the window by one block, or by
  filling the cache again.

  The database is the list of its blocks by height. Of a block only the id, the weight and the long-term
  weight matter here. Between two requests the chain may grow, lose blocks or be reorganised: a run is a
  list of chains, one for each request.

  The lemmas show that every answer is the median of the last weights of the chain of that request, when
  ids identify the chain up to the block they name.
\<close>

section \<open>Definitions\<close>

definition CRYPTONOTE_LONG_TERM_BLOCK_WEIGHT_WINDOW_SIZE :: nat where
  "CRYPTONOTE_LONG_TERM_BLOCK_WEIGHT_WINDOW_SIZE = 100000"

record block_info =
  bi_hash :: bytes
  bi_weight :: u64
  bi_long_term_block_weight :: u64

type_synonym db = "block_info list"

text \<open>
  The fields of the blocks from a height on, at most \<open>count'\<close> of them; a start above the chain is an error.
  The records of a height are what the database's cursor delivers for it.
\<close>

definition get_block_info_64bit_fields :: "db \<Rightarrow> nat \<Rightarrow> nat \<Rightarrow> (block_info \<Rightarrow> u64) \<Rightarrow> u64 list option" where
  "get_block_info_64bit_fields db start_height count' field =
    (if length db \<le> start_height then None else Some (map field (take count' (drop start_height db))))"

definition get_long_term_block_weights :: "db \<Rightarrow> nat \<Rightarrow> nat \<Rightarrow> u64 list option" where
  "get_long_term_block_weights db start_height count' =
    get_block_info_64bit_fields db start_height count' bi_long_term_block_weight"

record weights_cache =
  cache_tip_hash :: bytes
  cache_rolling_median :: rolling_median_t

definition new_weights_cache :: "rolling_median_t \<Rightarrow> nat \<Rightarrow> weights_cache" where
  "new_weights_cache mem window = \<lparr>cache_tip_hash = null_hash, cache_rolling_median = new_rolling_median mem window\<rparr>"

text \<open>The result is \<open>None\<close> where the code throws; the second component is the cache afterwards.\<close>

definition get_long_term_block_weight_median :: "db \<Rightarrow> nat \<Rightarrow> nat \<Rightarrow> weights_cache \<Rightarrow> u64 option \<times> weights_cache" where
  "get_long_term_block_weight_median db start_height count' c =
    (if count' = 0 then (None, c)
     else
       let blockchain_height = length db;
           tip_height = start_height + count' - 1;
           rm = cache_rolling_median c;
           known = (tip_height < blockchain_height \<and> count' = rm_sz rm);
           tip_hash = (if known then bi_hash (db ! tip_height) else null_hash);
           cached = (known \<and> tip_hash = cache_tip_hash c)
       in if cached then (Some (rm_median rm), c)
          else if 0 < tip_height \<and> known \<and> bi_hash (db ! (tip_height - 1)) = cache_tip_hash c then
            let rm = rm_insert rm (bi_long_term_block_weight (db ! tip_height))
            in (Some (rm_median rm), \<lparr>cache_tip_hash = tip_hash, cache_rolling_median = rm\<rparr>)
          else
            case get_long_term_block_weights db start_height count' of
              None \<Rightarrow> (None, c)
            | Some weights \<Rightarrow>
                let rm = fold (\<lambda>w rm. rm_insert rm w) weights (rm_clear rm)
                in (Some (rm_median rm), \<lparr>cache_tip_hash = tip_hash, cache_rolling_median = rm\<rparr>))"

text \<open>The request of the callers: the last blocks of the chain, as many as the window holds.\<close>

definition request_median :: "nat \<Rightarrow> db \<Rightarrow> weights_cache \<Rightarrow> u64 option \<times> weights_cache" where
  "request_median window db c =
    (let db_height = length db;
         nblocks = min window db_height
     in get_long_term_block_weight_median db (db_height - nblocks) nblocks c)"

definition next_long_term_block_weight ::
    "nat \<Rightarrow> u8 \<Rightarrow> db \<Rightarrow> u64 \<Rightarrow> weights_cache \<Rightarrow> u64 option \<times> weights_cache" where
  "next_long_term_block_weight window hf_version db block_weight c =
    (if hf_version < HF_VERSION_LONG_TERM_BLOCK_WEIGHT then (Some block_weight, c)
     else
       case request_median window db c of
         (None, c) \<Rightarrow> (None, c)
       | (Some long_term_median, c) \<Rightarrow> (Some (get_next_long_term_block_weight hf_version long_term_median block_weight), c))"

definition next_cumulative_weight_limit ::
    "nat \<Rightarrow> u8 \<Rightarrow> db \<Rightarrow> weight_state \<times> weights_cache \<Rightarrow> (weight_state \<times> weights_cache) option" where
  "next_cumulative_weight_limit window hf_version db sc =
    (let (s, c) = sc; weights = map bi_weight db
     in if hf_version < HF_VERSION_LONG_TERM_BLOCK_WEIGHT
        then Some (update_next_cumulative_weight_limit hf_version weights 0 s, c)
        else
          case request_median window db c of
            (None, c) \<Rightarrow> None
          | (Some long_term_median, c) \<Rightarrow>
              Some (update_next_cumulative_weight_limit hf_version weights long_term_median s, c))"

section \<open>The cache\<close>

text \<open>The long-term weights of the last blocks of a chain.\<close>

definition window_weights :: "nat \<Rightarrow> db \<Rightarrow> u64 list" where
  "window_weights window db = map bi_long_term_block_weight (drop (length db - window) db)"

text \<open>
  Ids identify blocks: two blocks of the chains of a run that have the same id have the same blocks before
  them, and no block has the null id.
\<close>

definition ids_identify :: "db set \<Rightarrow> bool" where
  "ids_identify dbs \<longleftrightarrow>
    (\<forall>d \<in> dbs. \<forall>e \<in> dbs. \<forall>i < length d. \<forall>j < length e. bi_hash (d ! i) = bi_hash (e ! j) \<longrightarrow> take (Suc i) d = take (Suc j) e)
    \<and> (\<forall>d \<in> dbs. \<forall>b \<in> set d. bi_hash b \<noteq> null_hash)"

fun median_requests :: "nat \<Rightarrow> db list \<Rightarrow> weights_cache \<Rightarrow> u64 option list" where
  "median_requests window [] c = []"
| "median_requests window (db # dbs) c =
    (case request_median window db c of (m, c) \<Rightarrow> m # median_requests window dbs c)"

lemma length_window_weights [simp]: "length (window_weights window db) = min window (length db)"
  by (simp add: window_weights_def)

lemma window_weights_Suc:
  assumes "0 < window" and "window \<le> i" and "i < length d"
  shows "window_weights window (take (Suc i) d) = tl (window_weights window (take i d)) @ [bi_long_term_block_weight (d ! i)]"
proof -
  have "drop (Suc i - window) (take (Suc i) d) = tl (drop (i - window) (take i d)) @ [d ! i]"
    using assms by (simp add: take_Suc_conv_app_nth Suc_diff_le drop_Suc tl_drop)
  then show ?thesis using assms by (simp add: window_weights_def map_tl)
qed

lemma clear_N: "rm_N (rm_clear s) = rm_N s"
  by (simp add: rm_clear_def clear_loop_sel)

text \<open>What a filled rolling median is: the last weights of a chain of the run are in it.\<close>

definition filled :: "nat \<Rightarrow> db \<Rightarrow> rolling_median_t \<Rightarrow> bool" where
  "filled window d rm \<longleftrightarrow> rm_N rm = window \<and> (\<exists>xs. holds rm xs \<and> drop (length xs - window) xs = window_weights window d)"

lemma filled_size:
  assumes "filled window d rm"
  shows "rm_sz rm = min window (length d)"
proof -
  obtain xs where xs: "rm_N rm = window" "holds rm xs" "drop (length xs - window) xs = window_weights window d"
    using assms by (auto simp: filled_def)
  have "length (drop (length xs - window) xs) = min window (length d)" by (simp add: xs(3))
  then show ?thesis using xs(1,2) by (auto simp: holds_def)
qed

lemma filled_median:
  assumes "filled window d rm" and "0 < window" and "d \<noteq> []"
  shows "rm_median rm = median (window_weights window d)"
proof -
  obtain xs where xs: "rm_N rm = window" "holds rm xs" "drop (length xs - window) xs = window_weights window d"
    using assms(1) by (auto simp: filled_def)
  have "length (window_weights window d) \<noteq> 0" using assms(2,3) by simp
  then have "xs \<noteq> []" using xs(3) by (metis drop_Nil list.size(3))
  then show ?thesis using rm_median_window [OF xs(2)] xs(1,3) by simp
qed

lemma filled_insert:
  assumes "filled window (take i d) rm" and "0 < window" and "window \<le> i" and "i < length d"
  shows "filled window (take (Suc i) d) (rm_insert rm (bi_long_term_block_weight (d ! i)))"
proof -
  let ?w = "bi_long_term_block_weight (d ! i)"
  obtain xs where xs: "rm_N rm = window" "holds rm xs" "drop (length xs - window) xs = window_weights window (take i d)"
    using assms(1) by (auto simp: filled_def)
  have "length (drop (length xs - window) xs) = window" using assms(3,4) by (simp add: xs(3))
  then have l: "window \<le> length xs" by simp
  then have "drop (length (xs @ [?w]) - window) (xs @ [?w]) = tl (drop (length xs - window) xs) @ [?w]"
    using assms(2) by (simp add: Suc_diff_le drop_Suc tl_drop)
  moreover have "rm_N (rm_insert rm ?w) = window" using inserts_N [OF xs(2), of "[?w]"] xs(1) by simp
  ultimately show ?thesis
    using holds_insert [OF xs(2), of ?w] xs(3) window_weights_Suc [OF assms(2-4)] unfolding filled_def by metis
qed

lemma filled_again:
  assumes "0 < rm_N rm"
  shows "filled (rm_N rm) d (fold (\<lambda>w rm. rm_insert rm w) (window_weights (rm_N rm) d) (rm_clear rm))"
  using holds_inserts [OF holds_clear [OF assms], of "window_weights (rm_N rm) d"] inserts_N [OF holds_clear [OF assms]]
  by (auto simp: filled_def clear_N intro!: exI [of _ "window_weights (rm_N rm) d"])

text \<open>The invariant of the cache: its tip is the null id, or names the block its last weight is of.\<close>

definition cache_ok :: "db set \<Rightarrow> nat \<Rightarrow> weights_cache \<Rightarrow> bool" where
  "cache_ok dbs window c \<longleftrightarrow>
    rm_N (cache_rolling_median c) = window \<and>
    (cache_tip_hash c = null_hash \<or>
      (\<exists>d \<in> dbs. \<exists>i < length d. cache_tip_hash c = bi_hash (d ! i) \<and> filled window (take (Suc i) d) (cache_rolling_median c)))"

lemma new_cache_ok: "cache_ok dbs window (new_weights_cache mem window)"
  by (simp add: cache_ok_def new_weights_cache_def new_N)

lemma cache_ok_at:
  assumes "cache_ok dbs window c" and "ids_identify dbs" and "db \<in> dbs" and "j < length db"
    and "bi_hash (db ! j) = cache_tip_hash c"
  shows "filled window (take (Suc j) db) (cache_rolling_median c)"
proof -
  have "bi_hash (db ! j) \<noteq> null_hash" using assms(2-4) by (auto simp: ids_identify_def)
  then obtain d i where d: "d \<in> dbs" "i < length d" "cache_tip_hash c = bi_hash (d ! i)"
    "filled window (take (Suc i) d) (cache_rolling_median c)" using assms(1,5) by (auto simp: cache_ok_def)
  then have "take (Suc j) db = take (Suc i) d" using assms(2-5) unfolding ids_identify_def by metis
  then show ?thesis using d(4) by simp
qed

lemma cache_ok_tip:
  assumes "filled window db rm" and "db \<in> dbs" and "db \<noteq> []" and "h = bi_hash (db ! (length db - 1)) \<or> h = null_hash"
  shows "cache_ok dbs window \<lparr>cache_tip_hash = h, cache_rolling_median = rm\<rparr>"
proof -
  have "length db - 1 < length db" "take (Suc (length db - 1)) db = db" using assms(3) by simp_all
  moreover have "rm_N rm = window" using assms(1) by (simp add: filled_def)
  ultimately show ?thesis using assms unfolding cache_ok_def by (metis weights_cache.select_convs)
qed

lemma request_median_correct:
  assumes ok: "cache_ok dbs window c" and ids: "ids_identify dbs" and db: "db \<in> dbs" "db \<noteq> []" and N: "0 < window"
  shows "\<exists>c'. request_median window db c = (Some (median (window_weights window db)), c') \<and> cache_ok dbs window c'
    \<and> filled window db (cache_rolling_median c')"
proof -
  let ?rm = "cache_rolling_median c"
  let ?tip = "length db - 1"
  let ?known = "min window (length db) = rm_sz ?rm"
  have N': "rm_N ?rm = window" using ok by (simp add: cache_ok_def)
  have h: "min window (length db) \<noteq> 0" "length db - min window (length db) + min window (length db) - 1 = ?tip"
    "?tip < length db" "Suc ?tip = length db" "length db - min window (length db) < length db"
    using db(2) N by auto
  consider (cached) "?known" "bi_hash (db ! ?tip) = cache_tip_hash c"
    | (incremental) "?known" "bi_hash (db ! ?tip) \<noteq> cache_tip_hash c" "0 < ?tip" "bi_hash (db ! (?tip - 1)) = cache_tip_hash c"
    | (uncached) "\<not> (?known \<and> bi_hash (db ! ?tip) = cache_tip_hash c)"
        "\<not> (0 < ?tip \<and> ?known \<and> bi_hash (db ! (?tip - 1)) = cache_tip_hash c)"
    by metis
  then show ?thesis
  proof cases
    case cached
    then have f: "filled window db ?rm" using cache_ok_at [OF ok ids db(1) h(3)] h(4) by simp
    then have "rm_median ?rm = median (window_weights window db)" using filled_median N db(2) by blast
    then show ?thesis
      using cached ok h f by (simp add: request_median_def get_long_term_block_weight_median_def Let_def)
  next
    case incremental
    let ?rm' = "rm_insert ?rm (bi_long_term_block_weight (db ! ?tip))"
    have "Suc (?tip - 1) = ?tip" "?tip - 1 < length db" using incremental(3) by simp_all
    then have f: "filled window (take ?tip db) ?rm"
      using cache_ok_at [OF ok ids db(1), of "?tip - 1"] incremental(4) by (simp only:)
    then have "window \<le> ?tip" using filled_size [OF f] incremental(1) h by (simp add: min_def split: if_splits)
    then have f': "filled window db ?rm'" using filled_insert [OF f N _ h(3)] h(4) by simp
    then have "rm_median ?rm' = median (window_weights window db)" using filled_median N db(2) by blast
    then show ?thesis
      using incremental cache_ok_tip [OF f' db] h f'
      by (simp add: request_median_def get_long_term_block_weight_median_def Let_def)
  next
    case uncached
    let ?w = "window_weights window db"
    let ?rm' = "fold (\<lambda>w rm. rm_insert rm w) ?w (rm_clear ?rm)"
    have "take (min window (length db)) (drop (length db - min window (length db)) db) = drop (length db - window) db"
      by (simp add: min_def)
    then have w: "get_long_term_block_weights db (length db - min window (length db)) (min window (length db)) = Some ?w"
      using h(5) by (simp add: get_long_term_block_weights_def get_block_info_64bit_fields_def window_weights_def)
    have f': "filled window db ?rm'" using filled_again [of ?rm] N' N by simp
    then have "rm_median ?rm' = median ?w" using filled_median N db(2) by blast
    then show ?thesis
      using uncached cache_ok_tip [OF f' db] h w f'
      by (auto simp: request_median_def get_long_term_block_weight_median_def Let_def)
  qed
qed

lemma median_requests_correct:
  assumes "cache_ok D window c" and "ids_identify D" and "set dbs \<subseteq> D" and "[] \<notin> set dbs" and "0 < window"
  shows "median_requests window dbs c = map (\<lambda>db. Some (median (window_weights window db))) dbs"
  using assms
proof (induction dbs arbitrary: c)
  case (Cons db dbs)
  then obtain c' where "request_median window db c = (Some (median (window_weights window db)), c')" "cache_ok D window c'"
    using request_median_correct [of D window c db] by auto
  then show ?case using Cons by simp
qed simp

text \<open>The cache after a run, and what the callers derive from it.\<close>

fun cache_after :: "nat \<Rightarrow> db list \<Rightarrow> weights_cache \<Rightarrow> weights_cache" where
  "cache_after window [] c = c"
| "cache_after window (db # dbs) c = cache_after window dbs (snd (request_median window db c))"

lemma cache_after_ok:
  assumes "cache_ok D window c" and "ids_identify D" and "set dbs \<subseteq> D" and "[] \<notin> set dbs" and "0 < window"
  shows "cache_ok D window (cache_after window dbs c)"
  using assms
proof (induction dbs arbitrary: c)
  case (Cons db dbs)
  then obtain c' where "request_median window db c = (Some (median (window_weights window db)), c')" "cache_ok D window c'"
    using request_median_correct [of D window c db] by auto
  then show ?case using Cons by simp
qed simp

lemma cache_after_filled:
  assumes "ids_identify (insert db (set dbs))" and "[] \<notin> insert db (set dbs)" and "0 < window"
  shows "filled window db (cache_rolling_median (cache_after window (dbs @ [db]) (new_weights_cache mem window)))"
proof -
  let ?c = "cache_after window dbs (new_weights_cache mem window)"
  have "cache_ok (insert db (set dbs)) window ?c"
    using cache_after_ok [OF new_cache_ok assms(1)] assms(2,3) by blast
  then have "filled window db (cache_rolling_median (snd (request_median window db ?c)))"
    using request_median_correct [OF _ assms(1), of window ?c db] assms(2,3) by auto
  moreover have "cache_after window (dbs @ [db]) c = snd (request_median window db (cache_after window dbs c))" for c
    by (induction dbs arbitrary: c) simp_all
  ultimately show ?thesis by simp
qed

lemma weights_from_cache:
  assumes "ids_identify (insert db (set dbs))" and "[] \<notin> insert db (set dbs)" and "0 < window"
    and c: "c = cache_after window dbs (new_weights_cache mem window)"
  shows "fst (next_long_term_block_weight window hf_version db block_weight c) =
      Some (get_next_long_term_block_weight hf_version (median (window_weights window db)) block_weight)"
    and "map_option fst (next_cumulative_weight_limit window hf_version db (s, c)) =
      Some (update_next_cumulative_weight_limit hf_version (map bi_weight db) (median (window_weights window db)) s)"
proof -
  have "cache_ok (insert db (set dbs)) window c"
    unfolding c using cache_after_ok [OF new_cache_ok assms(1)] assms(2,3) by blast
  then obtain c' where q: "request_median window db c = (Some (median (window_weights window db)), c')"
    using request_median_correct [OF _ assms(1)] assms(2,3) by blast
  show "fst (next_long_term_block_weight window hf_version db block_weight c) =
      Some (get_next_long_term_block_weight hf_version (median (window_weights window db)) block_weight)"
    by (simp add: next_long_term_block_weight_def get_next_long_term_block_weight_def q)
  show "map_option fst (next_cumulative_weight_limit window hf_version db (s, c)) =
      Some (update_next_cumulative_weight_limit hf_version (map bi_weight db) (median (window_weights window db)) s)"
  proof (cases "hf_version < HF_VERSION_LONG_TERM_BLOCK_WEIGHT")
    case True
    then show ?thesis
      by (simp add: next_cumulative_weight_limit_def update_next_cumulative_weight_limit_def Let_def)
  qed (simp add: next_cumulative_weight_limit_def q)
qed

text \<open>
  C5. The cached long-term median, for a window of any positive size and any run of requests, between
  which the chain may have grown, lost blocks or been reorganised: starting with an empty cache, every
  request is answered with the median of the long-term weights of the last blocks of the chain it is made
  on, as many as the window holds. The ids of the blocks identify the chain up to them, and none is null.
\<close>

theorem long_term_cache_correct:
  assumes "ids_identify (set dbs)" and "[] \<notin> set dbs" and "0 < window"
  shows "median_requests window dbs (new_weights_cache mem window) =
    map (\<lambda>db. Some (median (map bi_long_term_block_weight (drop (length db - window) db)))) dbs"
  using median_requests_correct [OF new_cache_ok assms(1) order_refl assms(2,3)] by (simp add: window_weights_def)

theorem long_term_cache_correct_witness:
  "let b = (\<lambda>i w. \<lparr>bi_hash = replicate 32 i, bi_weight = w, bi_long_term_block_weight = w\<rparr>)
   in median_requests 2 [[b 1 10], [b 1 10, b 2 20], [b 1 10, b 2 20, b 3 40], [b 1 10, b 2 20, b 4 60]]
        (new_weights_cache \<lparr>rm_data = \<lambda>_. 0, rm_pos = \<lambda>_. 0, rm_heap = \<lambda>_. 0, rm_N = 0, rm_idx = 0, minCt = 0, maxCt = 0, rm_sz = 0\<rparr> 2)
      = [Some 10, Some 15, Some 30, Some 40]"
proof -
  let ?b = "\<lambda>i w. \<lparr>bi_hash = replicate 32 i, bi_weight = w, bi_long_term_block_weight = w\<rparr>"
  let ?dbs = "[[?b 1 10], [?b 1 10, ?b 2 20], [?b 1 10, ?b 2 20, ?b 3 40], [?b 1 10, ?b 2 20, ?b 4 60]]"
  have "ids_identify (set ?dbs)"
    by (simp add: ids_identify_def null_hash_def HASH_SIZE_def All_less_Suc)
  then show ?thesis
    unfolding Let_def by (subst long_term_cache_correct) (simp_all add: median_def get_mid_def)
qed

end
