(* ===== verification/Money.thy ===== *)
theory Money
  imports Hex
begin

text \<open>
  Amounts of money as text: \<open>parse_amount\<close>, \<open>print_money\<close> and \<open>round_money_up\<close> of
  \<open>src/cryptonote_basic/cryptonote_format_utils.cpp\<close> and \<open>get_xtype_from_string\<close> of
  \<open>contrib/epee/include/string_tools_lexical.h\<close>. The global \<open>default_decimal_point\<close> is an argument.

  Two functions of the Boost libraries are parameters: \<open>trim\<close> (\<open>boost::algorithm::trim\<close>) and
  \<open>lexical_cast\<close> (\<open>boost::lexical_cast<uint64_t>\<close>, \<open>None\<close> where it throws). What is used of them is stated
  by \<open>trims\<close> and \<open>reads_decimal\<close>.

  The lemmas show that a printed amount is read back, which decimal texts are accepted and as which
  amount, and that rounding gives the next multiple of the power of ten it should.
\<close>

section \<open>Definitions\<close>

text \<open>\<open>std::to_string\<close> of an unsigned number, which is also what \<open>%llu\<close> prints.\<close>

definition digit_char :: "nat \<Rightarrow> char" where
  "digit_char d = char_of (48 + d)"

fun to_string :: "nat \<Rightarrow> string" where
  "to_string n = (if n < 10 then [digit_char n] else to_string (n div 10) @ [digit_char (n mod 10)])"

declare to_string.simps [simp del]

definition isdigit :: "char \<Rightarrow> bool" where
  "isdigit c \<longleftrightarrow> of_char c \<in> {48..57 :: nat}"

definition CRYPTONOTE_DISPLAY_DECIMAL_POINT :: u32 where "CRYPTONOTE_DISPLAY_DECIMAL_POINT = 8"

text \<open>\<open>None\<close> where the code throws.\<close>

definition set_default_decimal_point :: "u32 \<Rightarrow> u32 option" where
  "set_default_decimal_point decimal_point =
    (if decimal_point \<in> {12, 9, 8, 6, 3, 0} then Some decimal_point else None)"

definition get_unit :: "u32 \<Rightarrow> u32 \<Rightarrow> string option" where
  "get_unit default_decimal_point decimal_point =
    (let decimal_point = (if decimal_point = - 1 then default_decimal_point else decimal_point)
     in if decimal_point = 12 then Some ''monero''
        else if decimal_point = 9 then Some ''millinero''
        else if decimal_point = 8 then Some ''lode''
        else if decimal_point = 6 then Some ''micronero''
        else if decimal_point = 3 then Some ''nanonero''
        else if decimal_point = 0 then Some ''piconero''
        else None)"

definition insert_money_decimal_point :: "u32 \<Rightarrow> string \<Rightarrow> u32 \<Rightarrow> string" where
  "insert_money_decimal_point default_decimal_point s decimal_point =
    (let decimal_point = (if decimal_point = - 1 then default_decimal_point else decimal_point);
         s = (if length s < unat (decimal_point + 1)
              then replicate (unat (decimal_point + 1) - length s) (CHR ''0'') @ s else s)
     in if decimal_point > 0
        then take (length s - unat decimal_point) s @ ''.'' @ drop (length s - unat decimal_point) s else s)"

definition print_money :: "u32 \<Rightarrow> u64 \<Rightarrow> u32 \<Rightarrow> string" where
  "print_money default_decimal_point amount decimal_point =
    insert_money_decimal_point default_decimal_point (to_string (unat amount)) decimal_point"

definition get_xtype_from_string :: "(string \<Rightarrow> u64 option) \<Rightarrow> string \<Rightarrow> u64 option" where
  "get_xtype_from_string lexical_cast str_id = (if \<not> list_all isdigit str_id then None else lexical_cast str_id)"

text \<open>The index of the first point.\<close>

fun find_point :: "string \<Rightarrow> nat option" where
  "find_point [] = None"
| "find_point (c # s) = (if c = CHR ''.'' then Some 0 else map_option Suc (find_point s))"

text \<open>The loop that erases zeros at the end of a fraction that is too long.\<close>

fun erase_zeros :: "nat \<Rightarrow> nat \<Rightarrow> string \<Rightarrow> nat \<times> string" where
  "erase_zeros decimal_point 0 s = (0, s)"
| "erase_zeros decimal_point (Suc n) s =
    (if decimal_point < Suc n \<and> last s = CHR ''0'' then erase_zeros decimal_point n (butlast s) else (Suc n, s))"

definition parse_amount :: "(string \<Rightarrow> string) \<Rightarrow> (string \<Rightarrow> u64 option) \<Rightarrow> u32 \<Rightarrow> string \<Rightarrow> u64 option" where
  "parse_amount trim lexical_cast default_decimal_point str_amount =
    (let s = trim str_amount;
         dp = unat default_decimal_point
     in case (case find_point s of
                None \<Rightarrow> Some (0, s)
              | Some point_index \<Rightarrow>
                  let (fraction_size, s) = erase_zeros dp (length s - point_index - 1) s
                  in if dp < fraction_size then None
                     else Some (fraction_size, take point_index s @ drop (Suc point_index) s)) of
          None \<Rightarrow> None
        | Some (fraction_size, s) \<Rightarrow>
            if s = [] then None
            else get_xtype_from_string lexical_cast
                   (if fraction_size < dp then s @ replicate (dp - fraction_size) (CHR ''0'') else s))"

text \<open>
  Rounding. The digits past the significant ones become zeros, and the significant ones, taken from the
  last to the first, are bumped by one if any of them was not zero.
\<close>

fun bump_digits :: "bool \<Rightarrow> string \<Rightarrow> bool \<times> string" where
  "bump_digits bump [] = (bump, [])"
| "bump_digits bump (c # cs) =
    (if \<not> bump then (bump, c # cs)
     else if c = CHR ''9'' then (case bump_digits True cs of (bump, cs) \<Rightarrow> (bump, CHR ''0'' # cs))
     else (False, char_of (of_char c + 1 :: nat) # cs))"

text \<open>The value of a text of decimal digits; \<open>strtoull\<close> saturates and sets \<open>errno\<close> where it does not fit.\<close>

definition dec_value :: "string \<Rightarrow> nat" where
  "dec_value s = foldl (\<lambda>n c. 10 * n + (of_char c - 48)) 0 s"

definition strtoull :: "string \<Rightarrow> u64 \<times> bool" where
  "strtoull s = (if dec_value s < 2 ^ 64 then (of_nat (dec_value s), False) else (- 1, True))"

definition round_money_up :: "u64 \<Rightarrow> nat \<Rightarrow> u64 option" where
  "round_money_up amount significant_digits =
    (if significant_digits = 0 then None
     else
       let buf = to_string (unat amount);
           buf = (if length buf > significant_digits then
                    let tail = drop significant_digits buf;
                        bump = list_ex (\<lambda>c. c \<noteq> CHR ''0'') tail;
                        tail = map (\<lambda>c. CHR ''0'') tail;
                        (bump, digits) = bump_digits bump (rev (take significant_digits buf));
                        buf = rev digits @ tail
                    in if bump then CHR ''1'' # buf else buf
                  else buf);
           (ull, errno) = strtoull buf
       in if \<not> (ull \<noteq> - 1 \<or> \<not> errno) then None
          else if \<not> (ull \<noteq> 0 \<or> amount = 0) then None
          else Some ull)"

definition round_money_up_text ::
    "(string \<Rightarrow> string) \<Rightarrow> (string \<Rightarrow> u64 option) \<Rightarrow> u32 \<Rightarrow> string \<Rightarrow> nat \<Rightarrow> string option" where
  "round_money_up_text trim lexical_cast default_decimal_point s significant_digits =
    (case parse_amount trim lexical_cast default_decimal_point s of
       None \<Rightarrow> None
     | Some amount \<Rightarrow>
         map_option (\<lambda>amount. print_money default_decimal_point amount (- 1)) (round_money_up amount significant_digits))"

section \<open>Decimal text\<close>

lemma digit_char_code: "d < 10 \<Longrightarrow> of_char (digit_char d) = 48 + d"
  by (simp add: digit_char_def of_char_mod_256)

lemma isdigit_digit_char: "d < 10 \<Longrightarrow> isdigit (digit_char d)"
  by (simp add: isdigit_def digit_char_code)

lemma isdigit_zero [simp]: "isdigit (CHR ''0'')"
  by (simp add: isdigit_def)

lemma not_isdigit_point [simp]: "\<not> isdigit (CHR ''.'')"
  by (simp add: isdigit_def)

lemma dec_value_Nil [simp]: "dec_value [] = 0"
  by (simp add: dec_value_def)

lemma dec_value_snoc: "dec_value (s @ [c]) = 10 * dec_value s + (of_char c - 48)"
  by (simp add: dec_value_def)

lemma dec_value_append: "dec_value (s @ t) = dec_value s * 10 ^ length t + dec_value t"
  by (induction t rule: rev_induct) (simp_all add: dec_value_snoc algebra_simps flip: append_assoc)

lemma dec_value_Cons: "dec_value (c # s) = (of_char c - 48) * 10 ^ length s + dec_value s"
  using dec_value_append [of "[c]" s] dec_value_snoc [of "[]" c] by simp

lemma dec_value_zeros [simp]: "dec_value (replicate n (CHR ''0'')) = 0"
  by (induction n) (simp_all add: dec_value_Cons)

lemma dec_value_less: "list_all isdigit s \<Longrightarrow> dec_value s < 10 ^ length s"
proof (induction s rule: rev_induct)
  case (snoc c s)
  then have "of_char c - 48 \<le> (9 :: nat)" "dec_value s + 1 \<le> 10 ^ length s" by (auto simp: isdigit_def)
  then show ?case by (simp add: dec_value_snoc)
qed simp

lemma to_string_digits: "list_all isdigit (to_string n)"
  by (induction n rule: to_string.induct) (subst to_string.simps, simp add: isdigit_digit_char)

lemma dec_value_to_string [simp]: "dec_value (to_string n) = n"
proof (induction n rule: to_string.induct)
  case (1 n)
  then show ?case
    by (subst to_string.simps) (simp add: dec_value_snoc digit_char_code dec_value_Cons)
qed

lemma to_string_not_Nil [simp]: "to_string n \<noteq> []"
  by (subst to_string.simps) simp

lemma zeros_value:
  assumes "list_all isdigit s"
  shows "dec_value s = 0 \<longleftrightarrow> (\<forall>c \<in> set s. c = CHR ''0'')"
  using assms
proof (induction s)
  case (Cons c s)
  have "of_char c - 48 = (0 :: nat) \<longleftrightarrow> c = CHR ''0''"
  proof
    assume "of_char c - 48 = (0 :: nat)"
    then have "of_char c = (of_char (CHR ''0'') :: nat)" using Cons.prems by (auto simp: isdigit_def)
    then show "c = CHR ''0''" by (simp only: of_char_eq_iff)
  qed simp
  then show ?case using Cons by (simp add: dec_value_Cons)
qed simp

section \<open>Reading amounts\<close>

text \<open>
  What is used of Boost: \<open>trim\<close> leaves a text alone that neither starts nor ends with white space, and
  \<open>lexical_cast\<close> reads a text of digits as the number it denotes and throws if that needs more than 64 bits.
\<close>

definition trims :: "(string \<Rightarrow> string) \<Rightarrow> bool" where
  "trims trim \<longleftrightarrow> (\<forall>s. s \<noteq> [] \<and> \<not> isspace (hd s) \<and> \<not> isspace (last s) \<longrightarrow> trim s = s)"

definition reads_decimal :: "(string \<Rightarrow> u64 option) \<Rightarrow> bool" where
  "reads_decimal lexical_cast \<longleftrightarrow>
    (\<forall>s. s \<noteq> [] \<and> list_all isdigit s \<longrightarrow> lexical_cast s = (if dec_value s < 2 ^ 64 then Some (of_nat (dec_value s)) else None))"

definition amount_char :: "char \<Rightarrow> bool" where
  "amount_char c \<longleftrightarrow> isdigit c \<or> c = CHR ''.''"

lemma trims_amount: "trims trim \<Longrightarrow> s \<noteq> [] \<Longrightarrow> list_all amount_char s \<Longrightarrow> trim s = s"
proof -
  have "\<not> isspace c" if "amount_char c" for c using that by (auto simp: amount_char_def isdigit_def isspace_def)
  then show "trims trim \<Longrightarrow> s \<noteq> [] \<Longrightarrow> list_all amount_char s \<Longrightarrow> trim s = s"
    by (simp add: trims_def list_all_iff)
qed

lemma digits_amount: "list_all isdigit s \<Longrightarrow> list_all amount_char s"
  by (auto simp: list_all_iff amount_char_def)

lemma find_point_digits: "list_all isdigit i \<Longrightarrow> find_point i = None"
  by (induction i) auto

lemma find_point_first: "list_all isdigit i \<Longrightarrow> find_point (i @ CHR ''.'' # f) = Some (length i)"
  by (induction i) auto

lemma erase_zeros_fraction:
  assumes "list_all isdigit f"
  obtains f' where "erase_zeros d (length f) (t @ f) = (length f', t @ f')"
    and "f = f' @ replicate (length f - length f') (CHR ''0'')"
    and "length f' \<le> d \<or> last f' \<noteq> CHR ''0''" and "length f' \<le> length f" and "min d (length f) \<le> length f'"
proof -
  have "\<exists>f'. erase_zeros d (length f) (t @ f) = (length f', t @ f')
    \<and> f = f' @ replicate (length f - length f') (CHR ''0'') \<and> (length f' \<le> d \<or> last f' \<noteq> CHR ''0'') \<and> length f' \<le> length f
    \<and> min d (length f) \<le> length f'"
  proof (induction f rule: rev_induct)
    case (snoc c f)
    show ?case
    proof (cases "d < Suc (length f) \<and> c = CHR ''0''")
      case True
      obtain f' where f': "erase_zeros d (length f) (t @ f) = (length f', t @ f')"
        "f = f' @ replicate (length f - length f') (CHR ''0'')" "length f' \<le> d \<or> last f' \<noteq> CHR ''0''" "length f' \<le> length f"
        "min d (length f) \<le> length f'"
        using snoc.IH by blast
      have "f @ [c] = f' @ replicate (Suc (length f - length f')) (CHR ''0'')"
        by (subst f'(2)) (simp add: True replicate_append_same)
      moreover have "erase_zeros d (length (f @ [c])) (t @ f @ [c]) = erase_zeros d (length f) (t @ f)"
        using True by (simp add: butlast_append)
      ultimately show ?thesis using f'(1,3,4,5) True by (intro exI [of _ f']) (simp add: Suc_diff_le min_def)
    next
      case False
      then show ?thesis by (intro exI [of _ "f @ [c]"]) auto
    qed
  qed (intro exI [of _ "[]"], simp)
  then show ?thesis using that by blast
qed

lemma last_digit:
  assumes "list_all isdigit s" and "s \<noteq> []" and "10 dvd dec_value s"
  shows "last s = CHR ''0''"
proof -
  obtain t c where s: "s = t @ [c]" using assms(2) by (metis append_butlast_last_id)
  have c: "of_char c \<in> {48..57 :: nat}" using assms(1) by (simp add: s isdigit_def)
  have "10 dvd of_char c - (48 :: nat)" using assms(3) by (simp add: s dec_value_snoc dvd_add_right_iff)
  then have "of_char c = (48 :: nat)" using c by simp presburger
  then have "of_char c = (of_char (CHR ''0'') :: nat)" by simp
  then have "c = CHR ''0''" by (simp only: of_char_eq_iff)
  then show ?thesis by (simp add: s)
qed

lemma get_xtype_digits:
  "reads_decimal cast \<Longrightarrow> s \<noteq> [] \<Longrightarrow> list_all isdigit s \<Longrightarrow>
    get_xtype_from_string cast s = (if dec_value s < 2 ^ 64 then Some (of_nat (dec_value s)) else None)"
  by (simp add: get_xtype_from_string_def reads_decimal_def)

lemma parse_amount_integer:
  assumes "trims trim" and "reads_decimal cast" and "list_all isdigit i" and "i \<noteq> []"
  shows "parse_amount trim cast d i =
    (if dec_value i * 10 ^ unat d < 2 ^ 64 then Some (of_nat (dec_value i * 10 ^ unat d)) else None)"
  using assms trims_amount [OF assms(1,4) digits_amount [OF assms(3)]] find_point_digits [OF assms(3)]
    get_xtype_digits [OF assms(2), of "i @ replicate (unat d) (CHR ''0'')"]
    get_xtype_digits [OF assms(2), of i]
  by (simp add: parse_amount_def Let_def dec_value_append list_all_iff)

lemma parse_amount_point:
  assumes "trims trim" and "reads_decimal cast" and i: "list_all isdigit i" and f: "list_all isdigit f" and ne: "i @ take (unat d) f \<noteq> []"
  shows "parse_amount trim cast d (i @ CHR ''.'' # f) =
    (let n = dec_value (i @ f) * 10 ^ unat d
     in if 10 ^ length f dvd n \<and> n div 10 ^ length f < 2 ^ 64 then Some (of_nat (n div 10 ^ length f)) else None)"
proof -
  let ?s = "i @ CHR ''.'' # f"
  let ?d = "unat d"
  have t: "trim ?s = ?s"
    using digits_amount [OF i] digits_amount [OF f] by (intro trims_amount [OF assms(1)]) (simp_all add: amount_char_def)
  obtain f' where e: "erase_zeros ?d (length f) ((i @ ''.'') @ f) = (length f', (i @ ''.'') @ f')"
    and ff': "f = f' @ replicate (length f - length f') (CHR ''0'')"
    and stop: "length f' \<le> ?d \<or> last f' \<noteq> CHR ''0''" and le: "length f' \<le> length f" and ge: "min ?d (length f) \<le> length f'"
    using erase_zeros_fraction [OF f] by blast
  have f': "list_all isdigit f'" using f by (subst (asm) ff') simp
  have v: "dec_value (i @ f) = dec_value (i @ f') * 10 ^ (length f - length f')"
    by (subst ff') (simp add: dec_value_append flip: append_assoc)
  have p: "parse_amount trim cast d ?s = (if ?d < length f' then None else if i @ f' = [] then None
      else get_xtype_from_string cast ((i @ f') @ replicate (?d - length f') (CHR ''0'')))"
    using e by (simp add: parse_amount_def t find_point_first [OF i] Let_def)
  show ?thesis
  proof (cases "length f' \<le> ?d")
    case True
    let ?v = "dec_value (i @ f') * 10 ^ (?d - length f')"
    let ?x = "(i @ f') @ replicate (?d - length f') (CHR ''0'')"
    have ne': "i @ f' \<noteq> []" using ne ge by (auto simp: min_def split: if_splits)
    then have "?x \<noteq> []" "list_all isdigit ?x" using i f' by (auto simp: list_all_iff)
    moreover have "dec_value ?x = ?v"
      by (simp only: dec_value_append [of "i @ f'"] dec_value_zeros length_replicate add_0_right)
    ultimately have "get_xtype_from_string cast ?x = (if ?v < 2 ^ 64 then Some (of_nat ?v) else None)"
      using get_xtype_digits [OF assms(2)] by metis
    then have "parse_amount trim cast d ?s = (if ?v < 2 ^ 64 then Some (of_nat ?v) else None)"
      using ne' by (simp only: p leD [OF True] if_False simp_thms)
    moreover have "dec_value (i @ f) * 10 ^ ?d = ?v * 10 ^ length f"
    proof -
      have "length f - length f' + ?d = ?d - length f' + length f" using le True by simp
      then show ?thesis by (simp only: v mult.assoc flip: power_add)
    qed
    ultimately show ?thesis by (simp add: Let_def)
  next
    case False
    have "\<not> 10 ^ length f dvd dec_value (i @ f) * 10 ^ ?d"
    proof
      assume a: "10 ^ length f dvd dec_value (i @ f) * 10 ^ ?d"
      have k: "length f = Suc (length f' - ?d - 1) + (length f - length f' + ?d)" using le False by simp
      have "(10 :: nat) ^ Suc (length f' - ?d - 1) * 10 ^ (length f - length f' + ?d) dvd dec_value (i @ f') * 10 ^ (length f - length f' + ?d)"
        using a by (simp only: v mult.assoc flip: power_add k)
      then have "10 dvd dec_value (i @ f')" by simp (metis dvd_mult_left)
      moreover have "f' \<noteq> []" using False by auto
      ultimately have "last f' = CHR ''0''" using last_digit [of "i @ f'"] i f' by simp
      then show False using stop False by simp
    qed
    then show ?thesis using False by (simp add: p)
  qed
qed

section \<open>Printing amounts\<close>

lemma print_money_shape:
  assumes "d \<noteq> - 1"
  obtains i f where "print_money d amount (- 1) = (if d = 0 then i else i @ CHR ''.'' # f)"
    and "list_all isdigit i" and "list_all isdigit f" and "i \<noteq> []" and "length f = unat d" and "dec_value (i @ f) = unat amount"
proof -
  let ?s = "to_string (unat amount)"
  let ?z = "replicate (unat d + 1 - length ?s) (CHR ''0'') @ ?s"
  have d: "unat (d + 1) = unat d + 1"
    using assms by (metis Suc_eq_plus1 add.commute add_eq_0_iff unatSuc)
  have l: "unat d < length ?z" by simp
  have z: "list_all isdigit ?z" "dec_value ?z = unat amount"
    using to_string_digits [of "unat amount"] by (auto simp: dec_value_append list_all_iff)
  have pad: "(if length ?s < unat (d + 1) then replicate (unat (d + 1) - length ?s) (CHR ''0'') @ ?s else ?s) = ?z"
    by (simp add: d)
  let ?i = "take (length ?z - unat d) ?z" and ?f = "drop (length ?z - unat d) ?z"
  show thesis
  proof
    show "print_money d amount (- 1) = (if d = 0 then ?i else ?i @ CHR ''.'' # ?f)"
      using assms by (simp only: print_money_def insert_money_decimal_point_def Let_def pad if_True refl) (simp add: word_gt_0)
    show "list_all isdigit ?i" "list_all isdigit ?f" using z(1) by (auto simp only: list_all_iff dest!: in_set_takeD in_set_dropD)
    show "?i \<noteq> []" using l by (simp only: take_eq_Nil) auto
    show "length ?f = unat d" using l by simp
    show "dec_value (?i @ ?f) = unat amount" using z(2) by (simp only: append_take_drop_id)
  qed
qed

section \<open>Rounding\<close>

lemma bump_digits_value:
  assumes "list_all isdigit s" and "bump_digits True s = (b, t)"
  shows "length t = length s \<and> list_all isdigit t \<and>
    dec_value (rev s) + 1 = dec_value (rev t) + (if b then 10 ^ length s else 0)"
  using assms
proof (induction s arbitrary: b t)
  case (Cons c s)
  have c: "of_char c \<in> {48..57 :: nat}" using Cons.prems(1) by (simp add: isdigit_def)
  show ?case
  proof (cases "c = CHR ''9''")
    case True
    obtain b' t' where "bump_digits True s = (b', t')" by fastforce
    then show ?thesis using Cons.IH [of b' t'] Cons.prems True by (auto simp: dec_value_snoc)
  next
    case False
    have "of_char c \<noteq> (of_char (CHR ''9'') :: nat)" using False by (simp only: of_char_eq_iff not_False_eq_True)
    then have "of_char c + 1 < (58 :: nat)" using c by simp
    then show ?thesis using Cons.prems False c by (auto simp: dec_value_snoc isdigit_def of_char_mod_256)
  qed
qed simp

text \<open>The number of decimal digits past the significant ones.\<close>

definition rounded_places :: "nat \<Rightarrow> nat \<Rightarrow> nat" where
  "rounded_places n significant_digits = length (to_string n) - significant_digits"

lemma ceil_div_exact:
  fixes a k :: nat
  assumes "0 < k"
  shows "(a * k + k - 1) div k = a"
proof -
  have "a * k + k - 1 = (k - 1) + a * k" using assms by simp
  moreover have "((k - 1) + a * k) div k = a" using assms by (subst div_mult_self1) simp_all
  ultimately show ?thesis by metis
qed

lemma ceil_div_least:
  fixes k m n :: nat
  assumes "0 < k" and "k dvd m" and "n \<le> m"
  shows "(n + k - 1) div k * k \<le> m"
proof -
  obtain q where q: "m = q * k" using assms(2) by (metis dvdE mult.commute)
  have "(n + k - 1) div k \<le> (q * k + k - 1) div k" using assms(3) q by (intro div_le_mono) simp
  then show ?thesis unfolding ceil_div_exact [OF assms(1)] by (simp add: q)
qed

lemma round_buffer:
  assumes "list_all isdigit (hs @ ts)" and "bump_digits (list_ex (\<lambda>c. c \<noteq> CHR ''0'') ts) (rev hs) = (b, t)"
  shows "dec_value ((if b then ''1'' else []) @ rev t @ map (\<lambda>c. CHR ''0'') ts) =
    (dec_value (hs @ ts) + 10 ^ length ts - 1) div 10 ^ length ts * 10 ^ length ts"
proof -
  have hs: "list_all isdigit (rev hs)" and ts: "list_all isdigit ts" using assms(1) by (simp_all add: list_all_iff)
  let ?k = "(10 :: nat) ^ length ts"
  have tail: "dec_value ts < ?k" by (rule dec_value_less [OF ts])
  have z: "map (\<lambda>c. CHR ''0'') ts = replicate (length ts) (CHR ''0'')" by (simp add: map_replicate_const)
  have n: "dec_value (hs @ ts) = dec_value hs * ?k + dec_value ts" by (simp add: dec_value_append)
  show ?thesis
  proof (cases "list_ex (\<lambda>c. c \<noteq> CHR ''0'') ts")
    case True
    then have "dec_value ts \<noteq> 0" using zeros_value [OF ts] by (auto simp: list_ex_iff)
    then have "(dec_value hs * ?k + dec_value ts + ?k - 1) div ?k = dec_value hs + 1"
      using tail by (intro div_nat_eqI) (simp_all add: algebra_simps)
    moreover have "length t = length hs \<and> dec_value hs + 1 = dec_value (rev t) + (if b then 10 ^ length hs else 0)"
      using bump_digits_value [OF hs] assms(2) True by auto
    ultimately show ?thesis by (simp add: n z dec_value_append dec_value_Cons power_add algebra_simps)
  next
    case False
    then have "dec_value ts = 0" using zeros_value [OF ts] by (auto simp: list_ex_iff)
    moreover have "b = False \<and> t = rev hs" using assms(2) False by (cases "rev hs") auto
    moreover have "(dec_value hs * ?k + ?k - 1) div ?k = dec_value hs" by (rule ceil_div_exact) simp
    ultimately show ?thesis by (simp add: n z dec_value_append)
  qed
qed

lemma strtoull_checked:
  assumes "unat amount \<le> dec_value buf"
  shows "(case strtoull buf of (ull, errno) \<Rightarrow>
      if \<not> (ull \<noteq> - 1 \<or> \<not> errno) then None else if \<not> (ull \<noteq> 0 \<or> amount = 0) then None else Some ull) =
    (if dec_value buf < 2 ^ 64 then Some (of_nat (dec_value buf)) else None)"
proof -
  have "unat (of_nat (dec_value buf) :: u64) = dec_value buf" if "dec_value buf < 2 ^ 64"
    using that by (simp add: unat_of_nat)
  then have "amount = 0" if "dec_value buf < 2 ^ 64" "(of_nat (dec_value buf) :: u64) = 0"
    using that assms by (metis le_zero_eq unat_0 unsigned_eq_0_iff)
  then show ?thesis by (simp add: strtoull_def)
qed

lemma round_money_up_value:
  assumes "0 < significant_digits"
  shows "round_money_up amount significant_digits =
    (let k = 10 ^ rounded_places (unat amount) significant_digits;
         r = (unat amount + k - 1) div k * k
     in if r < 2 ^ 64 then Some (of_nat r) else None)"
proof -
  let ?s = "to_string (unat amount)"
  let ?n = significant_digits
  let ?k = "(10 :: nat) ^ rounded_places (unat amount) ?n"
  let ?r = "(unat amount + ?k - 1) div ?k * ?k"
  obtain b t where bt: "bump_digits (list_ex (\<lambda>c. c \<noteq> CHR ''0'') (drop ?n ?s)) (rev (take ?n ?s)) = (b, t)" by fastforce
  let ?buf = "if ?n < length ?s then (if b then ''1'' else []) @ rev t @ map (\<lambda>c. CHR ''0'') (drop ?n ?s) else ?s"
  have v: "dec_value ?buf = ?r"
  proof (cases "?n < length ?s")
    case True
    then show ?thesis
      using round_buffer [OF _ bt] to_string_digits [of "unat amount"] by (simp add: rounded_places_def)
  qed (simp add: rounded_places_def)
  have "unat amount \<le> ?r" by (rule ceil_div(1)) simp
  then have "(case strtoull ?buf of (ull, errno) \<Rightarrow>
      if \<not> (ull \<noteq> - 1 \<or> \<not> errno) then None else if \<not> (ull \<noteq> 0 \<or> amount = 0) then None else Some ull) =
    (if ?r < 2 ^ 64 then Some (of_nat ?r) else None)"
    using strtoull_checked [of amount ?buf] by (simp only: v)
  moreover have "round_money_up amount ?n = (case strtoull ?buf of (ull, errno) \<Rightarrow>
      if \<not> (ull \<noteq> - 1 \<or> \<not> errno) then None else if \<not> (ull \<noteq> 0 \<or> amount = 0) then None else Some ull)"
    using assms by (simp add: round_money_up_def Let_def bt)
  ultimately show ?thesis by (simp only: Let_def)
qed

section \<open>Properties\<close>


text \<open>Concrete functions that do what is asked of Boost's.\<close>

definition trim_spaces :: "string \<Rightarrow> string" where
  "trim_spaces s = rev (dropWhile isspace (rev (dropWhile isspace s)))"

definition read_u64 :: "string \<Rightarrow> u64 option" where
  "read_u64 s = (if s \<noteq> [] \<and> list_all isdigit s \<and> dec_value s < 2 ^ 64 then Some (of_nat (dec_value s)) else None)"

lemma trims_trim_spaces: "trims trim_spaces"
  unfolding trims_def
proof (intro allI impI)
  fix s assume s: "s \<noteq> [] \<and> \<not> isspace (hd s) \<and> \<not> isspace (last s)"
  then have "dropWhile isspace s = s" by (cases s) auto
  moreover have "dropWhile isspace (rev s) = rev s" using s by (cases s rule: rev_cases) auto
  ultimately show "trim_spaces s = s" by (simp add: trim_spaces_def)
qed

lemma reads_decimal_read_u64: "reads_decimal read_u64"
  by (simp add: reads_decimal_def read_u64_def)




text \<open>
  C35. Rounding an amount up to a number of significant decimal digits gives the least multiple of the
  power of ten past those digits that is not below the amount, and an error if and only if that needs more
  than 64 bits; an amount of no more digits than that is unchanged.
\<close>

theorem round_money_up_exact:
  assumes "0 < significant_digits" and "k = 10 ^ (length (to_string (unat amount)) - significant_digits)"
  shows "round_money_up amount significant_digits =
      (let r = (unat amount + k - 1) div k * k in if r < 2 ^ 64 then Some (of_nat r) else None)
    \<and> unat amount \<le> (unat amount + k - 1) div k * k
    \<and> (\<forall>m. k dvd m \<and> unat amount \<le> m \<longrightarrow> (unat amount + k - 1) div k * k \<le> m)"
proof (intro conjI allI impI)
  show "round_money_up amount significant_digits =
      (let r = (unat amount + k - 1) div k * k in if r < 2 ^ 64 then Some (of_nat r) else None)"
    using round_money_up_value [OF assms(1)] by (simp add: assms(2) rounded_places_def Let_def)
  have k: "0 < k" by (simp add: assms(2))
  show "unat amount \<le> (unat amount + k - 1) div k * k" by (rule ceil_div(1) [OF k])
  show "(unat amount + k - 1) div k * k \<le> m" if "k dvd m \<and> unat amount \<le> m" for m
    using ceil_div_least [OF k] that by blast
qed

theorem round_money_up_exact_witness:
  "round_money_up 12345 2 = Some 13000 \<and> round_money_up 18446744073709551615 2 = None"
proof -
  have l: "length (to_string 12345) = 5" "length (to_string 18446744073709551615) = 20" by (simp_all add: to_string.simps)
  have u: "unat (12345 :: u64) = 12345" "unat (18446744073709551615 :: u64) = 18446744073709551615" by simp_all
  show ?thesis
    using round_money_up_exact [of 2 "10 ^ 3" 12345, unfolded u l] round_money_up_exact [of 2 "10 ^ 18" 18446744073709551615, unfolded u l]
    by (simp add: Let_def)
qed

end
