(* ===== verification/Fee_Estimate.thy ===== *)
theory Fee_Estimate
  imports Long_Term_Weight Money "HOL-Library.Monad_Syntax"
begin

text \<open>
  The fees a wallet is told to pay: \<open>get_dynamic_base_fee_estimate\<close> and the two functions
  \<open>get_dynamic_base_fee_estimate_2021_scaling\<close> of \<open>src/cryptonote_core/blockchain.cpp\<close>. They look at the
  weights of the last blocks as if a number of empty blocks (the grace blocks) had been added, which for
  the long-term weights is done on a copy of the cached rolling median.

  \<open>None\<close> is an exception: of an assertion, of the database, of the rounding; a division by zero, which is
  undefined, is \<open>None\<close> too. The lemmas show the four fees as formulas over the natural numbers, that they
  are in ascending order, and that the copy of the rolling median gives the median of the extended chain.
\<close>

section \<open>Definitions\<close>

definition CRYPTONOTE_SCALING_2021_FEE_ROUNDING_PLACES :: nat where
  "CRYPTONOTE_SCALING_2021_FEE_ROUNDING_PLACES = 2"

definition BLOCK_REWARD_OVERESTIMATE :: u64 where "BLOCK_REWARD_OVERESTIMATE = 10 * 1000000000000"

definition div_u64 :: "u64 \<Rightarrow> u64 \<Rightarrow> u64 option" where
  "div_u64 a b = (if b = 0 then None else Some (a div b))"

definition fee_levels_2021 :: "u64 \<Rightarrow> u64 \<Rightarrow> u64 \<Rightarrow> u64 list option" where
  "fee_levels_2021 base_reward Mnw Mlw =
    (let Mfw = min Mnw Mlw;
         rounded = (\<lambda>f. round_money_up f CRYPTONOTE_SCALING_2021_FEE_ROUNDING_PLACES)
     in do {
       Fl \<leftarrow> div_u64 (base_reward * DYNAMIC_FEE_REFERENCE_TRANSACTION_WEIGHT) (Mfw * Mfw);
       Fn \<leftarrow> div_u64 (4 * base_reward * DYNAMIC_FEE_REFERENCE_TRANSACTION_WEIGHT) (Mfw * Mfw);
       Fm \<leftarrow> div_u64 (16 * base_reward * DYNAMIC_FEE_REFERENCE_TRANSACTION_WEIGHT)
         (CRYPTONOTE_BLOCK_GRANTED_FULL_REWARD_ZONE_V5 * Mfw);
       q \<leftarrow> div_u64 (4 * Fm * Mfw)
         (32 * DYNAMIC_FEE_REFERENCE_TRANSACTION_WEIGHT * Mnw div CRYPTONOTE_BLOCK_GRANTED_FULL_REWARD_ZONE_V5);
       let Fh = max (4 * Fm) q;
       f0 \<leftarrow> rounded Fl;
       f1 \<leftarrow> rounded Fn;
       f2 \<leftarrow> rounded Fm;
       f3 \<leftarrow> rounded Fh;
       Some [f0, f1, f2, f3]
     })"

text \<open>The weights of the last blocks, read from the database, which refuses a start above the chain.\<close>

definition read_last_n_blocks_weights :: "db \<Rightarrow> nat \<Rightarrow> u64 list option" where
  "read_last_n_blocks_weights db n =
    (if db = [] then Some [] else get_block_info_64bit_fields db (length db - min (length db) n) n bi_weight)"

text \<open>The two medians of the wallet, \<open>Mnw\<close> and \<open>Mlw\<close>.\<close>

definition wallet_medians :: "nat \<Rightarrow> db \<Rightarrow> weights_cache \<Rightarrow> (u64 \<times> u64) option" where
  "wallet_medians grace_blocks db c =
    (let rm = fold (\<lambda>w rm. rm_insert rm w) (replicate grace_blocks 0) (cache_rolling_median c);
         Mlw = max (rm_median rm) CRYPTONOTE_BLOCK_GRANTED_FULL_REWARD_ZONE_V5
     in do {
       weights \<leftarrow> read_last_n_blocks_weights db (100 - grace_blocks);
       let weights = weights @ replicate grace_blocks 0;
       let Msw = max (median weights) Mlw;
       let Mnw = min Msw (50 * Mlw);
       Some (Mnw, Mlw)
     })"

definition estimate_base_reward :: "u8 \<Rightarrow> db \<Rightarrow> u64 \<Rightarrow> weight_state \<Rightarrow> u64" where
  "estimate_base_reward version db already_generated_coins s =
    (let coins = (if length db \<noteq> 0 then already_generated_coins else 0)
     in case get_block_reward (m_current_block_cumul_weight_limit s div 2) 1 coins version (of_nat (length db)) of
          None \<Rightarrow> BLOCK_REWARD_OVERESTIMATE
        | Some base_reward \<Rightarrow> base_reward)"

definition get_dynamic_base_fee_estimate_2021_scaling ::
    "u8 \<Rightarrow> db \<Rightarrow> u64 \<Rightarrow> weight_state \<Rightarrow> weights_cache \<Rightarrow> nat \<Rightarrow> u64 list option" where
  "get_dynamic_base_fee_estimate_2021_scaling version db already_generated_coins s c grace_blocks =
    (if \<not> grace_blocks \<le> CRYPTONOTE_REWARD_BLOCKS_WINDOW then None
     else
       case wallet_medians grace_blocks db c of
         None \<Rightarrow> None
       | Some (Mnw, Mlw) \<Rightarrow> fee_levels_2021 (estimate_base_reward version db already_generated_coins s) Mnw Mlw)"

definition get_dynamic_base_fee_estimate ::
    "u8 \<Rightarrow> db \<Rightarrow> u64 \<Rightarrow> weight_state \<Rightarrow> weights_cache \<Rightarrow> nat \<Rightarrow> u64 option" where
  "get_dynamic_base_fee_estimate version db already_generated_coins s c grace_blocks =
    (if version < HF_VERSION_DYNAMIC_FEE then Some FEE_PER_KB
     else
       let grace_blocks = (if grace_blocks \<ge> CRYPTONOTE_REWARD_BLOCKS_WINDOW then CRYPTONOTE_REWARD_BLOCKS_WINDOW - 1
             else grace_blocks)
       in if version \<ge> HF_VERSION_2021_SCALING
          then map_option (\<lambda>fees. fees ! 0)
            (get_dynamic_base_fee_estimate_2021_scaling version db already_generated_coins s c grace_blocks)
          else
            case read_last_n_blocks_weights db (CRYPTONOTE_REWARD_BLOCKS_WINDOW - grace_blocks) of
              None \<Rightarrow> None
            | Some weights \<Rightarrow>
                let min_block_weight = get_min_block_weight version;
                    median = median (weights @ replicate grace_blocks min_block_weight);
                    median = (if median \<le> min_block_weight then min_block_weight else median);
                    use_median_value = (if version \<ge> HF_VERSION_LONG_TERM_BLOCK_WEIGHT
                      then min median (m_long_term_effective_median_block_weight s) else median)
                in get_dynamic_base_fee (estimate_base_reward version db already_generated_coins s) use_median_value version)"

section \<open>The four fees\<close>

text \<open>Two significant digits, rounded up, over the natural numbers.\<close>

definition round2 :: "nat \<Rightarrow> nat" where
  "round2 n = (let k = 10 ^ (length (to_string n) - 2) in (n + k - 1) div k * k)"

lemma to_string_length_mono: "m \<le> n \<Longrightarrow> length (to_string m) \<le> length (to_string n)"
proof (induction n arbitrary: m rule: to_string.induct)
  case (1 n)
  show ?case
  proof (cases "m < 10")
    case True
    then have "length (to_string m) = 1" by (subst to_string.simps) simp
    then show ?thesis using to_string_not_Nil [of n] by (cases "to_string n") auto
  next
    case False
    then have "length (to_string (m div 10)) \<le> length (to_string (n div 10))"
      using 1 by (intro "1.IH") (simp_all add: div_le_mono)
    then show ?thesis using False \<open>m \<le> n\<close> by (subst (1 2) to_string.simps) simp
  qed
qed

lemma to_string_length_bounds:
  shows "n < 10 ^ length (to_string n)"
    and "0 < n \<Longrightarrow> 10 ^ (length (to_string n) - 1) \<le> n"
proof -
  show "n < 10 ^ length (to_string n)" using dec_value_less [OF to_string_digits, of n] by simp
  show "0 < n \<Longrightarrow> 10 ^ (length (to_string n) - 1) \<le> n"
  proof (induction n rule: to_string.induct)
    case (1 n)
    show ?case
    proof (cases "n < 10")
      case True
      then show ?thesis using 1 by (subst to_string.simps) simp
    next
      case False
      then have "10 ^ (length (to_string (n div 10)) - 1) \<le> n div 10" using 1 by simp
      then have "10 * 10 ^ (length (to_string (n div 10)) - 1) \<le> n" by simp
      moreover have "length (to_string n) - 1 = Suc (length (to_string (n div 10)) - 1)"
        using False to_string_not_Nil [of "n div 10"] by (subst to_string.simps) (cases "to_string (n div 10)", simp_all)
      ultimately show ?thesis by (simp only: power_Suc)
    qed
  qed
qed

lemma round2_ge: "n \<le> round2 n"
  unfolding round2_def Let_def by (rule ceil_div(1)) simp

lemma round2_le: "round2 n \<le> 10 ^ length (to_string n)"
  using ceil_div_least [of "10 ^ (length (to_string n) - 2)" "10 ^ length (to_string n)" n] to_string_length_bounds(1) [of n]
  by (simp add: round2_def Let_def le_imp_power_dvd)

lemma round2_mono:
  assumes "m \<le> n"
  shows "round2 m \<le> round2 n"
proof (cases "length (to_string m) = length (to_string n)")
  case True
  then show ?thesis using assms by (simp add: round2_def Let_def div_le_mono)
next
  case False
  then have l: "length (to_string m) \<le> length (to_string n) - 1" using to_string_length_mono [OF assms] by simp
  have "0 < n" using assms False by (cases n) auto
  then have "(10 :: nat) ^ length (to_string m) \<le> n"
    using to_string_length_bounds(2) power_increasing [OF l, of "10 :: nat"] by (meson le_trans one_le_numeral)
  then show ?thesis using round2_le [of m] round2_ge [of n] by linarith
qed

lemma round_money_up_round2:
  assumes "length (to_string (unat f)) < 20"
  shows "round_money_up f CRYPTONOTE_SCALING_2021_FEE_ROUNDING_PLACES = Some (of_nat (round2 (unat f)))" 
    and "unat (of_nat (round2 (unat f)) :: u64) = round2 (unat f)"
proof -
  have "round2 (unat f) \<le> 10 ^ 19"
    using round2_le [of "unat f"] power_increasing [of "length (to_string (unat f))" 19 "10 :: nat"] assms by simp
  then have *: "round2 (unat f) < 2 ^ 64" by simp
  then show "round_money_up f CRYPTONOTE_SCALING_2021_FEE_ROUNDING_PLACES = Some (of_nat (round2 (unat f)))"
    using round_money_up_value [of 2 f]
    by (simp add: CRYPTONOTE_SCALING_2021_FEE_ROUNDING_PLACES_def rounded_places_def round2_def Let_def)
  show "unat (of_nat (round2 (unat f)) :: u64) = round2 (unat f)" using * by (simp add: unat_of_nat)
qed

lemma short_number:
  assumes "n < 10 ^ 19"
  shows "length (to_string n) < 20"
proof (rule ccontr)
  assume "\<not> length (to_string n) < 20"
  then have "19 \<le> length (to_string n) - 1" "0 < n" by (auto simp: to_string.simps [of 0] intro: ccontr)
  then have "(10 :: nat) ^ 19 \<le> n"
    using to_string_length_bounds(2) [of n] power_increasing [of 19 "length (to_string n) - 1" "10 :: nat"] by linarith
  then show False using assms by simp
qed

text \<open>The fees over the natural numbers.\<close>

definition fee_formulas :: "nat \<Rightarrow> nat \<Rightarrow> nat \<Rightarrow> nat list" where
  "fee_formulas base_reward Mnw Mlw =
    (let Fl = 3000 * base_reward div Mlw\<^sup>2;
         Fn = 4 * 3000 * base_reward div Mlw\<^sup>2;
         Fm = 16 * 3000 * base_reward div (300000 * Mlw);
         Fh = max (4 * Fm) (4 * Fm * Mlw div (96000 * Mnw div 300000))
     in [Fl, Fn, Fm, Fh])"

lemma fee_formulas_sorted:
  assumes "300000 \<le> Mlw"
  shows "sorted (fee_formulas base_reward Mnw Mlw)"
proof -
  have "3000 * base_reward div Mlw\<^sup>2 \<le> 12000 * base_reward div Mlw\<^sup>2" by (intro div_le_mono) simp
  moreover have "12000 * base_reward div Mlw\<^sup>2 \<le> 48000 * base_reward div (300000 * Mlw)"
  proof -
    have "12000 * base_reward div Mlw\<^sup>2 \<le> 12000 * base_reward div (300000 * Mlw)"
      using assms by (intro div_le_mono2) (simp_all add: power2_eq_square)
    also have "\<dots> \<le> 48000 * base_reward div (300000 * Mlw)" by (intro div_le_mono) simp
    finally show ?thesis .
  qed
  moreover have "48000 * base_reward div (300000 * Mlw) \<le> max (4 * (48000 * base_reward div (300000 * Mlw))) x" for x
    by simp
  ultimately show ?thesis unfolding fee_formulas_def Let_def sorted2 by simp
qed

lemma word_div_nat:
  assumes "unat (a :: u64) = m" and "unat b = n" and "0 < n"
  shows "\<exists>q. div_u64 a b = Some q \<and> unat q = m div n"
  using assms by (auto simp: div_u64_def unat_div)

lemma fee_levels_exact:
  assumes "unat base_reward < 2 ^ 48" and "300000 \<le> unat Mlw" and "unat Mlw < 2 ^ 32"
    and "Mlw \<le> Mnw" and "unat Mnw \<le> 50 * unat Mlw"
  shows "\<exists>fees. fee_levels_2021 base_reward Mnw Mlw = Some fees
    \<and> map unat fees = map round2 (fee_formulas (unat base_reward) (unat Mnw) (unat Mlw))"
proof -
  define B where "B = unat base_reward"
  define L where "L = unat Mlw"
  define N where "N = unat Mnw"
  have b: "B < 281474976710656" "300000 \<le> L" "L < 4294967296" "L \<le> N" "N \<le> 50 * L"
    using assms by (simp_all add: B_def L_def N_def word_le_nat_alt)
  have LL: "L * L < 18446744073709551616" using mult_strict_mono [of L 4294967296 L 4294967296] b by simp
  have u: "unat (base_reward * 3000) = 3000 * B" "unat (4 * base_reward * 3000) = 4 * 3000 * B"
    "unat (16 * base_reward * 3000) = 16 * 3000 * B" "unat (Mlw * Mlw) = L\<^sup>2" "unat (300000 * Mlw) = 300000 * L"
    "unat (96000 * Mnw) = 96000 * N"
    using b LL by (simp_all add: unat_simps B_def L_def N_def power2_eq_square)
  have M: "min Mnw Mlw = Mlw" using assms(4) by simp
  obtain Fl where Fl: "div_u64 (base_reward * 3000) (Mlw * Mlw) = Some Fl" "unat Fl = 3000 * B div L\<^sup>2"
    using word_div_nat [OF u(1,4)] b(2) by auto
  obtain Fn where Fn: "div_u64 (4 * base_reward * 3000) (Mlw * Mlw) = Some Fn" "unat Fn = 4 * 3000 * B div L\<^sup>2"
    using word_div_nat [OF u(2,4)] b(2) by auto
  obtain Fm where Fm: "div_u64 (16 * base_reward * 3000) (300000 * Mlw) = Some Fm" "unat Fm = 16 * 3000 * B div (300000 * L)"
    using word_div_nat [OF u(3,5)] b(2) by auto
  have "unat Fm * (300000 * L) \<le> 48000 * B" unfolding Fm(2) by (rule order_trans [OF div_times_less_eq_dividend]) simp
  then have "300000 * (unat Fm * L) \<le> 48000 * B" by (simp only: ac_simps)
  then have FmL: "4 * unat Fm * L \<le> B" unfolding mult.assoc by linarith
  have Fm4: "4 * unat Fm \<le> 4 * unat Fm * L" using b(2) by simp
  have lim: "4 * unat Fm < 18446744073709551616" "4 * unat Fm * L < 18446744073709551616"
    using FmL Fm4 b(1) by linarith+
  have u4: "unat (4 * Fm) = 4 * unat Fm" using lim(1) by (simp add: unat_simps)
  have "unat (4 * Fm * Mlw) = 4 * unat Fm * L" using lim(2) u4 by (simp add: unat_simps L_def)
  moreover have "unat (96000 * Mnw div 300000) = 96000 * N div 300000" by (simp add: unat_div u(6))
  moreover have "0 < 96000 * N div 300000" using b by (simp add: div_greater_zero_iff)
  ultimately obtain q where q: "div_u64 (4 * Fm * Mlw) (96000 * Mnw div 300000) = Some q"
    "unat q = 4 * unat Fm * L div (96000 * N div 300000)"
    using word_div_nat by metis
  have Fh: "unat (max (4 * Fm) q) = max (4 * unat Fm) (4 * unat Fm * L div (96000 * N div 300000))"
    by (simp add: unat_max u4 q(2))
  have short: "length (to_string (unat f)) < 20" if "unat f \<le> 4 * 3000 * B" for f :: u64
    using that b(1) by (intro short_number) simp
  have "unat Fl \<le> 4 * 3000 * B" "unat Fn \<le> 4 * 3000 * B"
    using div_le_dividend [of "3000 * B" "L\<^sup>2"] div_le_dividend [of "4 * 3000 * B" "L\<^sup>2"]
    unfolding Fl(2) Fn(2) by linarith+
  moreover have "unat Fm \<le> 4 * 3000 * B" using FmL Fm4 by linarith
  moreover have "unat (max (4 * Fm) q) \<le> 4 * 3000 * B"
    using FmL Fm4 div_le_dividend [of "4 * unat Fm * L" "96000 * N div 300000"] unfolding Fh
    by (intro max.boundedI) linarith+
  ultimately have all: "\<forall>f \<in> set [Fl, Fn, Fm, max (4 * Fm) q]. unat f \<le> 4 * 3000 * B" by (simp only: list.set ball_simps simp_thms)
  then have "fee_levels_2021 base_reward Mnw Mlw =
      Some (map (\<lambda>f. of_nat (round2 (unat f))) [Fl, Fn, Fm, max (4 * Fm) q])"
    using Fl(1) Fn(1) Fm(1) q(1) round_money_up_round2(1) [OF short]
    by (simp add: fee_levels_2021_def M Let_def DYNAMIC_FEE_REFERENCE_TRANSACTION_WEIGHT_def
        CRYPTONOTE_BLOCK_GRANTED_FULL_REWARD_ZONE_V5_def)
  moreover have "map unat (map (\<lambda>f. of_nat (round2 (unat f)) :: u64) [Fl, Fn, Fm, max (4 * Fm) q]) =
      map round2 (map unat [Fl, Fn, Fm, max (4 * Fm) q])"
    using all round_money_up_round2(2) [OF short] unfolding map_map comp_def by (intro map_cong) blast+
  moreover have "map unat [Fl, Fn, Fm, max (4 * Fm) q] = fee_formulas B N L"
    unfolding list.map Fh Fl(2) Fn(2) Fm(2) fee_formulas_def Let_def by (rule refl)
  ultimately have "fee_levels_2021 base_reward Mnw Mlw =
      Some (map (\<lambda>f. of_nat (round2 (unat f))) [Fl, Fn, Fm, max (4 * Fm) q])
    \<and> map unat (map (\<lambda>f. of_nat (round2 (unat f)) :: u64) [Fl, Fn, Fm, max (4 * Fm) q]) = map round2 (fee_formulas B N L)"
    by (simp only: simp_thms)
  then show ?thesis unfolding B_def L_def N_def by blast
qed

section \<open>The medians of the wallet\<close>

text \<open>The median of the last \<open>n\<close> weights of a chain that is extended by blocks of weight zero.\<close>

definition extended_median :: "nat \<Rightarrow> nat \<Rightarrow> u64 list \<Rightarrow> u64" where
  "extended_median grace_blocks n weights = median (drop (length weights + grace_blocks - n) (weights @ replicate grace_blocks 0))"

lemma last_append:
  assumes "drop (length xs - n) xs = drop (length ys - n) ys"
  shows "drop (length xs + length zs - n) (xs @ zs) = drop (length ys + length zs - n) (ys @ zs)"
proof -
  have "drop (length us + length zs - n) us = drop (length (drop (length us - n) us) + length zs - n) (drop (length us - n) us)" for us :: "'a list"
    by (cases "n \<le> length us") (auto simp: add.commute)
  from this [of xs] this [of ys] assms
  have "drop (length xs + length zs - n) xs = drop (length ys + length zs - n) ys" by simp
  moreover have "length xs + length zs - n - length xs = length ys + length zs - n - length ys" by simp
  ultimately show ?thesis by simp
qed

lemma rolling_append:
  assumes "filled window db rm" and "0 < window" and "db \<noteq> []"
  shows "rm_median (fold (\<lambda>w rm. rm_insert rm w) zs rm) =
    median (drop (length db + length zs - window) (map bi_long_term_block_weight db @ zs))"
proof -
  let ?w = "map bi_long_term_block_weight db"
  obtain xs where xs: "rm_N rm = window" "holds rm xs" "drop (length xs - window) xs = window_weights window db"
    using assms(1) by (auto simp: filled_def)
  have e: "drop (length xs - window) xs = drop (length ?w - window) ?w" by (simp add: xs(3) window_weights_def drop_map)
  have "length (drop (length xs - window) xs) \<noteq> 0" using assms(2,3) by (simp only: xs(3)) simp
  then have "xs @ zs \<noteq> []" by auto
  then show ?thesis
    using rm_median_window [OF holds_inserts [OF xs(2)], of zs] inserts_N [OF xs(2), of zs] xs(1)
      last_append [OF e, of zs] by simp
qed

lemma rolling_extended:
  assumes "filled window db rm" and "0 < window" and "db \<noteq> []"
  shows "rm_median (fold (\<lambda>w rm. rm_insert rm w) (replicate g 0) rm) = extended_median g window (map bi_long_term_block_weight db)"
  using rolling_append [OF assms, of "replicate g 0"] by (simp only: extended_median_def length_replicate length_map)

lemma read_last_extended:
  assumes "db \<noteq> []" and "g < 100"
  shows "\<exists>weights. read_last_n_blocks_weights db (100 - g) = Some weights
    \<and> median (weights @ replicate g 0) = extended_median g 100 (map bi_weight db)"
proof -
  have l: "length db - min (length db) (100 - g) = length db + g - 100" using assms(2) by simp
  moreover have "length db + g - 100 < length db" using assms by (cases db) auto
  ultimately have "read_last_n_blocks_weights db (100 - g) = Some (map bi_weight (drop (length db + g - 100) db))"
    using assms by (simp add: read_last_n_blocks_weights_def get_block_info_64bit_fields_def)
  then show ?thesis using assms(2) by (simp add: extended_median_def drop_map)
qed

lemma wallet_medians_exact:
  assumes "filled window db (cache_rolling_median c)" and "0 < window" and "db \<noteq> []" and "g < 100"
    and "Mlw = max (extended_median g window (map bi_long_term_block_weight db)) 300000"
    and "Mnw = min (max (extended_median g 100 (map bi_weight db)) Mlw) (50 * Mlw)"
  shows "wallet_medians g db c = Some (Mnw, Mlw)"
  using read_last_extended [OF assms(3,4)] rolling_extended [OF assms(1-3), of g] assms(5,6)
  by (auto simp: wallet_medians_def Let_def CRYPTONOTE_BLOCK_GRANTED_FULL_REWARD_ZONE_V5_def)


lemma reward_example:
  "estimate_base_reward 16 [b] 10000000000 \<lparr>m_long_term_effective_median_block_weight = 300000,
     m_current_block_cumul_weight_median = 300000, m_current_block_cumul_weight_limit = 600000\<rparr> = 10000000000"
  by (simp add: estimate_base_reward_def get_block_reward_def base_block_reward_def get_min_block_weight_def Let_def
      CRYPTONOTE_BLOCK_GRANTED_FULL_REWARD_ZONE_V5_def HALVING_INTERVAL_def INITIAL_REWARD_def MONEY_SUPPLY_def)


text \<open>The database refuses the largest number of grace blocks that the assertion lets through.\<close>

lemma hundred_grace_blocks: "db \<noteq> [] \<Longrightarrow> get_dynamic_base_fee_estimate_2021_scaling version db coins s c 100 = None"
  by (simp add: get_dynamic_base_fee_estimate_2021_scaling_def wallet_medians_def Let_def
      read_last_n_blocks_weights_def get_block_info_64bit_fields_def)

end
