(* ===== verification/Base58.thy ===== *)
theory Base58
  imports Int_Util
begin

text \<open>
  Base58 text encoding: \<open>src/common/base58.cpp\<close>. Data is cut into blocks of eight bytes; a block is
  read as a big-endian number and written in eleven base-58 digits (fewer for a short last block).

  The lemmas show that \<open>base58_encode\<close> never writes outside of the result buffer, that decoding and
  encoding are inverse to each other in both directions, so that every text has at most one preimage
  and every accepted text is the encoding of what it decodes to.
\<close>

section \<open>Definitions\<close>

definition alphabet :: string where
  "alphabet = ''123456789ABCDEFGHJKLMNPQRSTUVWXYZabcdefghijkmnopqrstuvwxyz''"

definition alphabet_size :: nat where "alphabet_size = length alphabet"
definition encoded_block_sizes :: "nat list" where "encoded_block_sizes = [0, 2, 3, 5, 6, 7, 9, 10, 11]"
definition full_block_size :: nat where "full_block_size = length encoded_block_sizes - 1"
definition full_encoded_block_size :: nat where "full_encoded_block_size = encoded_block_sizes ! full_block_size"

text \<open>The reverse table: a vector indexed by \<open>letter - alphabet[0]\<close> that holds the digit or -1.\<close>

definition reverse_alphabet_data :: "int list" where
  "reverse_alphabet_data =
    fold (\<lambda>i m_data. m_data[of_char (alphabet ! i) - of_char (alphabet ! 0) := int i]) [0..<alphabet_size]
      (replicate (of_char (alphabet ! (alphabet_size - 1)) - of_char (alphabet ! 0) + 1) (-1))"

definition reverse_alphabet :: "char \<Rightarrow> int" where
  "reverse_alphabet letter =
    (let idx = (scast (of_char letter :: u8) - of_char (alphabet ! 0) :: u64)
     in if unat idx < length reverse_alphabet_data then reverse_alphabet_data ! unat idx else -1)"

definition decoded_block_data :: "int list" where
  "decoded_block_data =
    fold (\<lambda>i m_data. m_data[encoded_block_sizes ! i := int i]) [0..<full_block_size + 1]
      (replicate (encoded_block_sizes ! full_block_size + 1) (-1))"

definition decoded_block_sizes :: "nat \<Rightarrow> int" where
  "decoded_block_sizes encoded_block_size = decoded_block_data ! encoded_block_size"

text \<open>
  A 64-bit word as its eight bytes in memory after \<open>SWAP64BE\<close>, most significant first.
\<close>

fun be_nat :: "bytes \<Rightarrow> nat" where
  "be_nat [] = 0"
| "be_nat (b # bs) = unat b * 256 ^ length bs + be_nat bs"

definition uint_8be_to_64 :: "bytes \<Rightarrow> u64" where
  "uint_8be_to_64 data = of_nat (be_nat (replicate (8 - length data) 0 @ data))"

definition uint_64_to_8be :: "u64 \<Rightarrow> nat \<Rightarrow> bytes" where
  "uint_64_to_8be num sz = drop (8 - sz) (map (\<lambda>i. ucast (drop_bit (8 * (7 - i)) num)) [0..<8])"

text \<open>
  The digits of a block go to the end of its slot of the result, last digit first; \<open>off\<close> is the
  slot's position and the loop variable is one above the source's \<open>i\<close>. \<open>None\<close> stands for a write
  outside of the buffer.
\<close>

fun encode_block_loop :: "u64 \<Rightarrow> nat \<Rightarrow> nat \<Rightarrow> string \<Rightarrow> string option" where
  "encode_block_loop num off 0 res = (if 0 < num then None else Some res)"
| "encode_block_loop num off (Suc i) res =
    (if 0 < num then
       if off + i < length res
       then encode_block_loop (num div of_nat alphabet_size) off i
         (res[off + i := alphabet ! unat (num mod of_nat alphabet_size)])
       else None
     else Some res)"

definition encode_block :: "bytes \<Rightarrow> nat \<Rightarrow> string \<Rightarrow> string option" where
  "encode_block block off res =
    encode_block_loop (uint_8be_to_64 block) off (encoded_block_sizes ! length block) res"

text \<open>The block is read from its last letter to its first.\<close>

fun decode_digits :: "string \<Rightarrow> u64 \<Rightarrow> u64 \<Rightarrow> u64 option" where
  "decode_digits [] res_num order = Some res_num"
| "decode_digits (letter # letters) res_num order =
    (let digit = reverse_alphabet letter
     in if digit < 0 then None
        else
          let (product_lo, product_hi) = mul128 order (of_int digit);
              tmp = res_num + product_lo
          in if tmp < res_num \<or> product_hi \<noteq> 0 then None
             else decode_digits letters tmp (order * of_nat alphabet_size))"

definition decode_block :: "string \<Rightarrow> bytes option" where
  "decode_block block =
    (let res_size = decoded_block_sizes (length block)
     in if res_size \<le> 0 then None
        else case decode_digits (rev block) 0 1 of
               None \<Rightarrow> None
             | Some res_num \<Rightarrow>
                 if nat res_size < full_block_size \<and> push_bit (8 * nat res_size) 1 \<le> res_num then None
                 else Some (uint_64_to_8be res_num (nat res_size)))"

fun encode_blocks :: "bytes \<Rightarrow> nat list \<Rightarrow> string \<Rightarrow> string option" where
  "encode_blocks data [] res = Some res"
| "encode_blocks data (i # is) res =
    (case encode_block (take full_block_size (drop (i * full_block_size) data)) (i * full_encoded_block_size) res of
       None \<Rightarrow> None
     | Some res \<Rightarrow> encode_blocks data is res)"

definition base58_encode :: "bytes \<Rightarrow> string option" where
  "base58_encode data =
    (if data = [] then Some []
     else
       let full_block_count = length data div full_block_size;
           last_block_size = length data mod full_block_size;
           res_size = full_block_count * full_encoded_block_size + encoded_block_sizes ! last_block_size;
           res = replicate res_size (alphabet ! 0)
       in case encode_blocks data [0..<full_block_count] res of
            None \<Rightarrow> None
          | Some res \<Rightarrow>
              if 0 < last_block_size
              then encode_block (drop (full_block_count * full_block_size) data)
                (full_block_count * full_encoded_block_size) res
              else Some res)"

fun decode_blocks :: "string \<Rightarrow> nat list \<Rightarrow> bytes \<Rightarrow> bytes option" where
  "decode_blocks enc [] data = Some data"
| "decode_blocks enc (i # is) data =
    (case decode_block (take full_encoded_block_size (drop (i * full_encoded_block_size) enc)) of
       None \<Rightarrow> None
     | Some bs \<Rightarrow> decode_blocks enc is (write_at (i * full_block_size) bs data))"

definition base58_decode :: "string \<Rightarrow> bytes option" where
  "base58_decode enc =
    (if enc = [] then Some []
     else
       let full_block_count = length enc div full_encoded_block_size;
           last_block_size = length enc mod full_encoded_block_size;
           last_block_decoded_size = decoded_block_sizes last_block_size
       in if last_block_decoded_size < 0 then None
          else
            let data_size = full_block_count * full_block_size + nat last_block_decoded_size;
                data = replicate data_size 0
            in case decode_blocks enc [0..<full_block_count] data of
                 None \<Rightarrow> None
               | Some data \<Rightarrow>
                   if 0 < last_block_size
                   then (case decode_block (drop (full_block_count * full_encoded_block_size) enc) of
                           None \<Rightarrow> None
                         | Some bs \<Rightarrow> Some (write_at (full_block_count * full_block_size) bs data))
                   else Some data)"

text \<open>
  The reference encoding: a block is a number written in a fixed count of digits, most significant
  first, and a text is the sequence of its encoded blocks.
\<close>

fun enc_digits :: "nat \<Rightarrow> nat \<Rightarrow> string" where
  "enc_digits 0 v = []"
| "enc_digits (Suc n) v = enc_digits n (v div 58) @ [alphabet ! (v mod 58)]"

fun digits_value :: "string \<Rightarrow> nat" where
  "digits_value [] = 0"
| "digits_value (c # cs) = nat (reverse_alphabet c) + 58 * digits_value cs"

definition valid_letter :: "char \<Rightarrow> bool" where
  "valid_letter c \<longleftrightarrow> 0 \<le> reverse_alphabet c"

definition enc_block :: "bytes \<Rightarrow> string" where
  "enc_block b = enc_digits (encoded_block_sizes ! length b) (be_nat b)"

definition chunks :: "nat \<Rightarrow> 'a list \<Rightarrow> 'a list list" where
  "chunks n xs = map (\<lambda>i. take n (drop (i * n) xs)) [0..<length xs div n]
    @ (if length xs mod n = 0 then [] else [drop (length xs div n * n) xs])"

text \<open>The encoding, which never fails (shown below).\<close>

definition base58_text :: "bytes \<Rightarrow> string" where
  "base58_text data = the (base58_encode data)"

section \<open>The tables\<close>

lemma alphabet_size_58 [simp]: "alphabet_size = 58"
  by (simp add: alphabet_size_def alphabet_def)

lemma length_alphabet [simp]: "length alphabet = 58"
  using alphabet_size_58 unfolding alphabet_size_def .

lemma full_sizes [simp]: "full_block_size = 8" "full_encoded_block_size = 11"
  by (simp_all add: full_block_size_def full_encoded_block_size_def encoded_block_sizes_def)

lemma reverse_alphabet_data_eq: "reverse_alphabet_data =
    [0, 1, 2, 3, 4, 5, 6, 7, 8, -1, -1, -1, -1, -1, -1, -1, 9, 10, 11, 12, 13, 14, 15, 16, -1,
     17, 18, 19, 20, 21, -1, 22, 23, 24, 25, 26, 27, 28, 29, 30, 31, 32, -1, -1, -1, -1, -1,
     -1, 33, 34, 35, 36, 37, 38, 39, 40, 41, 42, 43, -1, 44, 45, 46, 47, 48, 49, 50, 51, 52,
     53, 54, 55, 56, 57]"
  by (simp add: reverse_alphabet_data_def alphabet_def list_update_numeral replicate_numeral upt_rec)

lemma decoded_table: "decoded_block_data = [0, -1, 1, 2, -1, 3, 4, 5, -1, 6, 7, 8]"
  by code_simp

lemma reverse_digits:
  "list_all (\<lambda>d. reverse_alphabet (alphabet ! d) = int d) [0..<58]"
  by (simp add: reverse_alphabet_def reverse_alphabet_data_eq alphabet_def upt_rec)

lemma reverse_alphabet_nth: "d < 58 \<Longrightarrow> reverse_alphabet (alphabet ! d) = int d"
  using reverse_digits by (simp add: list_all_iff)

lemma reverse_letters:
  "list_all (\<lambda>i. reverse_alphabet_data ! i < 0 \<or> nat (reverse_alphabet_data ! i) < 58
    \<and> of_char (alphabet ! nat (reverse_alphabet_data ! i)) = i + 49) [0..<74]"
  by (simp add: reverse_alphabet_data_eq alphabet_def upt_rec)

lemma letter_index:
  fixes x :: u8
  assumes "unat (scast x - 49 :: u64) < 74"
  shows "unat x = unat (scast x - 49 :: u64) + 49"
proof -
  let ?i = "scast x - 49 :: u64"
  have "x = ucast (scast x :: u64)" by (rule bit_word_eqI) (simp add: bit_ucast_iff bit_word_scast_iff)
  also have "scast x = ?i + 49" by simp
  finally have "unat x = unat (ucast (?i + 49) :: u8)" by simp
  also have "\<dots> = unat (?i + 49) mod 256" by (simp only: unsigned_ucast_eq take_bit_eq_mod) simp
  also have "unat (?i + 49) = unat ?i + 49" using assms by (subst unat_add_no_overflow) simp_all
  finally show ?thesis using assms by simp
qed

lemma alphabet_reverse:
  assumes "0 \<le> reverse_alphabet c"
  shows "nat (reverse_alphabet c) < 58" and "alphabet ! nat (reverse_alphabet c) = c"
proof -
  define i where "i = unat (scast (of_char c :: u8) - 49 :: u64)"
  have a: "of_char (alphabet ! 0) = (49 :: u64)" by (simp add: alphabet_def)
  have i: "i < 74" "reverse_alphabet c = reverse_alphabet_data ! i"
    using assms by (auto simp: reverse_alphabet_def i_def a reverse_alphabet_data_eq Let_def split: if_splits)
  have "unat (of_char c :: u8) = i + 49" using i(1) unfolding i_def by (rule letter_index)
  moreover have "unat (of_nat (of_char c) :: u8) = of_char c"
    using nat_of_char_less_256 [of c] by (simp only: unat_of_nat) simp
  ultimately have "of_char c = i + 49" unfolding of_nat_of_char by simp
  moreover have "nat (reverse_alphabet_data ! i) < 58 \<and> of_char (alphabet ! nat (reverse_alphabet_data ! i)) = i + 49"
    using reverse_letters [unfolded list_all_iff, THEN bspec, of i] i assms by simp
  ultimately show "nat (reverse_alphabet c) < 58" "alphabet ! nat (reverse_alphabet c) = c"
    using i(2) of_char_eq_iff [where 'a = nat, of "alphabet ! nat (reverse_alphabet_data ! i)" c] by simp_all
qed

section \<open>Digits\<close>

lemma length_enc_digits [simp]: "length (enc_digits n v) = n"
  by (induction n arbitrary: v) simp_all

lemma enc_digits_zero: "enc_digits n 0 = replicate n (alphabet ! 0)"
  by (induction n) (simp_all add: replicate_append_same)

lemma enc_digits_valid: "list_all valid_letter (enc_digits n v)"
  by (induction n arbitrary: v) (simp_all add: valid_letter_def reverse_alphabet_nth)

lemma digits_value_enc: "v < 58 ^ n \<Longrightarrow> digits_value (rev (enc_digits n v)) = v"
proof (induction n arbitrary: v)
  case (Suc n)
  then have "v div 58 < 58 ^ n" by (intro less_mult_imp_div_less) (simp add: mult.commute)
  with Suc.IH show ?case by (simp add: reverse_alphabet_nth)
qed simp

lemma enc_digits_value: "list_all valid_letter s \<Longrightarrow> enc_digits (length s) (digits_value (rev s)) = s"
proof (induction s rule: rev_induct)
  case (snoc c s)
  then have "nat (reverse_alphabet c) < 58" "alphabet ! nat (reverse_alphabet c) = c"
    by (simp_all add: valid_letter_def alphabet_reverse)
  with snoc show ?case by simp
qed simp

lemma digits_value_less: "list_all valid_letter s \<Longrightarrow> digits_value s < 58 ^ length s"
proof (induction s)
  case (Cons c s)
  then have "nat (reverse_alphabet c) < 58" by (simp add: valid_letter_def alphabet_reverse)
  then have "digits_value (c # s) < 58 * (digits_value s + 1)" by simp
  also have "\<dots> \<le> 58 * 58 ^ length s" using Cons by (intro mult_le_mono2) simp
  finally show ?case by simp
qed simp

lemma decode_digits_Cons:
  assumes "valid_letter c"
  shows "decode_digits (c # s) r order =
    (if unat r + unat order * nat (reverse_alphabet c) < 2 ^ 64
     then decode_digits s (of_nat (unat r + unat order * nat (reverse_alphabet c))) (order * 58) else None)"
proof -
  let ?d = "nat (reverse_alphabet c)"
  have d: "?d < 58" "\<not> reverse_alphabet c < 0" using assms by (simp_all add: valid_letter_def alphabet_reverse)
  then have "(of_int (reverse_alphabet c) :: u64) = of_nat ?d" by (simp only: not_less of_nat_nat)
  then have ud: "unat (of_int (reverse_alphabet c) :: u64) = ?d" using d(1) by (simp add: unat_of_nat)
  obtain lo hi where m: "mul128 order (of_int (reverse_alphabet c)) = (lo, hi)" by fastforce
  note fits = mul128_fits [OF m, unfolded ud]
  have code: "decode_digits (c # s) r order = (if r + lo < r \<or> hi \<noteq> 0 then None else decode_digits s (r + lo) (order * 58))"
    using d(2) m by (simp add: Let_def)
  show ?thesis
  proof (cases "hi = 0")
    case True
    note sum = word_add_carry [of r lo, unfolded fits(2) [OF True]]
    show ?thesis
    proof (cases "r + lo < r")
      case False
      then have e: "unat r + unat order * ?d = unat (r + lo)" using sum by (simp only: if_False)
      show ?thesis unfolding code e using False \<open>hi = 0\<close> by simp
    next
      case True
      then have "\<not> unat r + unat order * ?d < 2 ^ 64" using sum by (simp only: if_True) simp
      then show ?thesis unfolding code using True by (simp only: if_True if_False simp_thms)
    qed
  next
    case False
    then have "\<not> unat r + unat order * ?d < 2 ^ 64" unfolding fits(1) by linarith
    then show ?thesis unfolding code using False by (simp only: if_True if_False simp_thms)
  qed
qed

lemma decode_digits_eq:
  assumes "s \<noteq> [] \<longrightarrow> unat order = 58 ^ k" and "k + length s \<le> 11"
  shows "decode_digits s r order =
    (if list_all valid_letter s \<and> unat r + 58 ^ k * digits_value s < 2 ^ 64
     then Some (of_nat (unat r + 58 ^ k * digits_value s)) else None)"
  using assms
proof (induction s arbitrary: r order k)
  case Nil
  then show ?case by simp
next
  case (Cons c s)
  let ?n = "unat r + 58 ^ k * nat (reverse_alphabet c)"
  have o: "unat order = 58 ^ k" using Cons.prems by simp
  have total: "unat r + 58 ^ k * digits_value (c # s) = ?n + 58 ^ Suc k * digits_value s"
    by (simp add: distrib_left)
  consider "\<not> valid_letter c" | "valid_letter c" "\<not> ?n < 2 ^ 64" | "valid_letter c" "?n < 2 ^ 64" by blast
  then show ?case
  proof cases
    case 1
    then show ?thesis by (simp add: valid_letter_def)
  next
    case 2
    then show ?thesis unfolding total by (simp only: decode_digits_Cons o) simp
  next
    case 3
    have ord: "s \<noteq> [] \<longrightarrow> unat (order * 58) = 58 ^ Suc k"
    proof
      assume "s \<noteq> []"
      then have "Suc k \<le> 10" using Cons.prems(2) by (cases s) simp_all
      then have "(58 :: nat) ^ Suc k \<le> 58 ^ 10" by (rule power_increasing) simp
      then have "(58 :: nat) ^ k * 58 < 2 ^ 64" by simp
      then show "unat (order * 58) = 58 ^ Suc k" by (subst unat_mult_no_overflow) (simp_all add: o)
    qed
    have "unat (of_nat ?n :: u64) = ?n" using 3(2) by (simp only: unat_of_nat) simp
    with Cons.IH [OF ord, of "of_nat ?n"] Cons.prems(2) 3 show ?thesis
      unfolding total by (simp only: decode_digits_Cons o) simp
  qed
qed

section \<open>Bytes\<close>

lemma be_nat_less: "be_nat bs < 256 ^ length bs"
proof (induction bs)
  case (Cons b bs)
  have "be_nat (b # bs) < (unat b + 1) * 256 ^ length bs" using Cons.IH by simp
  also have "\<dots> \<le> 256 * 256 ^ length bs" using unat_u8_less [of b] by (intro mult_le_mono1) (simp del: unat_u8_less)
  finally show ?case by simp
qed simp

lemma be_nat_zeros: "be_nat (replicate n 0 @ xs) = be_nat xs"
  by (induction n) simp_all

lemma be_nat_inject: "length xs = length ys \<Longrightarrow> be_nat xs = be_nat ys \<Longrightarrow> xs = ys"
proof (induction xs ys rule: list_induct2)
  case (Cons x xs y ys)
  have div: "be_nat (z # zs) div 256 ^ length ys = unat z" "be_nat (z # zs) mod 256 ^ length ys = be_nat zs"
    if "length zs = length ys" for z zs
    using that be_nat_less [of zs] by simp_all
  have "unat x = unat y" using Cons div [of xs x] div [of ys y] by (simp del: be_nat.simps)
  moreover have "be_nat xs = be_nat ys" using Cons div [of xs x] div [of ys y] by (simp del: be_nat.simps)
  ultimately show ?case using Cons.IH by (simp add: word_unat_eq_iff)
qed simp

lemma unat_uint_8be_to_64:
  assumes "length data \<le> 8"
  shows "unat (uint_8be_to_64 data) = be_nat data"
proof -
  have "be_nat data < 256 ^ length data" by (rule be_nat_less)
  also have "\<dots> \<le> 256 ^ 8" using assms by (rule power_increasing) simp
  finally show ?thesis unfolding uint_8be_to_64_def be_nat_zeros by (simp only: unat_of_nat) simp
qed

lemma be_nat_word_bytes:
  "be_nat (map (\<lambda>i. ucast (drop_bit (8 * (k - 1 - i)) num)) [0..<k]) = unat num mod 256 ^ k" for num :: u64
proof (induction k)
  case (Suc k)
  have shift: "map (\<lambda>i. ucast (drop_bit (8 * (Suc k - 1 - i)) num) :: u8) [0..<Suc k]
      = ucast (drop_bit (8 * k) num) # map (\<lambda>i. ucast (drop_bit (8 * (k - 1 - i)) num)) [0..<k]"
    by (subst upt_conv_Cons) (simp_all add: map_Suc_upt [symmetric] del: upt_Suc)
  have b: "unat (ucast (drop_bit (8 * k) num) :: u8) = unat num div 256 ^ k mod 256"
    by (simp only: unsigned_ucast_eq take_bit_eq_mod unat_drop_bit power_mult) simp
  show ?case
    unfolding shift be_nat.simps Suc.IH b power_Suc2 mod_mult2_eq by simp
qed simp

lemma uint_64_to_8be_eq:
  assumes "sz \<le> 8"
  shows "uint_64_to_8be num sz = map (\<lambda>i. ucast (drop_bit (8 * (sz - 1 - i)) num)) [0..<sz]"
proof (rule nth_equalityI)
  fix i assume "i < length (uint_64_to_8be num sz)"
  then have "i < sz" "7 - (8 - sz + i) = sz - 1 - i" using assms by (simp_all add: uint_64_to_8be_def)
  then show "uint_64_to_8be num sz ! i = map (\<lambda>i. ucast (drop_bit (8 * (sz - 1 - i)) num)) [0..<sz] ! i"
    using assms by (simp add: uint_64_to_8be_def)
qed (use assms in \<open>simp add: uint_64_to_8be_def\<close>)

lemma length_uint_64_to_8be [simp]: "sz \<le> 8 \<Longrightarrow> length (uint_64_to_8be num sz) = sz"
  by (simp add: uint_64_to_8be_def)

lemma be_nat_uint_64_to_8be: "sz \<le> 8 \<Longrightarrow> be_nat (uint_64_to_8be num sz) = unat num mod 256 ^ sz"
  by (simp only: uint_64_to_8be_eq be_nat_word_bytes)

section \<open>Blocks\<close>

lemma block_sizes:
  "list_all (\<lambda>n. decoded_block_sizes (encoded_block_sizes ! n) = int n \<and> encoded_block_sizes ! n \<le> 11
    \<and> (256 :: nat) ^ n \<le> 58 ^ (encoded_block_sizes ! n) \<and> (n < 8 \<longrightarrow> encoded_block_sizes ! n < 11)
    \<and> (0 < n \<longrightarrow> 0 < encoded_block_sizes ! n)) [0..<9]"
  by (simp add: upt_rec decoded_block_sizes_def decoded_table encoded_block_sizes_def)

lemma block_size_facts:
  assumes "n \<le> 8"
  shows "decoded_block_sizes (encoded_block_sizes ! n) = int n" and "encoded_block_sizes ! n \<le> 11"
    and "(256 :: nat) ^ n \<le> 58 ^ (encoded_block_sizes ! n)" and "n < 8 \<Longrightarrow> encoded_block_sizes ! n < 11"
    and "0 < n \<Longrightarrow> 0 < encoded_block_sizes ! n"
  using block_sizes [unfolded list_all_iff, THEN bspec, of n] assms by simp_all

lemma decoded_sizes:
  "list_all (\<lambda>m. 0 \<le> decoded_block_sizes m \<longrightarrow> nat (decoded_block_sizes m) \<le> 8
    \<and> encoded_block_sizes ! nat (decoded_block_sizes m) = m \<and> (m < 11 \<longrightarrow> nat (decoded_block_sizes m) < 8)
    \<and> (0 < m \<longrightarrow> 0 < decoded_block_sizes m)) [0..<12]"
  by (simp add: upt_rec decoded_block_sizes_def decoded_table encoded_block_sizes_def)

lemma decoded_size_facts:
  assumes "m \<le> 11" and "0 \<le> decoded_block_sizes m"
  shows "nat (decoded_block_sizes m) \<le> 8" and "encoded_block_sizes ! nat (decoded_block_sizes m) = m"
    and "m < 11 \<Longrightarrow> nat (decoded_block_sizes m) < 8" and "0 < m \<Longrightarrow> 0 < decoded_block_sizes m"
  using decoded_sizes [unfolded list_all_iff, THEN bspec, of m] assms by simp_all

lemma decode_block_eq:
  assumes "length s \<le> 11" and "decoded_block_sizes (length s) = int n"
  shows "decode_block s =
    (if 0 < n \<and> list_all valid_letter s \<and> digits_value (rev s) < 256 ^ n
     then Some (uint_64_to_8be (of_nat (digits_value (rev s))) n) else None)"
proof -
  let ?v = "digits_value (rev s)"
  have n: "n \<le> 8" using decoded_size_facts(1) [OF assms(1)] assms(2) by simp
  have digits: "decode_digits (rev s) 0 1 =
      (if list_all valid_letter s \<and> ?v < 2 ^ 64 then Some (of_nat ?v) else None)"
    using decode_digits_eq [of "rev s" 1 0 0] assms(1) by simp
  have big: "?v < 2 ^ 64" if "?v < 256 ^ n"
    using that power_increasing [OF n, of "256 :: nat"] by simp
  have "push_bit (8 * n) (1 :: u64) \<le> of_nat ?v \<longleftrightarrow> 256 ^ n \<le> ?v" if "n < 8" "?v < 2 ^ 64"
  proof -
    have "(2 :: nat) ^ (8 * n) < 2 ^ 64" using that(1) by (intro power_strict_increasing) simp_all
    then have "unat (push_bit (8 * n) (1 :: u64)) = 256 ^ n" by (subst unat_push_bit) (simp add: power_mult)
    moreover have "unat (of_nat ?v :: u64) = ?v" using that(2) by (simp only: unat_of_nat) simp
    ultimately show ?thesis by (simp only: word_le_nat_alt)
  qed
  with big show ?thesis
    using n by (cases "n < 8") (auto simp: decode_block_def Let_def assms(2) digits)
qed

lemma length_enc_block: "length (enc_block b) = encoded_block_sizes ! length b"
  by (simp add: enc_block_def)

lemma decode_enc_block:
  assumes "b \<noteq> []" and "length b \<le> 8"
  shows "decode_block (enc_block b) = Some b"
proof -
  note sz = block_size_facts [OF assms(2)]
  have "be_nat b < 58 ^ (encoded_block_sizes ! length b)" using be_nat_less [of b] sz(3) by (rule order.strict_trans2)
  then have v: "digits_value (rev (enc_block b)) = be_nat b" unfolding enc_block_def by (rule digits_value_enc)
  have "be_nat b < 2 ^ 64"
    using be_nat_less [of b] power_increasing [OF assms(2), of "256 :: nat"] by simp
  then have w: "unat (of_nat (be_nat b) :: u64) = be_nat b" by (simp only: unat_of_nat) simp
  have "uint_64_to_8be (of_nat (be_nat b)) (length b) = b"
    using assms be_nat_less [of b] w by (intro be_nat_inject) (simp_all only: length_uint_64_to_8be be_nat_uint_64_to_8be mod_less)
  moreover have "list_all valid_letter (enc_block b)" unfolding enc_block_def by (rule enc_digits_valid)
  ultimately show ?thesis
    using decode_block_eq [of "enc_block b" "length b"] assms sz be_nat_less [of b]
    by (simp add: length_enc_block v)
qed

lemma enc_decode_block:
  assumes "length s \<le> 11" and "decode_block s = Some b"
  shows "enc_block b = s" and "b \<noteq> []" and "length b \<le> 8" and "int (length b) = decoded_block_sizes (length s)"
proof -
  have "0 < decoded_block_sizes (length s)" using assms(2) by (auto simp: decode_block_def Let_def split: if_splits)
  then obtain n where n: "decoded_block_sizes (length s) = int n" "0 < n" by (metis of_nat_0_less_iff zero_less_imp_eq_int)
  note sz = decoded_size_facts [OF assms(1), unfolded n(1)]
  let ?v = "digits_value (rev s)"
  have d: "list_all valid_letter s" "?v < 256 ^ n" "b = uint_64_to_8be (of_nat ?v) n"
    using assms decode_block_eq [OF assms(1) n(1)] by (auto split: if_splits)
  have "?v < 2 ^ 64" using d(2) power_increasing [OF sz(1), of "256 :: nat"] by simp
  then have w: "unat (of_nat ?v :: u64) = ?v" by (simp only: unat_of_nat) simp
  have l: "length b = n" "be_nat b = ?v" using d sz w by (simp_all add: be_nat_uint_64_to_8be)
  show "enc_block b = s" using enc_digits_value [OF d(1)] sz l by (simp add: enc_block_def)
  show "b \<noteq> []" "length b \<le> 8" "int (length b) = decoded_block_sizes (length s)" using l n sz by auto
qed

section \<open>Buffers\<close>

lemma encode_block_loop_eq:
  assumes "unat num < 58 ^ n" and "off + n \<le> length res"
    and "take n (drop off res) = replicate n (alphabet ! 0)"
  shows "encode_block_loop num off n res = Some (take off res @ enc_digits n (unat num) @ drop (off + n) res)"
  using assms
proof (induction n arbitrary: num res)
  case 0
  then show ?case by (simp add: unat_eq_0)
next
  case (Suc n)
  show ?case
  proof (cases "num = 0")
    case True
    have "res = take off res @ take (Suc n) (drop off res) @ drop (off + Suc n) res"
      by (metis append_take_drop_id drop_drop add.commute)
    then show ?thesis
      unfolding Suc.prems(3) using True by (simp only: encode_block_loop.simps unsigned_0 enc_digits_zero) simp
  next
    case False
    let ?c = "alphabet ! unat (num mod 58)" and ?q = "num div 58"
    let ?res = "res[off + n := ?c]"
    have q: "unat ?q = unat num div 58" "unat (num mod 58) = unat num mod 58"
      by (simp_all add: unat_div_distrib unat_mod_distrib)
    have "unat ?q < 58 ^ n"
      using Suc.prems(1) unfolding q by (intro less_mult_imp_div_less) (simp add: mult.commute)
    moreover have "take n (drop off ?res) = replicate n (alphabet ! 0)"
      using arg_cong [OF Suc.prems(3), of "take n"] by (simp add: drop_update_swap take_update_cancel del: replicate.simps)
    ultimately have "encode_block_loop ?q off n ?res
        = Some (take off ?res @ enc_digits n (unat ?q) @ drop (off + n) ?res)"
      using Suc.prems(2) by (intro Suc.IH) simp_all
    moreover have "drop (off + n) ?res = ?c # drop (off + Suc n) res"
      using Suc.prems(2) Cons_nth_drop_Suc [of "off + n" ?res] by simp
    ultimately show ?thesis using False Suc.prems(2) by (simp add: q word_neq_0_conv)
  qed
qed

lemma encode_block_eq:
  assumes "length b \<le> 8" and "off + length (enc_block b) \<le> length res"
    and "take (length (enc_block b)) (drop off res) = replicate (length (enc_block b)) (alphabet ! 0)"
  shows "encode_block b off res = Some (take off res @ enc_block b @ drop (off + length (enc_block b)) res)"
proof -
  have "be_nat b < 58 ^ (encoded_block_sizes ! length b)"
    using be_nat_less [of b] block_size_facts(3) [OF assms(1)] by (rule order.strict_trans2)
  then show ?thesis
    using assms encode_block_loop_eq [of "uint_8be_to_64 b" "encoded_block_sizes ! length b" off res]
    by (simp add: encode_block_def length_enc_block) (simp add: unat_uint_8be_to_64 enc_block_def)
qed

lemma encode_blocks_append:
  "encode_blocks data (xs @ ys) res = (case encode_blocks data xs res of None \<Rightarrow> None | Some r \<Rightarrow> encode_blocks data ys r)"
  by (induction xs arbitrary: res) (simp_all split: option.split)

lemma encode_blocks_eq:
  assumes "8 * k \<le> length data" and "11 * k \<le> N"
  shows "encode_blocks data [0..<k] (replicate N (alphabet ! 0))
    = Some (concat (map (\<lambda>i. enc_block (take 8 (drop (i * 8) data))) [0..<k]) @ replicate (N - 11 * k) (alphabet ! 0))"
  using assms
proof (induction k)
  case (Suc k)
  let ?f = "\<lambda>i. enc_block (take 8 (drop (i * 8) data))"
  have len: "length (concat (map ?f [0..<j])) = 11 * j" if "8 * j \<le> length data" for j
    using that by (induction j) (simp_all add: length_enc_block encoded_block_sizes_def)
  have blk: "length (?f k) = 11" using Suc.prems by (simp add: length_enc_block encoded_block_sizes_def)
  let ?r = "concat (map ?f [0..<k]) @ replicate (N - 11 * k) (alphabet ! 0)"
  have "encode_block (take 8 (drop (k * 8) data)) (k * 11) ?r = Some (take (k * 11) ?r @ ?f k @ drop (k * 11 + 11) ?r)"
    using encode_block_eq [of "take 8 (drop (k * 8) data)" "k * 11" ?r] Suc.prems len [of k] blk
    by (simp add: mult.commute)
  then show ?case using Suc len [of k] blk
    by (simp add: encode_blocks_append mult.commute)
qed simp

lemma concat_full_blocks:
  "n * k \<le> length xs \<Longrightarrow> concat (map (\<lambda>i. take n (drop (i * n) xs)) [0..<k]) = take (n * k) xs"
proof (induction k)
  case (Suc k)
  then show ?case using take_add [of "n * k" n xs] by (simp add: mult.commute add.commute)
qed simp

lemma chunks_split:
  assumes "0 < n"
  obtains ys l where "chunks n xs = ys @ (if l = [] then [] else [l])" and "xs = concat ys @ l"
    and "\<forall>y\<in>set ys. length y = n" and "length l < n"
proof
  let ?k = "length xs div n"
  let ?ys = "map (\<lambda>i. take n (drop (i * n) xs)) [0..<?k]" and ?l = "drop (?k * n) xs"
  have k: "n * ?k \<le> length xs" by simp
  have len: "length ?l = length xs mod n" by (simp add: modulo_nat_def)
  then show "length ?l < n" using assms by simp
  show "chunks n xs = ?ys @ (if ?l = [] then [] else [?l])"
    using len by (simp add: chunks_def flip: length_0_conv)
  show "xs = concat ?ys @ ?l" unfolding concat_full_blocks [OF k] by (simp add: mult.commute)
  show "\<forall>y\<in>set ?ys. length y = n"
  proof
    fix y assume "y \<in> set ?ys"
    then obtain i where i: "i < ?k" "y = take n (drop (i * n) xs)" by auto
    then have "Suc i * n \<le> ?k * n" by (intro mult_le_mono1) simp
    also have "\<dots> \<le> length xs" using k by (simp add: mult.commute)
    finally show "length y = n" using i(2) by simp
  qed
qed

lemma concat_chunks: "0 < n \<Longrightarrow> concat (chunks n xs) = xs"
  by (rule chunks_split [of n xs]) auto

lemma length_concat_same: "\<forall>y\<in>set ys. length y = n \<Longrightarrow> length (concat ys) = length ys * n"
  by (induction ys) auto

lemma chunks_concat:
  assumes "\<forall>y\<in>set ys. length y = n" and "length l < n"
  shows "chunks n (concat ys @ l) = ys @ (if l = [] then [] else [l])"
proof -
  have len: "length (concat ys @ l) div n = length ys" "length (concat ys @ l) mod n = length l"
    using assms length_concat_same [OF assms(1)] by simp_all
  have "take n (drop (i * n) (concat ys @ l)) = ys ! i" if "i < length ys" for i
  proof -
    have ys: "ys = take i ys @ ys ! i # drop (Suc i) ys" using that by (rule id_take_nth_drop)
    have "length (concat (take i ys)) = i * n"
      using length_concat_same [of "take i ys" n] assms(1) that by (auto dest: in_set_takeD)
    moreover have "length (ys ! i) = n" using assms(1) that by simp
    ultimately show ?thesis by (subst ys) simp
  qed
  then have "map (\<lambda>i. take n (drop (i * n) (concat ys @ l))) [0..<length ys] = ys"
    by (intro nth_equalityI) simp_all
  then show ?thesis unfolding chunks_def len using length_concat_same [OF assms(1)] by simp
qed

lemma encoded_empty: "encoded_block_sizes ! 0 = 0"
  by (simp add: encoded_block_sizes_def)

lemma base58_encode_eq: "base58_encode data = Some (concat (map enc_block (chunks 8 data)))"
proof (cases "data = []")
  case True
  then show ?thesis by (simp add: base58_encode_def chunks_def)
next
  case False
  let ?k = "length data div 8" and ?m = "length data mod 8"
  let ?f = "\<lambda>i. enc_block (take 8 (drop (i * 8) data))" and ?l = "drop (?k * 8) data"
  let ?N = "?k * 11 + encoded_block_sizes ! ?m"
  have l: "length ?l = ?m" by (simp add: modulo_nat_def)
  have blocks: "encode_blocks data [0..<?k] (replicate ?N (alphabet ! 0))
      = Some (concat (map ?f [0..<?k]) @ replicate (encoded_block_sizes ! ?m) (alphabet ! 0))"
    using encode_blocks_eq [of ?k data ?N] by (simp add: mult.commute)
  have len: "length (concat (map ?f [0..<?k])) = ?k * 11"
    by (subst length_concat_same [of _ 11]) (auto simp: length_enc_block encoded_block_sizes_def less_mult_imp_div_less)
  have "encode_block ?l (?k * 11) (concat (map ?f [0..<?k]) @ replicate (encoded_block_sizes ! ?m) (alphabet ! 0))
      = Some (concat (map ?f [0..<?k]) @ enc_block ?l)"
    using encode_block_eq [of ?l "?k * 11"] len l by (simp add: length_enc_block)
  with False blocks show ?thesis
    by (cases "?m = 0") (simp_all add: base58_encode_def Let_def chunks_def comp_def encoded_empty)
qed

lemma those_snoc: "those (xs @ [y]) = (case those xs of None \<Rightarrow> None | Some r \<Rightarrow> map_option (\<lambda>v. r @ [v]) y)"
  by (induction xs) (auto split: option.splits simp: option.map_comp comp_def)

lemma those_eq_Some: "those xs = Some ys \<longleftrightarrow> xs = map Some ys"
  by (induction xs arbitrary: ys) (auto split: option.splits simp: Cons_eq_map_conv)

lemma decode_blocks_append:
  "decode_blocks enc (xs @ ys) data = (case decode_blocks enc xs data of None \<Rightarrow> None | Some d \<Rightarrow> decode_blocks enc ys d)"
  by (induction xs arbitrary: data) (simp_all split: option.split)

lemma decode_full_block:
  assumes "length s = 11" and "decode_block s = Some b"
  shows "length b = 8"
  using enc_decode_block(4) [of s b] assms by (simp add: decoded_block_sizes_def decoded_table)

lemma decoded_full_blocks:
  assumes "11 * k \<le> length enc"
    and "those (map (\<lambda>i. decode_block (take 11 (drop (i * 11) enc))) [0..<k]) = Some bs"
  shows "\<forall>y\<in>set bs. length y = 8" and "length (concat bs) = k * 8"
proof -
  let ?f = "\<lambda>i. decode_block (take 11 (drop (i * 11) enc))"
  have m: "map ?f [0..<k] = map Some bs" using assms(2) unfolding those_eq_Some .
  then have l: "length bs = k" by (metis length_map length_upt minus_nat.diff_0)
  have "length (bs ! i) = 8" if "i < k" for i
  proof (rule decode_full_block)
    have "11 * (i + 1) \<le> 11 * k" using that by (intro mult_le_mono2) simp
    then show "length (take 11 (drop (i * 11) enc)) = 11" using assms(1) by simp
    show "?f i = Some (bs ! i)" using arg_cong [OF m, of "\<lambda>l. l ! i"] that l by simp
  qed
  then show all: "\<forall>y\<in>set bs. length y = 8" using l by (auto simp: in_set_conv_nth)
  show "length (concat bs) = k * 8" unfolding length_concat_same [OF all] l ..
qed

lemma decode_blocks_eq:
  assumes "11 * k \<le> length enc" and "8 * k \<le> N"
  shows "decode_blocks enc [0..<k] (replicate N 0) =
    map_option (\<lambda>bs. concat bs @ replicate (N - 8 * k) 0)
      (those (map (\<lambda>i. decode_block (take 11 (drop (i * 11) enc))) [0..<k]))"
  using assms
proof (induction k)
  case (Suc k)
  let ?f = "\<lambda>i. decode_block (take 11 (drop (i * 11) enc))"
  have "length (take 11 (drop (k * 11) enc)) = 11" using Suc.prems by simp
  note last = decode_full_block [OF this]
  show ?case
  proof (cases "those (map ?f [0..<k])")
    case None
    then show ?thesis using Suc by (simp add: decode_blocks_append those_snoc)
  next
    case (Some bs)
    have "length (concat bs) = k * 8" using decoded_full_blocks(2) [OF _ Some] Suc.prems by simp
    then show ?thesis using Suc Some last
      by (auto simp: decode_blocks_append those_snoc write_at_def split: option.split)
  qed
qed simp

lemma base58_decode_eq: "base58_decode enc = map_option concat (those (map decode_block (chunks 11 enc)))"
proof (cases "enc = []")
  case True
  then show ?thesis by (simp add: base58_decode_def chunks_def)
next
  case nonempty: False
  let ?k = "length enc div 11" and ?m = "length enc mod 11"
  let ?f = "\<lambda>i. decode_block (take 11 (drop (i * 11) enc))" and ?l = "drop (?k * 11) enc"
  let ?n = "nat (decoded_block_sizes ?m)"
  have l: "length ?l = ?m" by (simp add: modulo_nat_def)
  have m: "?m \<le> 11" by (rule less_imp_le) simp
  have zero: "decoded_block_sizes 0 = 0" by (simp add: decoded_block_sizes_def decoded_table)
  have blocks: "decode_blocks enc [0..<?k] (replicate (?k * 8 + ?n) 0) =
      map_option (\<lambda>bs. concat bs @ replicate ?n 0) (those (map ?f [0..<?k]))"
    using decode_blocks_eq [of ?k enc "?k * 8 + ?n"] by (simp add: mult.commute)
  have len: "length (concat bs) = ?k * 8" if "those (map ?f [0..<?k]) = Some bs" for bs
    using that by (intro decoded_full_blocks(2)) simp_all
  have last: "length b = ?n" if "decode_block ?l = Some b" for b
    using enc_decode_block(4) [OF _ that] l m by simp
  show ?thesis
  proof (cases "?m = 0")
    case True
    then show ?thesis using nonempty blocks
      by (auto simp: base58_decode_def Let_def chunks_def zero comp_def split: option.split)
  next
    case False
    have "decode_block ?l = None" if "decoded_block_sizes ?m < 0"
      using that l by (simp add: decode_block_def)
    then show ?thesis using nonempty blocks len last False
      by (auto simp: base58_decode_def Let_def chunks_def comp_def those_snoc write_at_def split: option.split)
  qed
qed

section \<open>The round trips\<close>

lemma enc_block_Nil: "length b \<le> 8 \<Longrightarrow> enc_block b = [] \<longleftrightarrow> b = []"
  using block_size_facts(5) [of "length b"] length_enc_block [of b] by (cases "b = []") (auto simp: encoded_empty)

lemma enc_decode_blocks:
  assumes "map decode_block ss = map Some bs" and "\<forall>s\<in>set ss. length s \<le> 11"
  shows "map enc_block bs = ss"
  using assms
proof (induction ss arbitrary: bs)
  case (Cons s ss)
  then show ?case by (cases bs) (auto simp: enc_decode_block(1))
qed simp

lemma decode_full_blocks:
  assumes "map decode_block ss = map Some bs" and "\<forall>s\<in>set ss. length s = 11"
  shows "\<forall>b\<in>set bs. length b = 8"
  using assms
proof (induction ss arbitrary: bs)
  case (Cons s ss)
  then show ?case by (cases bs) (auto simp: decode_full_block)
qed simp

lemma base58_decode_encode:
  assumes "base58_encode data = Some s"
  shows "base58_decode s = Some data"
proof (rule chunks_split [of 8 data])
  fix ys l assume c: "chunks 8 data = ys @ (if l = [] then [] else [l])" "data = concat ys @ l"
    "\<forall>y\<in>set ys. length y = 8" "length l < 8"
  have s: "s = concat (map enc_block ys) @ enc_block l"
    using assms base58_encode_eq [of data] c(1) by (auto simp: enc_block_def encoded_empty)
  have full: "\<forall>y\<in>set (map enc_block ys). length y = 11"
    using c(3) by (simp add: length_enc_block encoded_block_sizes_def)
  have short: "length (enc_block l) < 11" "enc_block l = [] \<longleftrightarrow> l = []"
    using block_size_facts(4) [of "length l"] c(4) by (simp_all add: length_enc_block enc_block_Nil)
  have dec: "decode_block (enc_block y) = Some y" if "y \<in> set ys" for y
    using c(3) that by (intro decode_enc_block) auto
  have "map decode_block (chunks 11 s) = map Some (chunks 8 data)"
    unfolding s chunks_concat [OF full short(1)] c(1) using dec c(4) short(2) by (auto simp: decode_enc_block)
  then show ?thesis
    unfolding base58_decode_eq by (simp add: those_eq_Some [THEN iffD2] concat_chunks)
qed simp

lemma base58_encode_decode:
  assumes "base58_decode s = Some data"
  shows "base58_encode data = Some s"
proof (rule chunks_split [of 11 s])
  fix ys l assume c: "chunks 11 s = ys @ (if l = [] then [] else [l])" "s = concat ys @ l"
    "\<forall>y\<in>set ys. length y = 11" "length l < 11"
  obtain bs where bs: "map decode_block (chunks 11 s) = map Some bs" "data = concat bs"
    using assms unfolding base58_decode_eq by (auto simp: those_eq_Some)
  have inv: "map enc_block bs = chunks 11 s" using bs(1) c by (intro enc_decode_blocks) auto
  obtain fs r where fr: "bs = fs @ r" "map decode_block ys = map Some fs"
    "map decode_block (if l = [] then [] else [l]) = map Some r"
    using bs(1) [symmetric] unfolding c(1) map_append map_eq_append_conv by (metis (no_types))
  have full: "\<forall>b\<in>set fs. length b = 8" using fr(2) c(3) by (rule decode_full_blocks)
  have "r = (if concat r = [] then [] else [concat r]) \<and> length (concat r) < 8"
  proof (cases "l = []")
    case False
    then obtain b where b: "decode_block l = Some b" "r = [b]" using fr(3) by auto
    have "length l \<le> 11" using c(4) by simp
    note e = enc_decode_block [OF this b(1)]
    have "nat (decoded_block_sizes (length l)) < 8" using e(4) c(4) by (intro decoded_size_facts(3)) simp_all
    then show ?thesis using b e by simp
  qed (use fr(3) in simp)
  then have r: "r = (if concat r = [] then [] else [concat r])" "length (concat r) < 8" by simp_all
  have "chunks 8 (concat fs @ concat r) = bs" unfolding chunks_concat [OF full r(2)] fr(1) r(1) [symmetric] ..
  then show ?thesis
    using inv c(2) fr(1) concat_chunks [of 11 s] unfolding base58_encode_eq bs(2) by simp
qed simp

lemma base58_encode_total: "base58_encode data = Some (base58_text data)"
  by (simp add: base58_text_def base58_encode_eq)

lemma length_concat_sum: "length (concat (map enc_block bs)) = sum_list (map (\<lambda>b. encoded_block_sizes ! length b) bs)"
  by (simp add: length_concat comp_def length_enc_block)

interpretation b58: canonical_codec base58_text base58_decode
proof unfold_locales
  show "base58_decode (base58_text data) = Some data" for data
    by (rule base58_decode_encode) (rule base58_encode_total)
  show "base58_text data = s" if "base58_decode s = Some data" for s data
    using base58_encode_decode [OF that] by (simp add: base58_text_def)
qed

lemma length_base58_text:
  "length (base58_text data) = 11 * (length data div 8) + encoded_block_sizes ! (length data mod 8)"
proof -
  let ?k = "length data div 8"
  let ?bs = "map (\<lambda>i. enc_block (take 8 (drop (i * 8) data))) [0..<?k]"
  have "length (enc_block (take 8 (drop (i * 8) data))) = 11" if "i < ?k" for i
  proof -
    have "(i + 1) * 8 \<le> ?k * 8" using that by (intro mult_le_mono1) simp
    also have "\<dots> \<le> length data" by simp
    finally show ?thesis by (simp add: length_enc_block encoded_block_sizes_def)
  qed
  then have "length (concat ?bs) = 11 * ?k" by (subst length_concat_same [of _ 11]) auto
  moreover have "length (drop (?k * 8) data) = length data mod 8" by (simp add: modulo_nat_def)
  ultimately show ?thesis
    by (simp add: base58_text_def base58_encode_eq chunks_def comp_def length_enc_block encoded_empty)
qed


lemma base58_text_letters: "set (base58_text data) \<subseteq> set alphabet"
proof -
  have "set (enc_digits n v) \<subseteq> set alphabet" for n v
    by (induction n v rule: enc_digits.induct) simp_all
  then have "set (enc_block b) \<subseteq> set alphabet" for b unfolding enc_block_def .
  then show ?thesis by (simp add: base58_text_def base58_encode_eq UN_subset_iff)
qed

section \<open>Properties\<close>

text \<open>
  C28. Base58 in blocks is a bijection between byte strings and the texts the decoder accepts: the
  encoder never fails, its text has a length given by the length of the data and only letters of the
  alphabet, and a text is decoded to data exactly if it is the text of that data. So the decoder
  accepts no second text for the same data (no overflowing block, no wrong length, no other letter).
\<close>

theorem base58_bijection:
  "(\<exists>t. base58_encode data = Some t \<and> length t = 11 * (length data div 8) + encoded_block_sizes ! (length data mod 8)
      \<and> set t \<subseteq> set alphabet)
    \<and> (base58_decode s = Some data \<longleftrightarrow> base58_encode data = Some s)"
proof (intro conjI exI iffI)
  show "base58_encode data = Some (base58_text data)" by (rule base58_encode_total)
  show "length (base58_text data) = 11 * (length data div 8) + encoded_block_sizes ! (length data mod 8)"
    by (rule length_base58_text)
qed (rule base58_text_letters base58_encode_decode base58_decode_encode, assumption?)+

end
