(* ===== verification/Address.thy ===== *)
theory Address
  imports Base58 Varint Keccak Hex
begin

text \<open>
  Addresses as text: \<open>encode_addr\<close> and \<open>decode_addr\<close> of \<open>src/common/base58.cpp\<close> (a varint tag, the data
  and four bytes of its hash, in Base58), the address functions of
  \<open>src/cryptonote_basic/cryptonote_basic_impl.cpp\<close> and the networks of \<open>src/cryptonote_config.h\<close>.

  The lemmas show that parsing the text of an address gives the address back on its own network and
  is refused on every other, that every accepted text is the text of what it parses to, and which
  letters the addresses of a network begin with. Whether a key is a point of the curve
  (\<open>crypto::check_key\<close>) is a parameter.
\<close>

section \<open>Definitions\<close>

definition addr_checksum_size :: nat where "addr_checksum_size = 4"

definition encode_addr :: "u64 \<Rightarrow> bytes \<Rightarrow> string option" where
  "encode_addr tag data =
    (let buf = get_varint_data tag;
         buf = buf @ data;
         hash = cn_fast_hash buf;
         buf = buf @ take addr_checksum_size hash
     in base58_encode buf)"

definition decode_addr :: "string \<Rightarrow> (u64 \<times> bytes) option" where
  "decode_addr addr =
    (case base58_decode addr of
       None \<Rightarrow> None
     | Some addr_data \<Rightarrow>
         if length addr_data \<le> addr_checksum_size then None
         else
           let checksum = drop (length addr_data - addr_checksum_size) addr_data;
               addr_data = take (length addr_data - addr_checksum_size) addr_data;
               hash = cn_fast_hash addr_data;
               expected_checksum = take addr_checksum_size hash
           in if expected_checksum \<noteq> checksum then None
              else
                let (nread, tag, _) = read_varint addr_data
                in if nread \<le> 0 then None else Some (tag, drop (nat nread) addr_data))"

datatype network_type = MAINNET | TESTNET | STAGENET | FAKECHAIN | UNDEFINED

record config_t =
  CRYPTONOTE_PUBLIC_ADDRESS_BASE58_PREFIX :: u64
  CRYPTONOTE_PUBLIC_INTEGRATED_ADDRESS_BASE58_PREFIX :: u64
  CRYPTONOTE_PUBLIC_SUBADDRESS_BASE58_PREFIX :: u64
  P2P_DEFAULT_PORT :: u16
  RPC_DEFAULT_PORT :: u16
  ZMQ_RPC_DEFAULT_PORT :: u16
  NETWORK_ID :: bytes
  GENESIS_TX :: string
  GENESIS_NONCE :: u32

definition mainnet :: config_t where
  "mainnet =
    \<lparr>CRYPTONOTE_PUBLIC_ADDRESS_BASE58_PREFIX = 110, CRYPTONOTE_PUBLIC_INTEGRATED_ADDRESS_BASE58_PREFIX = 111,
     CRYPTONOTE_PUBLIC_SUBADDRESS_BASE58_PREFIX = 112, P2P_DEFAULT_PORT = 28080, RPC_DEFAULT_PORT = 28081,
     ZMQ_RPC_DEFAULT_PORT = 28082,
     NETWORK_ID = [0x4C, 0x4F, 0x44, 0x45, 0x4D, 0x41, 0x49, 0x4E, 0x4E, 0x45, 0x54, 0x31, 0x32, 0x33, 0x34, 0x35],
     GENESIS_TX = ''013c01ff000021017767aafcde9be00dcfd098715ebcf7f410daebc582fda69d24a28e9d0bc890d1'',
     GENESIS_NONCE = 1337\<rparr>"

definition testnet :: config_t where
  "testnet =
    \<lparr>CRYPTONOTE_PUBLIC_ADDRESS_BASE58_PREFIX = 120, CRYPTONOTE_PUBLIC_INTEGRATED_ADDRESS_BASE58_PREFIX = 121,
     CRYPTONOTE_PUBLIC_SUBADDRESS_BASE58_PREFIX = 122, P2P_DEFAULT_PORT = 38080, RPC_DEFAULT_PORT = 38081,
     ZMQ_RPC_DEFAULT_PORT = 38082,
     NETWORK_ID = [0x4C, 0x4F, 0x44, 0x45, 0x54, 0x45, 0x53, 0x54, 0x4E, 0x45, 0x54, 0x31, 0x32, 0x33, 0x34, 0x35],
     GENESIS_TX = ''013c01ff000021017767aafcde9be00dcfd098715ebcf7f410daebc582fda69d24a28e9d0bc890d1'',
     GENESIS_NONCE = 1338\<rparr>"

definition stagenet :: config_t where
  "stagenet =
    \<lparr>CRYPTONOTE_PUBLIC_ADDRESS_BASE58_PREFIX = 130, CRYPTONOTE_PUBLIC_INTEGRATED_ADDRESS_BASE58_PREFIX = 131,
     CRYPTONOTE_PUBLIC_SUBADDRESS_BASE58_PREFIX = 132, P2P_DEFAULT_PORT = 48080, RPC_DEFAULT_PORT = 48081,
     ZMQ_RPC_DEFAULT_PORT = 48082,
     NETWORK_ID = [0x4C, 0x4F, 0x44, 0x45, 0x53, 0x54, 0x41, 0x47, 0x45, 0x4E, 0x45, 0x54, 0x31, 0x32, 0x33, 0x34],
     GENESIS_TX = ''013c01ff000021017767aafcde9be00dcfd098715ebcf7f410daebc582fda69d24a28e9d0bc890d1'',
     GENESIS_NONCE = 1339\<rparr>"

text \<open>\<open>None\<close> is the exception for an invalid network type.\<close>

fun get_config :: "network_type \<Rightarrow> config_t option" where
  "get_config MAINNET = Some mainnet"
| "get_config TESTNET = Some testnet"
| "get_config STAGENET = Some stagenet"
| "get_config FAKECHAIN = Some mainnet"
| "get_config UNDEFINED = None"

text \<open>Keys are 32 bytes and a short payment id is 8 bytes; they are serialised as they are.\<close>

record account_public_address =
  m_spend_public_key :: bytes
  m_view_public_key :: bytes

definition address_blob :: "account_public_address \<Rightarrow> bytes" where
  "address_blob adr = m_spend_public_key adr @ m_view_public_key adr"

definition parse_address_blob :: "bytes \<Rightarrow> account_public_address option" where
  "parse_address_blob data =
    (if length data = 64 then Some \<lparr>m_spend_public_key = take 32 data, m_view_public_key = drop 32 data\<rparr> else None)"

definition integrated_address_blob :: "account_public_address \<Rightarrow> bytes \<Rightarrow> bytes" where
  "integrated_address_blob adr payment_id = address_blob adr @ payment_id"

definition parse_integrated_address_blob :: "bytes \<Rightarrow> (account_public_address \<times> bytes) option" where
  "parse_integrated_address_blob data =
    (if length data = 72
     then map_option (\<lambda>adr. (adr, drop 64 data)) (parse_address_blob (take 64 data)) else None)"

definition get_account_address_as_str :: "network_type \<Rightarrow> bool \<Rightarrow> account_public_address \<Rightarrow> string option" where
  "get_account_address_as_str nettype subaddress adr =
    (case get_config nettype of
       None \<Rightarrow> None
     | Some c \<Rightarrow>
         let address_prefix = (if subaddress then CRYPTONOTE_PUBLIC_SUBADDRESS_BASE58_PREFIX c
               else CRYPTONOTE_PUBLIC_ADDRESS_BASE58_PREFIX c)
         in encode_addr address_prefix (address_blob adr))"

definition get_account_integrated_address_as_str :: "network_type \<Rightarrow> account_public_address \<Rightarrow> bytes \<Rightarrow> string option" where
  "get_account_integrated_address_as_str nettype adr payment_id =
    (case get_config nettype of
       None \<Rightarrow> None
     | Some c \<Rightarrow>
         encode_addr (CRYPTONOTE_PUBLIC_INTEGRATED_ADDRESS_BASE58_PREFIX c) (integrated_address_blob adr payment_id))"

text \<open>The sum of all bytes of the old address blob but the last.\<close>

definition get_account_address_checksum :: "bytes \<Rightarrow> u8" where
  "get_account_address_checksum bl = sum_list (take 65 bl)"

record address_parse_info =
  address :: account_public_address
  is_subaddress :: bool
  has_payment_id :: bool
  payment_id :: bytes

text \<open>The old format: 66 bytes (version, keys, checksum) in hexadecimal.\<close>

definition parse_old_address :: "address_parse_info \<Rightarrow> string \<Rightarrow> address_parse_info option" where
  "parse_old_address info str =
    (case parse_hexstr_to_binbuff str of
       None \<Rightarrow> None
     | Some buff \<Rightarrow>
         if length buff \<noteq> 66 then None
         else if buff ! 0 > 0 then None
         else if buff ! 65 \<noteq> get_account_address_checksum buff then None
         else Some (info\<lparr>address := \<lparr>m_spend_public_key = take 32 (drop 1 buff),
                m_view_public_key = take 32 (drop 33 buff)\<rparr>, is_subaddress := False, has_payment_id := False\<rparr>))"

text \<open>What parsing an address comes to: an exception, \<open>false\<close>, or the updated \<open>info\<close>.\<close>

datatype parse_result = Bad_Network | Rejected | Parsed address_parse_info

definition get_account_address_from_str ::
  "(bytes \<Rightarrow> bool) \<Rightarrow> address_parse_info \<Rightarrow> network_type \<Rightarrow> string \<Rightarrow> parse_result" where
  "get_account_address_from_str check_key info nettype str =
    (case get_config nettype of
       None \<Rightarrow> Bad_Network
     | Some c \<Rightarrow>
         if 2 * 66 \<noteq> length str then
           (case decode_addr str of
              None \<Rightarrow> Rejected
            | Some (prefix, data) \<Rightarrow>
                let flags =
                  (if CRYPTONOTE_PUBLIC_INTEGRATED_ADDRESS_BASE58_PREFIX c = prefix then Some (False, True)
                   else if CRYPTONOTE_PUBLIC_ADDRESS_BASE58_PREFIX c = prefix then Some (False, False)
                   else if CRYPTONOTE_PUBLIC_SUBADDRESS_BASE58_PREFIX c = prefix then Some (True, False)
                   else None)
                in case flags of
                     None \<Rightarrow> Rejected
                   | Some (sub, pid) \<Rightarrow>
                       let info = info\<lparr>is_subaddress := sub, has_payment_id := pid\<rparr>;
                           parsed =
                             (if pid
                              then map_option (\<lambda>(adr, p). info\<lparr>address := adr, payment_id := p\<rparr>)
                                (parse_integrated_address_blob data)
                              else map_option (\<lambda>adr. info\<lparr>address := adr\<rparr>) (parse_address_blob data))
                       in case parsed of
                            None \<Rightarrow> Rejected
                          | Some info \<Rightarrow>
                              if \<not> check_key (m_spend_public_key (address info))
                                \<or> \<not> check_key (m_view_public_key (address info))
                              then Rejected else Parsed info)
         else
           (case parse_old_address info str of None \<Rightarrow> Rejected | Some info \<Rightarrow> Parsed info))"

section \<open>Tagged data\<close>

lemma encode_addr_text:
  "encode_addr tag data = Some (base58_text (get_varint_data tag @ data @ take 4 (cn_fast_hash (get_varint_data tag @ data))))"
  by (simp add: encode_addr_def Let_def base58_encode_total addr_checksum_size_def)

lemma decode_encode_addr:
  assumes "encode_addr tag data = Some s"
  shows "decode_addr s = Some (tag, data)"
proof -
  let ?b = "get_varint_data tag @ data" and ?h = "take 4 (cn_fast_hash (get_varint_data tag @ data))"
  have h: "length ?h = 4" by (simp add: length_cn_fast_hash)
  have s: "base58_decode s = Some (?b @ ?h)"
    using assms by (auto simp: encode_addr_text b58.dec_enc)
  have v: "read_varint ?b = (int (length (get_varint_data tag)), tag, data)"
    unfolding get_varint_data_def by (rule read_write_varint) simp
  have ne: "0 < length (get_varint_data tag)" by (simp add: get_varint_data_def)
  show ?thesis using h v ne by (simp add: decode_addr_def s addr_checksum_size_def Let_def)
qed

lemma encode_decode_addr:
  assumes "decode_addr s = Some (tag, data)" and "data \<noteq> []"
  shows "encode_addr tag data = Some s"
proof -
  obtain d where d: "base58_decode s = Some d" using assms(1) by (auto simp: decode_addr_def split: option.splits)
  let ?b = "take (length d - 4) d" and ?c = "drop (length d - 4) d"
  obtain n rest and v :: u64 where v: "read_varint ?b = (n, v, rest)" by (metis prod_cases3)
  have facts: "\<not> length d \<le> 4" "take 4 (cn_fast_hash ?b) = ?c" "\<not> n \<le> 0" "v = tag" "data = drop (nat n) ?b"
    using assms(1) d v by (auto simp: decode_addr_def addr_checksum_size_def Let_def split: if_splits)
  have "?b = write_varint tag @ rest \<and> n = int (length (write_varint tag))
      \<or> rest = [] \<and> n = int (length ?b) \<and> (\<forall>b\<in>set ?b. 128 \<le> unat b)"
    using read_varint_cases [OF _ v] facts(3,4) by simp
  then have b: "?b = get_varint_data tag @ data"
    using assms(2) facts(5) by (auto simp: get_varint_data_def)
  then have "get_varint_data tag @ data @ take 4 (cn_fast_hash (get_varint_data tag @ data)) = d"
    using facts(2) append_take_drop_id [of "length d - 4" d] by (metis append.assoc)
  then show ?thesis using b58.enc_dec [OF d] by (simp add: encode_addr_text)
qed

section \<open>The first letter of a text\<close>

lemma enc_digits_not_Nil: "enc_digits (Suc n) v \<noteq> []"
  by simp

lemma hd_enc_digits: "hd (enc_digits (Suc n) v) = alphabet ! (v div 58 ^ n mod 58)"
proof (induction n arbitrary: v)
  case (Suc n)
  have "hd (enc_digits (Suc (Suc n)) v) = hd (enc_digits (Suc n) (v div 58))"
    using enc_digits_not_Nil [of n "v div 58"] by (subst enc_digits.simps(2)) (simp only: hd_append if_False)
  then show ?case by (simp only: Suc.IH) (simp add: div_mult2_eq)
qed simp

lemma hd_base58_text:
  assumes "8 \<le> length data"
  shows "hd (base58_text data) = alphabet ! (be_nat (take 8 data) div 58 ^ 10 mod 58)"
proof -
  obtain k where k: "length data div 8 = Suc k" using assms by (cases "length data div 8") auto
  have "base58_text data = enc_block (take 8 data) @ concat (map enc_block (tl (chunks 8 data)))"
    unfolding base58_text_def base58_encode_eq chunks_def k by (simp add: upt_rec [of 0] del: upt_Suc)
  moreover have "enc_block (take 8 data) = enc_digits (Suc 10) (be_nat (take 8 data))"
    using assms by (simp add: enc_block_def encoded_block_sizes_def)
  ultimately show ?thesis
    by (simp only: hd_append enc_digits_not_Nil if_False hd_enc_digits)
qed

text \<open>A leading byte that determines the first letter, whatever follows.\<close>

lemma be_nat_leading:
  assumes "8 \<le> length (b # data)"
  shows "unat b * 256 ^ 7 \<le> be_nat (take 8 (b # data))" and "be_nat (take 8 (b # data)) < (unat b + 1) * 256 ^ 7"
proof -
  have t: "take 8 (b # data) = b # take 7 data" by simp
  have l: "length (take 7 data) = 7" using assms by simp
  show "unat b * 256 ^ 7 \<le> be_nat (take 8 (b # data))" unfolding t be_nat.simps l by simp
  show "be_nat (take 8 (b # data)) < (unat b + 1) * 256 ^ 7"
    unfolding t be_nat.simps l using be_nat_less [of "take 7 data"] unfolding l by simp
qed

lemma one_byte_prefix: "unat (tag :: u64) < 128 \<Longrightarrow> get_varint_data tag = [ucast tag]"
  by (simp add: get_varint_data_def write_varint_last)

lemma testnet_first_letter:
  assumes "unat b \<in> {120, 121, 122}" and "8 \<le> length (b # data)"
  shows "hd (base58_text (b # data)) = CHR ''M''"
proof -
  have "be_nat (take 8 (b # data)) div 58 ^ 10 = 20"
    using be_nat_leading [OF assms(2)] assms(1) by (intro div_nat_eqI) auto
  then show ?thesis unfolding hd_base58_text [OF assms(2)] by (simp add: alphabet_def)
qed

section \<open>Address text\<close>

definition wf_address :: "account_public_address \<Rightarrow> bool" where
  "wf_address adr \<longleftrightarrow> length (m_spend_public_key adr) = 32 \<and> length (m_view_public_key adr) = 32"

lemma parse_address_blob_inv:
  "wf_address adr \<Longrightarrow> parse_address_blob (address_blob adr) = Some adr"
  "parse_address_blob data = Some adr \<Longrightarrow> address_blob adr = data \<and> wf_address adr \<and> length data = 64"
  by (auto simp: parse_address_blob_def address_blob_def wf_address_def split: if_splits)

lemma length_address_blob: "wf_address adr \<Longrightarrow> length (address_blob adr) = 64"
  by (simp add: wf_address_def address_blob_def)

lemma parse_integrated_address_blob_inv:
  "wf_address adr \<Longrightarrow> length p = 8 \<Longrightarrow> parse_integrated_address_blob (integrated_address_blob adr p) = Some (adr, p)"
  by (simp add: parse_integrated_address_blob_def integrated_address_blob_def length_address_blob parse_address_blob_inv(1))

lemma integrated_address_blob_parse:
  assumes "parse_integrated_address_blob data = Some (adr, p)"
  shows "integrated_address_blob adr p = data" and "wf_address adr" and "length p = 8"
proof -
  have d: "length data = 72" "parse_address_blob (take 64 data) = Some adr" "p = drop 64 data"
    using assms by (auto simp: parse_integrated_address_blob_def split: if_splits)
  note a = parse_address_blob_inv(2) [OF d(2)]
  show "integrated_address_blob adr p = data" using a d(3) by (simp add: integrated_address_blob_def)
  show "wf_address adr" "length p = 8" using a d by simp_all
qed

lemma varint_length_prefix: "unat (tag :: u64) < 16384 \<Longrightarrow> length (get_varint_data tag) \<le> 2"
  using length_write_varint [of tag 1] by (simp add: get_varint_data_def)

lemma addr_text_not_old:
  assumes "encode_addr tag data = Some s" and "unat tag < 16384" and "length data \<in> {64, 72}"
  shows "length s \<noteq> 132"
proof -
  let ?n = "length (get_varint_data tag) + length data + 4"
  have s: "length s = 11 * (?n div 8) + encoded_block_sizes ! (?n mod 8)"
    using assms(1) length_base58_text [of "get_varint_data tag @ data @ take 4 (cn_fast_hash (get_varint_data tag @ data))"]
    by (auto simp: encode_addr_text length_cn_fast_hash ac_simps)
  have "?n div 8 \<le> 9" using assms(3) varint_length_prefix [OF assms(2)] by auto
  moreover have "encoded_block_sizes ! (?n mod 8) \<le> 11" by (rule block_size_facts(2)) simp
  ultimately show ?thesis unfolding s by linarith
qed

lemma config_prefixes:
  assumes "get_config net = Some c"
  shows "unat (CRYPTONOTE_PUBLIC_ADDRESS_BASE58_PREFIX c) < 16384"
    and "unat (CRYPTONOTE_PUBLIC_INTEGRATED_ADDRESS_BASE58_PREFIX c) < 16384"
    and "unat (CRYPTONOTE_PUBLIC_SUBADDRESS_BASE58_PREFIX c) < 16384"
    and "distinct [CRYPTONOTE_PUBLIC_ADDRESS_BASE58_PREFIX c, CRYPTONOTE_PUBLIC_INTEGRATED_ADDRESS_BASE58_PREFIX c,
      CRYPTONOTE_PUBLIC_SUBADDRESS_BASE58_PREFIX c]"
  using assms by (cases net; force simp: mainnet_def testnet_def stagenet_def)+

lemma address_roundtrip_lemma:
  assumes "get_config net = Some c" and "wf_address adr"
    and "check_key (m_spend_public_key adr)" and "check_key (m_view_public_key adr)"
  shows "\<exists>s. get_account_address_as_str net sub adr = Some s
    \<and> get_account_address_from_str check_key info net s
      = Parsed (info\<lparr>address := adr, is_subaddress := sub, has_payment_id := False\<rparr>)"
proof -
  note p = config_prefixes [OF assms(1)]
  let ?p = "if sub then CRYPTONOTE_PUBLIC_SUBADDRESS_BASE58_PREFIX c else CRYPTONOTE_PUBLIC_ADDRESS_BASE58_PREFIX c"
  obtain s where s: "encode_addr ?p (address_blob adr) = Some s" by (simp add: encode_addr_text)
  have "length s \<noteq> 132" using addr_text_not_old [OF s] p assms(2) by (simp add: length_address_blob)
  moreover note decode_encode_addr [OF s] parse_address_blob_inv(1) [OF assms(2)]
  ultimately have "get_account_address_from_str check_key info net s
      = Parsed (info\<lparr>address := adr, is_subaddress := sub, has_payment_id := False\<rparr>)"
    using assms(1,3,4) p(4) by (auto simp: get_account_address_from_str_def Let_def)
  then show ?thesis using s assms(1) by (auto simp: get_account_address_as_str_def)
qed

lemma integrated_roundtrip_lemma:
  assumes "get_config net = Some c" and "wf_address adr" and "length pid = 8"
    and "check_key (m_spend_public_key adr)" and "check_key (m_view_public_key adr)"
  shows "\<exists>s. get_account_integrated_address_as_str net adr pid = Some s
    \<and> get_account_address_from_str check_key info net s
      = Parsed (info\<lparr>address := adr, is_subaddress := False, has_payment_id := True, payment_id := pid\<rparr>)"
proof -
  note p = config_prefixes [OF assms(1)]
  obtain s where s: "encode_addr (CRYPTONOTE_PUBLIC_INTEGRATED_ADDRESS_BASE58_PREFIX c) (integrated_address_blob adr pid) = Some s"
    by (simp add: encode_addr_text)
  have "length s \<noteq> 132"
    using addr_text_not_old [OF s p(2)] assms(2,3) by (simp add: integrated_address_blob_def length_address_blob)
  moreover note decode_encode_addr [OF s] parse_integrated_address_blob_inv [OF assms(2,3)]
  ultimately have "get_account_address_from_str check_key info net s
      = Parsed (info\<lparr>address := adr, is_subaddress := False, has_payment_id := True, payment_id := pid\<rparr>)"
    using assms(1,4,5) by (simp add: get_account_address_from_str_def Let_def)
  then show ?thesis using s assms(1) by (auto simp: get_account_integrated_address_as_str_def)
qed

lemma parsed_prefix:
  assumes "get_account_address_from_str check_key info net s = Parsed info'" and "length s \<noteq> 132"
  obtains c tag data where "get_config net = Some c" and "decode_addr s = Some (tag, data)"
    and "tag = CRYPTONOTE_PUBLIC_INTEGRATED_ADDRESS_BASE58_PREFIX c \<and> \<not> is_subaddress info' \<and> has_payment_id info'
        \<and> parse_integrated_address_blob data = Some (address info', payment_id info')
      \<or> tag = (if is_subaddress info' then CRYPTONOTE_PUBLIC_SUBADDRESS_BASE58_PREFIX c else CRYPTONOTE_PUBLIC_ADDRESS_BASE58_PREFIX c)
        \<and> \<not> has_payment_id info' \<and> parse_address_blob data = Some (address info')"
    and "check_key (m_spend_public_key (address info'))" and "check_key (m_view_public_key (address info'))"
  using assms
  by (auto simp: get_account_address_from_str_def Let_def split: option.splits prod.splits if_splits)

lemma config_cases: "get_config net = Some c \<Longrightarrow> c = mainnet \<or> c = testnet \<or> c = stagenet"
  by (cases net) auto

lemma prefix_values:
  "CRYPTONOTE_PUBLIC_ADDRESS_BASE58_PREFIX mainnet = 110" "CRYPTONOTE_PUBLIC_INTEGRATED_ADDRESS_BASE58_PREFIX mainnet = 111"
  "CRYPTONOTE_PUBLIC_SUBADDRESS_BASE58_PREFIX mainnet = 112" "CRYPTONOTE_PUBLIC_ADDRESS_BASE58_PREFIX testnet = 120"
  "CRYPTONOTE_PUBLIC_INTEGRATED_ADDRESS_BASE58_PREFIX testnet = 121" "CRYPTONOTE_PUBLIC_SUBADDRESS_BASE58_PREFIX testnet = 122"
  "CRYPTONOTE_PUBLIC_ADDRESS_BASE58_PREFIX stagenet = 130" "CRYPTONOTE_PUBLIC_INTEGRATED_ADDRESS_BASE58_PREFIX stagenet = 131"
  "CRYPTONOTE_PUBLIC_SUBADDRESS_BASE58_PREFIX stagenet = 132"
  by (simp_all add: mainnet_def testnet_def stagenet_def)

definition prefixes :: "config_t \<Rightarrow> u64 set" where
  "prefixes c = {CRYPTONOTE_PUBLIC_ADDRESS_BASE58_PREFIX c, CRYPTONOTE_PUBLIC_INTEGRATED_ADDRESS_BASE58_PREFIX c,
    CRYPTONOTE_PUBLIC_SUBADDRESS_BASE58_PREFIX c}"

lemma prefixes_disjoint:
  assumes "get_config net = Some c" and "get_config net' = Some c'" and "c \<noteq> c'"
  shows "prefixes c \<inter> prefixes c' = {}"
  using config_cases [OF assms(1)] config_cases [OF assms(2)] assms(3)
  by (auto simp: prefixes_def prefix_values)

lemma other_network_rejects:
  assumes "get_config net' = Some c" and "encode_addr tag data = Some s" and "length s \<noteq> 132"
    and "tag \<notin> prefixes c"
  shows "get_account_address_from_str check_key info net' s = Rejected"
  using assms decode_encode_addr [OF assms(2)]
  by (auto simp: get_account_address_from_str_def Let_def prefixes_def)

lemma as_str_tag:
  assumes "get_account_address_as_str net sub adr = Some s" and "wf_address adr"
  obtains c tag where "get_config net = Some c" and "tag \<in> prefixes c" and "unat tag < 16384"
    and "encode_addr tag (address_blob adr) = Some s" and "length s \<noteq> 132"
proof -
  obtain c where c: "get_config net = Some c"
    using assms(1) by (auto simp: get_account_address_as_str_def split: option.splits)
  let ?p = "if sub then CRYPTONOTE_PUBLIC_SUBADDRESS_BASE58_PREFIX c else CRYPTONOTE_PUBLIC_ADDRESS_BASE58_PREFIX c"
  have s: "encode_addr ?p (address_blob adr) = Some s" using assms(1) c by (simp add: get_account_address_as_str_def)
  have p: "unat ?p < 16384" using config_prefixes [OF c] by simp
  show thesis
    using addr_text_not_old [OF s p] assms(2) p
    by (intro that [OF c _ _ s]) (simp_all add: prefixes_def length_address_blob)
qed

definition sample_address :: account_public_address where
  "sample_address = \<lparr>m_spend_public_key = replicate 32 1, m_view_public_key = replicate 32 2\<rparr>"

definition sample_info :: address_parse_info where
  "sample_info = \<lparr>address = sample_address, is_subaddress = True, has_payment_id = True, payment_id = replicate 8 0\<rparr>"

lemma wf_sample_address: "wf_address sample_address"
  by (simp add: wf_address_def sample_address_def)

section \<open>Properties\<close>

text \<open>
  C12. The text of an address parses back to it: for every network, the text of a standard address, a
  subaddress or an integrated address whose keys are valid is accepted on that network and yields the
  same keys, the right kind and, for an integrated address, the same payment id.
\<close>

theorem address_roundtrip:
  assumes "net \<noteq> UNDEFINED" and "wf_address adr" and "length pid = 8"
    and "check_key (m_spend_public_key adr)" and "check_key (m_view_public_key adr)"
  shows "(\<exists>s. get_account_address_as_str net sub adr = Some s
      \<and> get_account_address_from_str check_key info net s
        = Parsed (info\<lparr>address := adr, is_subaddress := sub, has_payment_id := False\<rparr>))
    \<and> (\<exists>s. get_account_integrated_address_as_str net adr pid = Some s
      \<and> get_account_address_from_str check_key info net s
        = Parsed (info\<lparr>address := adr, is_subaddress := False, has_payment_id := True, payment_id := pid\<rparr>))"
proof -
  obtain c where "get_config net = Some c" using assms(1) by (cases net) auto
  with assms show ?thesis by (intro conjI address_roundtrip_lemma integrated_roundtrip_lemma)
qed

theorem address_roundtrip_witness:
  "\<exists>s. get_account_address_as_str TESTNET True \<lparr>m_spend_public_key = replicate 32 1, m_view_public_key = replicate 32 2\<rparr> = Some s"
  using address_roundtrip [of TESTNET "\<lparr>m_spend_public_key = replicate 32 1, m_view_public_key = replicate 32 2\<rparr>"
      "replicate 8 3" "\<lambda>k. length k = 32" True] by (auto simp: wf_address_def)

text \<open>
  C27. Address text is unique: a text in the Base58 format that a network accepts is exactly the text
  which that network prints for the parsed address (with its payment id, if it has one). No two
  texts denote the same address and kind.
\<close>

theorem address_text_unique:
  assumes "get_account_address_from_str check_key info net s = Parsed info'" and "length s \<noteq> 132"
  shows "(if has_payment_id info' then get_account_integrated_address_as_str net (address info') (payment_id info')
      else get_account_address_as_str net (is_subaddress info') (address info')) = Some s"
proof (rule parsed_prefix [OF assms])
  fix c tag data
  assume c: "get_config net = Some c" and d: "decode_addr s = Some (tag, data)"
    and kind: "tag = CRYPTONOTE_PUBLIC_INTEGRATED_ADDRESS_BASE58_PREFIX c \<and> \<not> is_subaddress info' \<and> has_payment_id info'
        \<and> parse_integrated_address_blob data = Some (address info', payment_id info')
      \<or> tag = (if is_subaddress info' then CRYPTONOTE_PUBLIC_SUBADDRESS_BASE58_PREFIX c else CRYPTONOTE_PUBLIC_ADDRESS_BASE58_PREFIX c)
        \<and> \<not> has_payment_id info' \<and> parse_address_blob data = Some (address info')"
  then have "data \<noteq> []" by (auto simp: parse_integrated_address_blob_def parse_address_blob_def)
  note e = encode_decode_addr [OF d this]
  from kind show ?thesis
  proof (elim disjE conjE)
    assume k: "tag = CRYPTONOTE_PUBLIC_INTEGRATED_ADDRESS_BASE58_PREFIX c" "has_payment_id info'"
      "parse_integrated_address_blob data = Some (address info', payment_id info')"
    then show ?thesis
      using e c integrated_address_blob_parse(1) [OF k(3)] by (simp add: get_account_integrated_address_as_str_def)
  next
    assume k: "tag = (if is_subaddress info' then CRYPTONOTE_PUBLIC_SUBADDRESS_BASE58_PREFIX c else CRYPTONOTE_PUBLIC_ADDRESS_BASE58_PREFIX c)"
      "\<not> has_payment_id info'" "parse_address_blob data = Some (address info')"
    then show ?thesis
      using e c parse_address_blob_inv(2) [OF k(3)] by (simp add: get_account_address_as_str_def)
  qed
qed

theorem address_text_unique_witness:
  "\<exists>s. get_account_address_from_str (\<lambda>k. length k = 32) sample_info MAINNET s
      = Parsed (sample_info\<lparr>address := sample_address, is_subaddress := False, has_payment_id := False\<rparr>)
    \<and> get_account_address_as_str MAINNET False sample_address = Some s"
proof -
  obtain s where s: "get_account_address_as_str MAINNET False sample_address = Some s"
    and p: "get_account_address_from_str (\<lambda>k. length k = 32) sample_info MAINNET s
      = Parsed (sample_info\<lparr>address := sample_address, is_subaddress := False, has_payment_id := False\<rparr>)"
    using address_roundtrip_lemma [of MAINNET mainnet sample_address "\<lambda>k. length k = 32" False sample_info]
      wf_sample_address by (auto simp: wf_address_def)
  have "length s \<noteq> 132" by (rule as_str_tag [OF s wf_sample_address])
  then show ?thesis using p address_text_unique [OF p] by auto
qed

text \<open>
  Networks do not accept each other's addresses: the text of an address of one network is refused
  by every network with different prefixes.
\<close>

lemma address_other_network:
  assumes "get_account_address_as_str net sub adr = Some s" and "wf_address adr"
    and "get_config net' = Some c'" and "get_config net \<noteq> get_config net'"
  shows "get_account_address_from_str check_key info net' s = Rejected"
proof (rule as_str_tag [OF assms(1,2)])
  fix c tag
  assume "get_config net = Some c" "tag \<in> prefixes c" and s: "encode_addr tag (address_blob adr) = Some s" "length s \<noteq> 132"
  then have "tag \<notin> prefixes c'" using prefixes_disjoint [of net c net' c'] assms(3,4) by auto
  then show ?thesis using assms(3) s by (intro other_network_rejects) simp_all
qed

lemma address_other_network_witness:
  "\<exists>s. get_account_address_as_str MAINNET True sample_address = Some s
    \<and> get_account_address_from_str (\<lambda>k. True) sample_info TESTNET s = Rejected"
proof -
  obtain s where s: "get_account_address_as_str MAINNET True sample_address = Some s"
    by (simp add: get_account_address_as_str_def encode_addr_text Let_def)
  have "get_config MAINNET \<noteq> get_config TESTNET" by (simp add: mainnet_def testnet_def)
  with address_other_network [OF s wf_sample_address, of TESTNET testnet "\<lambda>k. True" sample_info] s
  show ?thesis by simp
qed

end
