(* ===== verification/Checkpoints.thy ===== *)
theory Checkpoints
  imports Address Money
begin

text \<open>
  Checkpoints: \<open>src/checkpoints/checkpoints.cpp\<close>, and how the chain applies them, in
  \<open>Blockchain::check_against_checkpoints\<close>, \<open>rollback_blockchain_switching\<close> and \<open>update_checkpoints\<close> of
  \<open>src/cryptonote_core/blockchain.cpp\<close>. The ordered map of the points is a list sorted by height. A chain is
  the list of its block ids by height; what else a rollback resets (the weight limits, the votes on forks)
  is with the components that hold it.

  Parameters are the reader of a difficulty (Boost's constructor of a 128-bit number from text, \<open>None\<close>
  where it throws), the contents of the checkpoint file and the records that the name servers returned.

  The lemmas show that the points stay ordered, that no way of loading points changes one that is there,
  when a block is checked and an alternative block allowed, and what the enforcement does to a chain.
\<close>

section \<open>Definitions\<close>

record checkpoints =
  m_points :: "(nat \<times> bytes) list"
  m_difficulty_points :: "(nat \<times> u128) list"

definition no_checkpoints :: checkpoints where
  "no_checkpoints = \<lparr>m_points = [], m_difficulty_points = []\<rparr>"

text \<open>Assignment to an entry of a \<open>std::map\<close>.\<close>

fun map_set :: "nat \<Rightarrow> 'a \<Rightarrow> (nat \<times> 'a) list \<Rightarrow> (nat \<times> 'a) list" where
  "map_set k v [] = [(k, v)]"
| "map_set k v ((l, w) # m) =
    (if k < l then (k, v) # (l, w) # m else if k = l then (k, v) # m else (l, w) # map_set k v m)"

definition to_buffer :: "nat \<Rightarrow> string \<Rightarrow> bytes option" where
  "to_buffer n src = (if length src div 2 \<noteq> n then None else from_hex src)"

text \<open>\<open>hex_to_pod\<close> for a \<open>crypto::hash\<close>.\<close>

definition hex_to_hash :: "string \<Rightarrow> bytes option" where
  "hex_to_hash s = to_buffer 32 s"

definition add_checkpoint ::
    "(string \<Rightarrow> u128 option) \<Rightarrow> nat \<Rightarrow> string \<Rightarrow> string \<Rightarrow> checkpoints \<Rightarrow> bool \<times> checkpoints" where
  "add_checkpoint parse_difficulty height hash_str difficulty_str c =
    (case hex_to_hash hash_str of
       None \<Rightarrow> (False, c)
     | Some h \<Rightarrow>
         if map_of (m_points c) height \<notin> {None, Some h} then (False, c)
         else
           let c = c\<lparr>m_points := map_set height h (m_points c)\<rparr>
           in if difficulty_str = [] then (True, c)
              else case parse_difficulty difficulty_str of
                     None \<Rightarrow> (False, c)
                   | Some difficulty \<Rightarrow>
                       if map_of (m_difficulty_points c) height \<notin> {None, Some difficulty} then (False, c)
                       else (True, c\<lparr>m_difficulty_points := map_set height difficulty (m_difficulty_points c)\<rparr>))"

definition is_in_checkpoint_zone :: "checkpoints \<Rightarrow> nat \<Rightarrow> bool" where
  "is_in_checkpoint_zone c height \<longleftrightarrow> m_points c \<noteq> [] \<and> height \<le> fst (last (m_points c))"

text \<open>The result of the check, and whether there is a checkpoint.\<close>

definition check_block :: "checkpoints \<Rightarrow> nat \<Rightarrow> bytes \<Rightarrow> bool \<times> bool" where
  "check_block c height h =
    (case map_of (m_points c) height of None \<Rightarrow> (True, False) | Some p \<Rightarrow> (p = h, True))"

definition is_alternative_block_allowed :: "checkpoints \<Rightarrow> nat \<Rightarrow> nat \<Rightarrow> bool" where
  "is_alternative_block_allowed c blockchain_height block_height =
    (if block_height = 0 then False
     else
       let before = takeWhile (\<lambda>p. fst p \<le> blockchain_height) (m_points c)
       in if before = [] then True else fst (last before) < block_height)"

definition get_max_height :: "checkpoints \<Rightarrow> nat" where
  "get_max_height c = (if m_points c = [] then 0 else fst (last (m_points c)))"

definition check_for_conflicts :: "checkpoints \<Rightarrow> checkpoints \<Rightarrow> bool" where
  "check_for_conflicts c other \<longleftrightarrow>
    list_all (\<lambda>(height, h). map_of (m_points c) height \<in> {None, Some h}) (m_points other)"

text \<open>A sequence of \<open>ADD_CHECKPOINT2\<close>, each of which returns if it fails.\<close>

fun add_checkpoints :: "(string \<Rightarrow> u128 option) \<Rightarrow> (nat \<times> string \<times> string) list \<Rightarrow> checkpoints \<Rightarrow> bool \<times> checkpoints" where
  "add_checkpoints parse_difficulty [] c = (True, c)"
| "add_checkpoints parse_difficulty ((height, hash_str, difficulty_str) # rows) c =
    (case add_checkpoint parse_difficulty height hash_str difficulty_str c of
       (False, c) \<Rightarrow> (False, c)
     | (True, c) \<Rightarrow> add_checkpoints parse_difficulty rows c)"

definition testnet_checkpoints :: "(nat \<times> string \<times> string) list" where
  "testnet_checkpoints =
    [(0, ''48ca7cd3c8de5b6a4d53d2861fbdaedca141553559f9be9520068053cda8430b'', ''0x1''),
     (1000000, ''46b690b710a07ea051bc4a6b6842ac37be691089c0f7758cfeec4d5fc0b4a258'', ''0x7aaad7153''),
     (1058600, ''12904f6b4d9e60fd875674e07147d2c83d6716253f046af7b894c3e81da7e1bd'', ''0x971efd119''),
     (1450000, ''87562ca6786f41556b8d5b48067303a57dc5ca77155b35199aedaeca1550f5a0'', ''0xa639e2930e'')]"

definition stagenet_checkpoints :: "(nat \<times> string \<times> string) list" where
  "stagenet_checkpoints =
    [(0, ''76ee3cc98646292206cd3e86f74d88b4dcc1d937088645e9b0cbca84b7ce74eb'', ''0x1''),
     (10000, ''1f8b0ce313f8b9ba9a46108bfd285c45ad7c2176871fd41c3a690d4830ce2fd5'', ''0x1d73ba''),
     (550000, ''409f68cddd8e74b37469b41c1e61250d81c5776b42264f416d5d27c4626383ed'', ''0x5f3d4d03e'')]"

definition mainnet_checkpoints :: "(nat \<times> string \<times> string) list" where
  "mainnet_checkpoints =
    [(1, ''771fbcd656ec1464d3a02ead5e18644030007a0fc664c0a964d30922821a8148'', ''0x2''),
     (10, ''c0e3b387e47042f72d8ccdca88071ff96bff1ac7cde09ae113dbb7ad3fe92381'', ''0x2a974''),
     (100, ''ac3e11ca545e57c49fca2b4e8c48c03c23be047c43e471e1394528b1f9f80b2d'', ''0x35d14b''),
     (1000, ''5acfc45acffd2b2e7345caf42fa02308c5793f15ec33946e969e829f40b03876'', ''0x36a0373''),
     (10000, ''c758b7c81f928be3295d45e230646de8b852ec96a821eac3fea4daf3fcac0ca2'', ''0x60a91390''),
     (22231, ''7cb10e29d67e1c069e6e11b17d30b809724255fee2f6868dc14cfc6ed44dfb25'', ''0x1e288793d''),
     (29556, ''53c484a8ed91e4da621bb2fa88106dbde426fe90d7ef07b9c1e5127fb6f3a7f6'', ''0x71f64cce8''),
     (50000, ''0fe8758ab06a8b9cb35b7328fd4f757af530a5d37759f9d3e421023231f7b31c'', ''0x893044b400''),
     (80000, ''a62dcd7b536f22e003ebae8726e9e7276f63d594e264b6f0cd7aab27b66e75e3'', ''0x5cc113f1076''),
     (202612, ''bbd604d2ba11ba27935e006ed39c9bfdd99b76bf4a50654bc1e1e61217962698'', ''0x73310a259eb2''),
     (202613, ''e2aa337e78df1f98f462b3b1e560c6b914dec47b610698b7b7d1e3e86b6197c2'', ''0x733154039b97''),
     (202614, ''c29e3dc37d8da3e72e506e31a213a58771b24450144305bcba9e70fa4d6ea6fb'', ''0x73319dc90cb6''),
     (205000, ''5d3d7a26e6dc7535e34f03def711daa8c263785f73ec1fadef8a45880fde8063'', ''0x75fcc3d85123''),
     (220000, ''9613f455933c00e3e33ac315cc6b455ee8aa0c567163836858c2d9caff111553'', ''0x89cfed0cae3c''),
     (230300, ''bae7a80c46859db355556e3a9204a337ae8f24309926a1312323fdecf1920e61'', ''0x967d13e5baa9''),
     (230700, ''93e631240ceac831da1aebfc5dac8f722c430463024763ebafa888796ceaeedf'', ''0x96fb9663ebe7''),
     (231350, ''b5add137199b820e1ea26640e5c3e121fd85faa86a1e39cf7e6cc097bdeb1131'', ''0x97b9919177bf''),
     (232150, ''955de8e6b6508af2c24f7334f97beeea651d78e9ade3ab18fec3763be3201aa8'', ''0x98a038b612e8''),
     (249380, ''654fb0a81ce3e5caf7e3264a70f447d4bd07586c08fa50f6638cc54da0a52b2d'', ''0xac9739634e6d''),
     (460000, ''75037a7aed3e765db96c75bcf908f59d690a5f3390baebb9edeafd336a1c4831'', ''0x167799549bdda''),
     (500000, ''2428f0dbe49796be05ed81b347f53e1f7f44aed0abf641446ec2b94cae066b02'', ''0x188ce145e4ba9''),
     (600000, ''f5828ebf7d7d1cb61762c4dfe3ccf4ecab2e1aad23e8113668d981713b7a54c5'', ''0x1d9f3759e1554''),
     (700000, ''12be9b3d210b93f574d2526abb9c1ab2a881b479131fd0d4f7dac93875f503cd'', ''0x2201e4ee39c2c''),
     (825000, ''56503f9ad766774b575be3aff73245e9d159be88132c93d1754764f28da2ff60'', ''0x27565a442d5df''),
     (900000, ''d9958d0e7dcf91a5a7b11de225927bf7efc6eb26240315ce12372be902cc1337'', ''0x2a6334031546e''),
     (913193, ''5292d5d56f6ba4de33a58d9a34d263e2cb3c6fee0aed2286fd4ac7f36d53c85f'', ''0x2aefe7f40f5ea''),
     (1000000, ''a886ef5149902d8342475fee9bb296341b891ac67c4842f47a833f23c00ed721'', ''0x2edd71370f0e5''),
     (1100000, ''3fd720c5c8b3072fc1ccda922dec1ef25f9ed88a1e6ad4103d0fe00b180a5903'', ''0x390eb0035c53a''),
     (1150000, ''1dd16f626d18e1e988490dfd06de5920e22629c972c58b4d8daddea0038627b2'', ''0x422d5662e9e37''),
     (1200000, ''fa7d13a90850882060479d100141ff84286599ae39c3277c8ea784393f882d1f'', ''0x4c73503fc4aa3''),
     (1300000, ''31b34272343a44a9f4ac7de7a8fcf3b7d8a3124d7d6870affd510d2f37e74cd0'', ''0x723f49bc249d5''),
     (1390000, ''a8f5649dd4ded60eedab475f2bec8c934681c07e3cf640e9be0617554f13ff6c'', ''0xb4bba65e2841b''),
     (1450000, ''ac94e8860093bc7c83e4e91215cba1d663421ecf4067a0ae609c3a8b52bcfac2'', ''0x11a4aabdca9511''),
     (1530000, ''01759bce497ec38e63c78b1038892169203bb78f87e488172f6b854fcd63ba7e'', ''0x2819ce9f9e91e5''),
     (1579000, ''7d0d7a2346373afd41ed1e744a939fc5d474a7dbaa257be5c6fff4009e789241'', ''0x357a590e7dda83''),
     (1668900, ''ac2dcaf3d2f58ffcf8391639f0f1ebafcb8eac43c49479c7c37f611868d07568'', ''0x474226e475cc3b''),
     (1775600, ''1c6e01c661dc22cab939e79ec6a5272190624ce8356d2f7b958e4f9a57fdb05e'', ''0x5e3b9d206a27c6''),
     (1856000, ''9b57f17f29c71a3acd8a7904b93c41fa6eb8d2b7c73936ce4f1702d14880ba29'', ''0x6bde5e1caccee1''),
     (1958000, ''98a5d6e51afdf3146e0eefb10a66e8648d8d4d5c2742be8835e976ba217c9bb2'', ''0x79dd46d2a0971a''),
     (2046000, ''5e867f0b8baefed9244a681df97fc885d8ab36c3dfcd24c7a3abf3b8ac8b8314'', ''0x9cb8b6ff2978c6''),
     (2092500, ''c4e00820c9c7989b49153d5e90ae095a18a11d990e82fcc3be54e6ed785472b5'', ''0xb4e585a31369cb''),
     (2182500, ''0d22b5f81982eff21d094af9e821dc2007e6342069e3b1a37b15d97646353124'', ''0xead4a874083492''),
     (2661600, ''41c9060e8426012238e8a26da26fcb90797436896cc70886a894c2c560bcccf2'', ''0x2e0d87526ff161f''),
     (2677000, ''1b9fee6246eeb176bd17d637bf252e9af54a4218675f01b4449cc0901867f9eb'', ''0x2f165bc1a5163ba''),
     (2706000, ''d8eb144c5e1fe6b329ecc900ec95e7792fccff84175fb23a25ed59d7299a511c'', ''0x310f7d89372f705''),
     (2720000, ''b19fb41dff15bd1016afbee9f8469f05aab715c9e5d1b974466a11fd58ecbb86'', ''0x3216b5851ddbb61''),
     (2817000, ''39726d19ccaac01d150bec827b877ffae710b516bd633503662036ef4422e577'', ''0x3900669561954c1''),
     (2844000, ''28fc7b446dfef5b469f5778eb72ddf32a307a5f5a9823d1c394e772349e05d40'', ''0x3af384ec0e97d12''),
     (2851000, ''5bf0e47fc782263191a33f63a67db6c711781dc2a3c442e17ed901ec401be5c9'', ''0x3b6cd8a8ed610e8''),
     (2971000, ''3d4cac5ac515eeabd18769ab943af85f36db51d28720def0d0e6effc2c8f5ce3'', ''0x436e532738b8b5b''),
     (2985000, ''08f5e6b7301c1b6ed88268a28f8677a06e8ff943b3f9e48d3080f71f9c134bfb'', ''0x444b7b42a633c96''),
     (3088000, ''bddf8ca09110d33d6d497f13a113630c2b6af1c84d4f3a6f35cb1446f2604ade'', ''0x4aed3615c2f8c3e''),
     (3102800, ''083f4a34f9490403b564286e7f13fd1ed45c52c86fa47195f151594e5bc87504'', ''0x4bbed52d4da5dfb'')]"

definition init_default_checkpoints :: "(string \<Rightarrow> u128 option) \<Rightarrow> network_type \<Rightarrow> checkpoints \<Rightarrow> bool \<times> checkpoints" where
  "init_default_checkpoints parse_difficulty nettype c =
    (if nettype = TESTNET then add_checkpoints parse_difficulty testnet_checkpoints c
     else if nettype = STAGENET then add_checkpoints parse_difficulty stagenet_checkpoints c
     else add_checkpoints parse_difficulty mainnet_checkpoints c)"

text \<open>The checkpoint file: absent, not readable, or its lines.\<close>

datatype hash_file = No_File | Bad_File | Hash_File "(nat \<times> string) list"

fun load_hashlines :: "(string \<Rightarrow> u128 option) \<Rightarrow> nat \<Rightarrow> (nat \<times> string) list \<Rightarrow> checkpoints \<Rightarrow> bool \<times> checkpoints" where
  "load_hashlines parse_difficulty prev_max_height [] c = (True, c)"
| "load_hashlines parse_difficulty prev_max_height ((height, blockhash) # lines) c =
    (if height \<le> prev_max_height then load_hashlines parse_difficulty prev_max_height lines c
     else case add_checkpoint parse_difficulty height blockhash [] c of
            (False, c) \<Rightarrow> (False, c)
          | (True, c) \<Rightarrow> load_hashlines parse_difficulty prev_max_height lines c)"

definition load_checkpoints_from_json :: "(string \<Rightarrow> u128 option) \<Rightarrow> hash_file \<Rightarrow> checkpoints \<Rightarrow> bool \<times> checkpoints" where
  "load_checkpoints_from_json parse_difficulty file c =
    (case file of
       No_File \<Rightarrow> (True, c)
     | Bad_File \<Rightarrow> (False, c)
     | Hash_File lines \<Rightarrow> load_hashlines parse_difficulty (get_max_height c) lines c)"

text \<open>
  Extraction of a \<open>uint64_t\<close> from a stream: white space is skipped, a sign may follow, and the digits are
  read as long as there are any; a negative number wraps, one that does not fit fails.
\<close>

definition stream_u64 :: "string \<Rightarrow> nat option" where
  "stream_u64 s =
    (let s = dropWhile isspace s;
         signed = (s \<noteq> [] \<and> hd s \<in> {CHR ''-'', CHR ''+''});
         digits = takeWhile isdigit (if signed then tl s else s)
     in if digits = [] \<or> dec_value digits \<ge> 2 ^ 64 then None
        else Some (if signed \<and> hd s = CHR ''-'' then (2 ^ 64 - dec_value digits) mod 2 ^ 64 else dec_value digits))"

fun load_records :: "(string \<Rightarrow> u128 option) \<Rightarrow> string list \<Rightarrow> checkpoints \<Rightarrow> bool \<times> checkpoints" where
  "load_records parse_difficulty [] c = (True, c)"
| "load_records parse_difficulty (record # records) c =
    (if CHR '':'' \<in> set record then
       (let hashStr = tl (dropWhile (\<lambda>x. x \<noteq> CHR '':'') record)
        in case stream_u64 (takeWhile (\<lambda>x. x \<noteq> CHR '':'') record) of
             None \<Rightarrow> load_records parse_difficulty records c
           | Some height \<Rightarrow>
               (case hex_to_hash hashStr of
                  None \<Rightarrow> load_records parse_difficulty records c
                | Some _ \<Rightarrow>
                    (case add_checkpoint parse_difficulty height hashStr [] c of
                       (False, c) \<Rightarrow> (False, c)
                     | (True, c) \<Rightarrow> load_records parse_difficulty records c)))
     else load_records parse_difficulty records c)"

text \<open>\<open>None\<close> if the records could not be fetched.\<close>

definition load_checkpoints_from_dns :: "(string \<Rightarrow> u128 option) \<Rightarrow> string list option \<Rightarrow> checkpoints \<Rightarrow> bool \<times> checkpoints" where
  "load_checkpoints_from_dns parse_difficulty dns c =
    (case dns of None \<Rightarrow> (True, c) | Some records \<Rightarrow> load_records parse_difficulty records c)"

definition load_new_checkpoints ::
    "(string \<Rightarrow> u128 option) \<Rightarrow> hash_file \<Rightarrow> string list option \<Rightarrow> bool \<Rightarrow> checkpoints \<Rightarrow> bool \<times> checkpoints" where
  "load_new_checkpoints parse_difficulty file records dns c =
    (case load_checkpoints_from_json parse_difficulty file c of
       (result, c) \<Rightarrow>
         if dns then (case load_checkpoints_from_dns parse_difficulty records c of (r, c) \<Rightarrow> (result \<and> r, c))
         else (result, c))"

text \<open>
  The chain. The first component of a result is \<open>False\<close> where an exception is thrown; the second is the
  chain that is left then.
\<close>

function pop_until :: "nat \<Rightarrow> bytes list \<Rightarrow> bool \<times> bytes list" where
  "pop_until rollback_height chain =
    (if length chain = rollback_height then (True, chain)
     else if \<not> length chain > 1 then (False, chain)
     else pop_until rollback_height (butlast chain))"
  by pat_completeness auto
termination by (relation "measure (\<lambda>(_, chain). length chain)") auto

declare pop_until.simps [simp del]

definition rollback_blockchain_switching :: "bytes list \<Rightarrow> nat \<Rightarrow> bool \<times> bytes list" where
  "rollback_blockchain_switching chain rollback_height =
    (if rollback_height > length chain then (True, chain) else pop_until rollback_height chain)"

fun check_points :: "checkpoints \<Rightarrow> bool \<Rightarrow> nat \<Rightarrow> (nat \<times> bytes) list \<Rightarrow> bytes list \<Rightarrow> bool \<times> bytes list" where
  "check_points points enforce blockchain_height [] chain = (True, chain)"
| "check_points points enforce blockchain_height ((height, _) # pts) chain =
    (if height \<ge> blockchain_height then check_points points enforce blockchain_height pts chain
     else if \<not> height < length chain then (False, chain)
     else if \<not> fst (check_block points height (chain ! height)) \<and> enforce then
       (case rollback_blockchain_switching chain (unat (of_nat height - 2 :: u64)) of
          (False, chain) \<Rightarrow> (False, chain)
        | (True, chain) \<Rightarrow> check_points points enforce blockchain_height pts chain)
     else check_points points enforce blockchain_height pts chain)"

definition check_against_checkpoints :: "checkpoints \<Rightarrow> bool \<Rightarrow> bytes list \<Rightarrow> bool \<times> bytes list" where
  "check_against_checkpoints points enforce chain = check_points points enforce (length chain) (m_points points) chain"

text \<open>The result is \<open>None\<close> where an exception is thrown.\<close>

definition update_checkpoints ::
    "(string \<Rightarrow> u128 option) \<Rightarrow> bool \<Rightarrow> bool \<Rightarrow> hash_file \<Rightarrow> string list option \<Rightarrow> bool \<Rightarrow> checkpoints \<times> bytes list
     \<Rightarrow> bool option \<times> checkpoints \<times> bytes list" where
  "update_checkpoints parse_difficulty enforce_dns offline file records check_dns s =
    (let (c, chain) = s;
         finish = (\<lambda>c chain. case check_against_checkpoints c True chain of
           (ok, chain) \<Rightarrow> (if ok then Some True else None, c, chain))
     in case load_checkpoints_from_json parse_difficulty file c of
          (False, c) \<Rightarrow> (Some False, c, chain)
        | (True, c) \<Rightarrow>
            if enforce_dns \<and> check_dns \<and> \<not> offline then
              (case load_checkpoints_from_dns parse_difficulty records c of
                 (False, c) \<Rightarrow> (Some False, c, chain)
               | (True, c) \<Rightarrow> finish c chain)
            else if check_dns \<and> \<not> offline then
              let dns_points = snd (load_checkpoints_from_dns parse_difficulty records no_checkpoints)
              in if check_for_conflicts c dns_points then
                   (case check_against_checkpoints dns_points False chain of
                      (False, chain) \<Rightarrow> (None, c, chain)
                    | (True, chain) \<Rightarrow> finish c chain)
                 else finish c chain
            else finish c chain)"

text \<open>The part of \<open>handle_block_to_main_chain\<close> that asks the checkpoints about the next block.\<close>

definition checkpoint_accepts :: "checkpoints \<Rightarrow> nat \<Rightarrow> bytes \<Rightarrow> bool" where
  "checkpoint_accepts c blockchain_height bl_id =
    (if is_in_checkpoint_zone c blockchain_height then fst (check_block c blockchain_height bl_id) else True)"

section \<open>The points\<close>

definition points_ok :: "(nat \<times> 'a) list \<Rightarrow> bool" where
  "points_ok m \<longleftrightarrow> sorted_wrt (<) (map fst m)"

lemma map_set_keys: "fst ` set (map_set k v m) = insert k (fst ` set m)"
  by (induction k v m rule: map_set.induct) auto

lemma points_ok_map_set [inv_intros]: "points_ok m \<Longrightarrow> points_ok (map_set k v m)"
proof (induction k v m rule: map_set.induct)
  case (2 k v l w m)
  then show ?case using map_set_keys [of k v m] by (auto simp: points_ok_def)
qed (simp add: points_ok_def)

lemma map_of_map_set: "points_ok m \<Longrightarrow> map_of (map_set k v m) = (map_of m)(k \<mapsto> v)"
proof (induction k v m rule: map_set.induct)
  case (2 k v l w m)
  then show ?case by (auto simp: points_ok_def fun_eq_iff)
qed simp

definition checkpoints_ok :: "checkpoints \<Rightarrow> bool" where
  "checkpoints_ok c \<longleftrightarrow> points_ok (m_points c) \<and> points_ok (m_difficulty_points c)"

text \<open>What loading may do: the points stay ordered, and those that are there stay.\<close>

definition extends :: "checkpoints \<Rightarrow> checkpoints \<Rightarrow> bool" where
  "extends c c' \<longleftrightarrow> checkpoints_ok c' \<and> map_of (m_points c) \<subseteq>\<^sub>m map_of (m_points c')
    \<and> map_of (m_difficulty_points c) \<subseteq>\<^sub>m map_of (m_difficulty_points c')"

lemma extends_refl: "checkpoints_ok c \<Longrightarrow> extends c c"
  by (simp add: extends_def)

lemma extends_trans: "extends c d \<Longrightarrow> extends d e \<Longrightarrow> extends c e"
  unfolding extends_def by (blast intro: map_le_trans)

lemma extends_ok: "extends c c' \<Longrightarrow> checkpoints_ok c'"
  by (simp add: extends_def)

lemma upd_map_le: "m k \<in> {None, Some v} \<Longrightarrow> m \<subseteq>\<^sub>m m(k \<mapsto> v)"
  by (auto simp: map_le_def)

lemma add_checkpoint_extends:
  assumes "checkpoints_ok c"
  shows "extends c (snd (add_checkpoint parse height hash_str difficulty_str c))"
  using assms upd_map_le [of "map_of (m_points c)" height]  upd_map_le [of "map_of (m_difficulty_points c)" height]
  by (auto simp: add_checkpoint_def Let_def extends_def checkpoints_ok_def map_of_map_set intro: inv_intros split: option.splits)

lemma add_checkpoints_extends: "checkpoints_ok c \<Longrightarrow> extends c (snd (add_checkpoints parse rows c))"
proof (induction rows arbitrary: c)
  case (Cons row rows)
  obtain height hash_str difficulty_str where row: "row = (height, hash_str, difficulty_str)" by (cases row)
  obtain r c1 where a: "add_checkpoint parse height hash_str difficulty_str c = (r, c1)" by fastforce
  have "extends c c1" using add_checkpoint_extends [OF Cons.prems, of parse height hash_str difficulty_str] by (simp add: a)
  then show ?case using Cons.IH [OF extends_ok] extends_trans by (cases r) (auto simp: row a)
qed (simp add: extends_refl)

lemma load_hashlines_extends: "checkpoints_ok c \<Longrightarrow> extends c (snd (load_hashlines parse prev lines c))"
proof (induction lines arbitrary: c)
  case (Cons line lines)
  obtain height blockhash where line: "line = (height, blockhash)" by (cases line)
  obtain r c1 where a: "add_checkpoint parse height blockhash [] c = (r, c1)" by fastforce
  have "extends c c1" using add_checkpoint_extends [OF Cons.prems, of parse height blockhash "[]"] by (simp add: a)
  then show ?case using Cons.IH [OF extends_ok] Cons.IH [OF Cons.prems] extends_trans by (cases r) (auto simp: line a)
qed (simp add: extends_refl)

lemma load_records_extends: "checkpoints_ok c \<Longrightarrow> extends c (snd (load_records parse records c))"
proof (induction records arbitrary: c)
  case (Cons r records)
  let ?h = "tl (dropWhile (\<lambda>x. x \<noteq> CHR '':'') r)"
  note skip = Cons.IH [OF Cons.prems]
  show ?case
  proof (cases "stream_u64 (takeWhile (\<lambda>x. x \<noteq> CHR '':'') r)")
    case (Some height)
    obtain ok c1 where a: "add_checkpoint parse height ?h [] c = (ok, c1)" by fastforce
    have e: "extends c c1" using add_checkpoint_extends [OF Cons.prems, of parse height ?h "[]"] by (simp add: a)
    have "extends c (snd (load_records parse records c1))" using Cons.IH [OF extends_ok [OF e]] e extends_trans by blast
    then show ?thesis using e skip Some a by (cases ok) (auto simp: Let_def split: option.splits)
  qed (use skip in \<open>simp add: Let_def\<close>)
qed (simp add: extends_refl)

lemma load_json_extends: "checkpoints_ok c \<Longrightarrow> extends c (snd (load_checkpoints_from_json parse file c))"
  by (simp add: load_checkpoints_from_json_def load_hashlines_extends extends_refl split: hash_file.splits)

lemma load_dns_extends: "checkpoints_ok c \<Longrightarrow> extends c (snd (load_checkpoints_from_dns parse records c))"
  by (simp add: load_checkpoints_from_dns_def load_records_extends extends_refl split: option.splits)

lemma load_new_extends:
  assumes "checkpoints_ok c"
  shows "extends c (snd (load_new_checkpoints parse hash_file records dns c))"
proof -
  obtain result c1 where j: "load_checkpoints_from_json parse hash_file c = (result, c1)" by fastforce
  have e: "extends c c1" using load_json_extends [OF assms, of parse hash_file] by (simp add: j)
  obtain r c2 where d: "load_checkpoints_from_dns parse records c1 = (r, c2)" by fastforce
  have "extends c1 c2" using load_dns_extends [OF extends_ok [OF e], of parse records] by (simp add: d)
  then have "extends c c2" using e extends_trans by blast
  then show ?thesis using e by (simp add: load_new_checkpoints_def j d)
qed

lemma init_extends: "checkpoints_ok c \<Longrightarrow> extends c (snd (init_default_checkpoints parse nettype c))"
  by (simp add: init_default_checkpoints_def add_checkpoints_extends)

lemma last_key_max:
  assumes "points_ok m" and "m \<noteq> []"
  shows "fst (last m) \<in> fst ` set m" and "\<And>k. k \<in> fst ` set m \<Longrightarrow> k \<le> fst (last m)"
proof -
  obtain m' p where m: "m = m' @ [p]" using assms(2) by (metis append_butlast_last_id)
  show "fst (last m) \<in> fst ` set m" by (simp add: m)
  show "k \<le> fst (last m)" if "k \<in> fst ` set m" for k
    using that assms(1) by (auto simp: m points_ok_def sorted_wrt_append)
qed

lemma takeWhile_points: "points_ok m \<Longrightarrow> set (takeWhile (\<lambda>p. fst p \<le> h) m) = {p \<in> set m. fst p \<le> h}"
  by (induction m) (auto simp: points_ok_def)

lemma points_ok_takeWhile: "points_ok m \<Longrightarrow> points_ok (takeWhile P m)"
  by (induction m) (auto simp: points_ok_def dest: set_takeWhileD)

lemma alternative_allowed:
  assumes "points_ok (m_points c)"
  shows "is_alternative_block_allowed c blockchain_height block_height \<longleftrightarrow>
    block_height \<noteq> 0 \<and> (\<forall>k \<in> dom (map_of (m_points c)). k \<le> blockchain_height \<longrightarrow> k < block_height)"
proof -
  let ?b = "takeWhile (\<lambda>p. fst p \<le> blockchain_height) (m_points c)"
  have keys: "fst ` set ?b = {k \<in> dom (map_of (m_points c)). k \<le> blockchain_height}"
    using takeWhile_points [OF assms, of blockchain_height] by (force simp: dom_map_of_conv_image_fst)
  show ?thesis
  proof (cases "?b = []")
    case True
    then have "{k \<in> dom (map_of (m_points c)). k \<le> blockchain_height} = {}" using keys by simp
    then show ?thesis using True by (auto simp: is_alternative_block_allowed_def)
  next
    case False
    note l = last_key_max [OF points_ok_takeWhile [OF assms] False]
    have "(\<forall>k \<in> fst ` set ?b. k < block_height) \<longleftrightarrow> fst (last ?b) < block_height"
      using l by (meson le_less_trans)
    then show ?thesis using False unfolding keys by (auto simp: is_alternative_block_allowed_def)
  qed
qed

section \<open>The chain\<close>

lemma pop_until_take:
  assumes "h \<le> length chain" and "0 < h"
  shows "pop_until h chain = (True, take h chain)"
  using assms
proof (induction h chain rule: pop_until.induct)
  case (1 h chain)
  show ?case
  proof (cases "length chain = h")
    case True
    then show ?thesis by (subst pop_until.simps) simp
  next
    case False
    then have "pop_until h (butlast chain) = (True, take h chain)"
      using 1 by (simp add: take_butlast)
    then show ?thesis using False "1.prems" by (subst pop_until.simps) simp
  qed
qed

lemma unat_minus_2: "2 \<le> k \<Longrightarrow> k < 2 ^ 64 \<Longrightarrow> unat (of_nat k - 2 :: u64) = k - 2"
  by (simp add: unat_sub_no_underflow unat_of_nat)

lemma check_points_late:
  "\<forall>p \<in> set pts. bh \<le> fst p \<Longrightarrow> check_points points enforce bh pts chain = (True, chain)"
  by (induction pts) auto

lemma check_points_good:
  "\<forall>p \<in> set pts. fst p < bh \<longrightarrow> fst p < length chain \<and> fst (check_block points (fst p) (chain ! fst p)) \<Longrightarrow>
    check_points points enforce bh (pts @ qs) chain = check_points points enforce bh qs chain"
  by (induction pts) auto

lemma check_points_short:
  assumes "points_ok pts" and "\<forall>p \<in> set pts. length chain \<le> fst p"
  shows "check_points points enforce bh pts chain = (\<forall>p \<in> set pts. bh \<le> fst p, chain)"
  using assms
proof (induction pts)
  case (Cons p pts)
  obtain k h where p: "p = (k, h)" by (cases p)
  show ?case
  proof (cases "bh \<le> k")
    case True
    then show ?thesis using Cons by (simp add: p points_ok_def)
  qed (use Cons.prems in \<open>simp add: p\<close>)
qed simp

text \<open>The part of the checkpoints that a chain of a height contradicts.\<close>

definition contradicts :: "checkpoints \<Rightarrow> bytes list \<Rightarrow> nat \<Rightarrow> bool" where
  "contradicts c chain k \<longleftrightarrow> k < length chain \<and> map_of (m_points c) k \<notin> {None, Some (chain ! k)}"

lemma check_block_contradicts:
  "k < length chain \<Longrightarrow> fst (check_block c k (chain ! k)) \<longleftrightarrow> \<not> contradicts c chain k"
  by (auto simp: check_block_def contradicts_def split: option.splits)

lemma check_points_first:
  assumes ok: "points_ok (m_points c)" and k: "3 \<le> k" "contradicts c chain k" "\<And>j. j < k \<Longrightarrow> \<not> contradicts c chain j"
    and "length chain < 2 ^ 64"
  shows "check_against_checkpoints c True chain =
    (\<forall>j \<in> dom (map_of (m_points c)). k < j \<longrightarrow> length chain \<le> j, take (k - 2) chain)"
proof -
  obtain x where x: "(k, x) \<in> set (m_points c)" using k(2) by (auto simp: contradicts_def dest: map_of_SomeD)
  then obtain pts qs where m: "m_points c = pts @ (k, x) # qs" by (metis split_list)
  have kl: "k < length chain" using k(2) by (simp add: contradicts_def)
  then have nk: "\<not> length chain < k - 2" "k - 2 \<le> length chain" by simp_all
  have before: "fst p < k" if "p \<in> set pts" for p using ok that by (auto simp: m points_ok_def sorted_wrt_append)
  have after: "k < fst p" if "p \<in> set qs" for p using ok that by (auto simp: m points_ok_def sorted_wrt_append)
  have "check_against_checkpoints c True chain = check_points c True (length chain) ((k, x) # qs) chain"
    unfolding check_against_checkpoints_def m
    using before k(3) check_block_contradicts by (intro check_points_good) blast
  also have "\<dots> = check_points c True (length chain) qs (take (k - 2) chain)"
    using kl k(1,2) assms(5) check_block_contradicts [OF kl, of c] pop_until_take [of "k - 2" chain]
    by (simp add: rollback_blockchain_switching_def unat_minus_2 nk)
  also have "\<dots> = (\<forall>p \<in> set qs. length chain \<le> fst p, take (k - 2) chain)"
  proof (rule check_points_short)
    show "points_ok qs" using ok by (simp add: m points_ok_def sorted_wrt_append)
    have "length (take (k - 2) chain) \<le> k" by simp
    then show "\<forall>p \<in> set qs. length (take (k - 2) chain) \<le> fst p" using after le_trans less_imp_le by blast
  qed
  also have "(\<forall>p \<in> set qs. length chain \<le> fst p) \<longleftrightarrow> (\<forall>j \<in> dom (map_of (m_points c)). k < j \<longrightarrow> length chain \<le> j)"
    unfolding dom_map_of_conv_image_fst m by (auto dest: before after)
  finally show ?thesis .
qed

lemma check_points_none:
  assumes "\<And>j. \<not> contradicts c chain j"
  shows "check_against_checkpoints c enforce chain = (True, chain)"
  using check_points_good [of "m_points c" "length chain" chain c enforce "[]"] assms check_block_contradicts
  by (auto simp: check_against_checkpoints_def)

lemma check_points_warn: "check_points points False (length chain) pts chain = (True, chain)"
  by (induction pts) auto

lemma check_points_low:
  assumes "\<forall>p \<in> set pts. fst p < bh \<longrightarrow> fst p < length chain \<and> (fst (check_block points (fst p) (chain ! fst p)) \<or> fst p < 2)"
    and "length chain < 2 ^ 64 - 2"
  shows "check_points points enforce bh pts chain = (True, chain)"
  using assms
proof (induction pts)
  case (Cons p pts)
  obtain k h where p: "p = (k, h)" by (cases p)
  have "rollback_blockchain_switching chain (unat (of_nat k - 2 :: u64)) = (True, chain)" if "k < 2"
  proof -
    have "k = 0 \<or> k = 1" using that by auto
    then have "(of_nat k - 2 :: u64) \<in> {18446744073709551614, 18446744073709551615}" by auto
    then have "2 ^ 64 - 2 \<le> unat (of_nat k - 2 :: u64)" by auto
    then show ?thesis using Cons.prems(2) by (simp add: rollback_blockchain_switching_def)
  qed
  then show ?case using Cons by (auto simp: p)
qed simp

lemma accepts_known:
  assumes "checkpoints_ok c" and "map_of (m_points c) k = Some h"
  shows "checkpoint_accepts c k bl_id \<longleftrightarrow> bl_id = h"
proof -
  have "(k, h) \<in> set (m_points c)" using assms(2) by (rule map_of_SomeD)
  then have "m_points c \<noteq> []" "k \<in> fst ` set (m_points c)" by force+
  then have "is_in_checkpoint_zone c k"
    using last_key_max(2) assms(1) by (auto simp: is_in_checkpoint_zone_def checkpoints_ok_def)
  then show ?thesis using assms(2) by (auto simp: checkpoint_accepts_def check_block_def)
qed

lemma add_checkpoints_first:
  assumes "checkpoints_ok c" and "hex_to_hash hash_str = Some h" and "map_of (m_points c) height \<in> {None, Some h}"
  shows "map_of (m_points (snd (add_checkpoints parse ((height, hash_str, d) # rows) c))) height = Some h"
proof -
  obtain r c1 where a: "add_checkpoint parse height hash_str d c = (r, c1)" by fastforce
  have ok: "checkpoints_ok c1" using extends_ok [OF add_checkpoint_extends [OF assms(1)], of parse height hash_str d] by (simp add: a)
  have "map_of (m_points (snd (add_checkpoint parse height hash_str d c))) height = Some h"
    using assms by (auto simp: add_checkpoint_def Let_def checkpoints_ok_def map_of_map_set split: option.splits)
  then have h: "map_of (m_points c1) height = Some h" by (simp add: a)
  moreover have "map_of (m_points (snd (add_checkpoints parse rows c1))) height = Some h"
    using add_checkpoints_extends [OF ok, of parse rows] h by (auto simp: extends_def map_le_def dom_def)
  ultimately show ?thesis by (cases r) (simp_all add: a)
qed

section \<open>Properties\<close>

text \<open>
  C16. Checkpoints are never changed: whatever the checkpoint file and the name servers contain, and
  whatever the loading returns, the points stay ordered by height, every checkpoint that was there is
  there with the same hash, and so is every checkpoint of a difficulty. A block that was checked against
  a checkpoint is checked against the same hash afterwards.
\<close>

theorem checkpoints_only_grow:
  assumes "checkpoints_ok c"
    and "c' \<in> {snd (init_default_checkpoints parse nettype c), snd (load_new_checkpoints parse hash_file records dns c),
      fst (snd (update_checkpoints parse enforce_dns offline hash_file records check_dns (c, chain)))}"
  shows "checkpoints_ok c' \<and> map_of (m_points c) \<subseteq>\<^sub>m map_of (m_points c')
    \<and> map_of (m_difficulty_points c) \<subseteq>\<^sub>m map_of (m_difficulty_points c')
    \<and> (\<forall>k h. snd (check_block c k h) \<longrightarrow> check_block c' k h = check_block c k h)"
proof -
  obtain r c1 where j: "load_checkpoints_from_json parse hash_file c = (r, c1)" by fastforce
  have e1: "extends c c1" using load_json_extends [OF assms(1), of parse hash_file] by (simp add: j)
  obtain r2 c2 where d: "load_checkpoints_from_dns parse records c1 = (r2, c2)" by fastforce
  have "extends c1 c2" using load_dns_extends [OF extends_ok [OF e1], of parse records] by (simp add: d)
  then have e2: "extends c c2" using e1 extends_trans by blast
  have "fst (snd (update_checkpoints parse enforce_dns offline hash_file records check_dns (c, chain))) \<in> {c1, c2}"
    by (auto simp: update_checkpoints_def Let_def j d split: prod.splits bool.splits)
  then have e: "extends c c'"
    using assms e1 e2 init_extends [OF assms(1), of parse nettype] load_new_extends [OF assms(1), of parse hash_file records dns]
    by auto
  have "check_block c' k h = check_block c k h" if known: "snd (check_block c k h)" for k h
  proof -
    obtain x where "map_of (m_points c) k = Some x" using known by (cases "map_of (m_points c) k") (auto simp: check_block_def)
    moreover from this have "map_of (m_points c') k = Some x" using e by (auto simp: extends_def map_le_def dom_def)
    ultimately show ?thesis by (simp add: check_block_def)
  qed
  then show ?thesis using e by (simp add: extends_def)
qed

theorem checkpoints_only_grow_witness:
  "check_block (snd (init_default_checkpoints (\<lambda>_. None) MAINNET \<lparr>m_points = [(1, [7])], m_difficulty_points = []\<rparr>)) 1 [7] = (True, True)"
proof -
  let ?c = "\<lparr>m_points = [(1, [7])], m_difficulty_points = []\<rparr> :: checkpoints"
  have "checkpoints_ok ?c" by (simp add: checkpoints_ok_def points_ok_def)
  then have "snd (check_block ?c 1 [7]) \<longrightarrow>
      check_block (snd (init_default_checkpoints (\<lambda>_. None) MAINNET ?c)) 1 [7] = check_block ?c 1 [7]"
    using checkpoints_only_grow [of ?c "snd (init_default_checkpoints (\<lambda>_. None) MAINNET ?c)" "\<lambda>_. None" MAINNET] by blast
  then show ?thesis by (simp add: check_block_def)
qed



text \<open>
  C39. The built-in checkpoints of the main network accept one id only for the block at height 1, the one
  that their table lists (which is that of a block of another chain), whatever the reader of difficulties.
\<close>

theorem mainnet_block_one:
  "checkpoint_accepts (snd (init_default_checkpoints parse MAINNET no_checkpoints)) 1 bl_id \<longleftrightarrow>
    hex_to_hash ''771fbcd656ec1464d3a02ead5e18644030007a0fc664c0a964d30922821a8148'' = Some bl_id"
proof -
  let ?s = "''771fbcd656ec1464d3a02ead5e18644030007a0fc664c0a964d30922821a8148''"
  have "hex_to_hash ?s \<noteq> None" by code_simp
  then obtain h where h: "hex_to_hash ?s = Some h" by blast
  have ok: "checkpoints_ok no_checkpoints" by (simp add: checkpoints_ok_def points_ok_def no_checkpoints_def)
  have t: "mainnet_checkpoints = (1, ?s, ''0x2'') # tl mainnet_checkpoints" by (simp add: mainnet_checkpoints_def)
  have "map_of (m_points (snd (init_default_checkpoints parse MAINNET no_checkpoints))) 1 = Some h"
    unfolding init_default_checkpoints_def using add_checkpoints_first [OF ok h, of 1 parse "''0x2''" "tl mainnet_checkpoints"]
    by (simp only: t [symmetric]) (simp add: no_checkpoints_def)
  then have "checkpoint_accepts (snd (init_default_checkpoints parse MAINNET no_checkpoints)) 1 bl_id \<longleftrightarrow> bl_id = h"
    by (rule accepts_known [OF extends_ok [OF init_extends [OF ok]]])
  then show ?thesis by (auto simp: h)
qed

end
