(* ===== verification/Pruning.thy ===== *)
theory Pruning
  imports Prelude
begin

text \<open>
  Which blocks a pruned node keeps: \<open>src/common/pruning.h\<close> and \<open>src/common/pruning.cpp\<close>. The chain is cut
  into pieces of 4096 blocks that belong in turn to the stripes; a node with a pruning seed keeps its
  stripe and the tip of the chain. \<open>None\<close> is an exception.

  The lemmas show that a seed holds its stripe and its number of stripes, and that the next block a node
  keeps is found by arithmetic alone.
\<close>

unbundle bit_operations_syntax

section \<open>Definitions\<close>

definition PRUNING_SEED_LOG_STRIPES_SHIFT :: nat where "PRUNING_SEED_LOG_STRIPES_SHIFT = 7"
definition PRUNING_SEED_LOG_STRIPES_MASK :: u32 where "PRUNING_SEED_LOG_STRIPES_MASK = 0x7"
definition PRUNING_SEED_STRIPE_SHIFT :: nat where "PRUNING_SEED_STRIPE_SHIFT = 0"
definition PRUNING_SEED_STRIPE_MASK :: u32 where "PRUNING_SEED_STRIPE_MASK = 0x7f"

definition CRYPTONOTE_PRUNING_STRIPE_SIZE :: u64 where "CRYPTONOTE_PRUNING_STRIPE_SIZE = 4096"
definition CRYPTONOTE_PRUNING_LOG_STRIPES :: u32 where "CRYPTONOTE_PRUNING_LOG_STRIPES = 3"
definition CRYPTONOTE_PRUNING_TIP_BLOCKS :: u64 where "CRYPTONOTE_PRUNING_TIP_BLOCKS = 5500"
definition CRYPTONOTE_MAX_BLOCK_NUMBER :: u64 where "CRYPTONOTE_MAX_BLOCK_NUMBER = 500000000"

definition get_pruning_log_stripes :: "u32 \<Rightarrow> u32" where
  "get_pruning_log_stripes pruning_seed = drop_bit PRUNING_SEED_LOG_STRIPES_SHIFT pruning_seed AND PRUNING_SEED_LOG_STRIPES_MASK"

definition seed_stripe :: "u32 \<Rightarrow> u32" where
  "seed_stripe pruning_seed =
    (if pruning_seed = 0 then 0 else 1 + (drop_bit PRUNING_SEED_STRIPE_SHIFT pruning_seed AND PRUNING_SEED_STRIPE_MASK))"

definition make_pruning_seed :: "u32 \<Rightarrow> u32 \<Rightarrow> u32 option" where
  "make_pruning_seed stripe log_stripes =
    (if \<not> log_stripes \<le> PRUNING_SEED_LOG_STRIPES_MASK then None
     else if \<not> (stripe > 0 \<and> (ucast stripe :: u64) \<le> push_bit (unat log_stripes) 1) then None
     else Some (push_bit PRUNING_SEED_LOG_STRIPES_SHIFT log_stripes OR push_bit PRUNING_SEED_STRIPE_SHIFT (stripe - 1)))"

definition get_pruning_stripe :: "u64 \<Rightarrow> u64 \<Rightarrow> u32 \<Rightarrow> u32" where
  "get_pruning_stripe block_height blockchain_height log_stripes =
    (if block_height + CRYPTONOTE_PRUNING_TIP_BLOCKS \<ge> blockchain_height then 0
     else ucast (((block_height div CRYPTONOTE_PRUNING_STRIPE_SIZE) AND (push_bit (unat log_stripes) 1 - 1)) + 1))"

definition has_unpruned_block :: "u64 \<Rightarrow> u64 \<Rightarrow> u32 \<Rightarrow> bool" where
  "has_unpruned_block block_height blockchain_height pruning_seed =
    (let stripe = seed_stripe pruning_seed
     in if stripe = 0 then True
        else
          let log_stripes = get_pruning_log_stripes pruning_seed;
              block_stripe = get_pruning_stripe block_height blockchain_height log_stripes
          in block_stripe = 0 \<or> block_stripe = stripe)"

definition get_pruning_seed :: "u64 \<Rightarrow> u64 \<Rightarrow> u32 \<Rightarrow> u32 option" where
  "get_pruning_seed block_height blockchain_height log_stripes =
    (let stripe = get_pruning_stripe block_height blockchain_height log_stripes
     in if stripe = 0 then Some 0 else make_pruning_seed stripe log_stripes)"

definition get_next_unpruned_block_height :: "u64 \<Rightarrow> u64 \<Rightarrow> u32 \<Rightarrow> u64" where
  "get_next_unpruned_block_height block_height blockchain_height pruning_seed =
    (if \<not> block_height \<le> CRYPTONOTE_MAX_BLOCK_NUMBER + 1 then block_height
     else if \<not> blockchain_height \<le> CRYPTONOTE_MAX_BLOCK_NUMBER + 1 then block_height
     else
       let stripe = seed_stripe pruning_seed
       in if stripe = 0 then block_height
          else if block_height + CRYPTONOTE_PRUNING_TIP_BLOCKS \<ge> blockchain_height then block_height
          else
            let seed_log_stripes = get_pruning_log_stripes pruning_seed;
                log_stripes = unat (if seed_log_stripes \<noteq> 0 then seed_log_stripes else CRYPTONOTE_PRUNING_LOG_STRIPES);
                mask = (push_bit log_stripes 1 :: u64) - 1;
                block_pruning_stripe = (ucast (((block_height div CRYPTONOTE_PRUNING_STRIPE_SIZE) AND mask) + 1) :: u32)
            in if block_pruning_stripe = stripe then block_height
               else
                 let cycles = drop_bit log_stripes (block_height div CRYPTONOTE_PRUNING_STRIPE_SIZE);
                     cycle_start = cycles + (if stripe > block_pruning_stripe then 0 else 1);
                     h = cycle_start * push_bit log_stripes CRYPTONOTE_PRUNING_STRIPE_SIZE
                       + ucast ((stripe - 1) * ucast CRYPTONOTE_PRUNING_STRIPE_SIZE)
                 in if h + CRYPTONOTE_PRUNING_TIP_BLOCKS > blockchain_height
                    then (if blockchain_height < CRYPTONOTE_PRUNING_TIP_BLOCKS then 0
                          else blockchain_height - CRYPTONOTE_PRUNING_TIP_BLOCKS)
                    else if \<not> h \<ge> block_height then block_height
                    else h)"

definition get_next_pruned_block_height :: "u64 \<Rightarrow> u64 \<Rightarrow> u32 \<Rightarrow> u64 option" where
  "get_next_pruned_block_height block_height blockchain_height pruning_seed =
    (let stripe = seed_stripe pruning_seed
     in if stripe = 0 then Some blockchain_height
        else if block_height + CRYPTONOTE_PRUNING_TIP_BLOCKS \<ge> blockchain_height then Some blockchain_height
        else
          let seed_log_stripes = get_pruning_log_stripes pruning_seed;
              log_stripes = (if seed_log_stripes \<noteq> 0 then seed_log_stripes else CRYPTONOTE_PRUNING_LOG_STRIPES);
              mask = (push_bit (unat log_stripes) 1 :: u64) - 1;
              block_pruning_seed = (ucast (((block_height div CRYPTONOTE_PRUNING_STRIPE_SIZE) AND mask) + 1) :: u32)
          in if block_pruning_seed \<noteq> stripe then Some block_height
             else
               let next_stripe = ucast (1 + (ucast block_pruning_seed AND mask))
               in map_option (get_next_unpruned_block_height block_height blockchain_height)
                    (make_pruning_seed next_stripe log_stripes))"

text \<open>The stripe of a new node; the random byte is an argument.\<close>

definition get_random_stripe :: "u8 \<Rightarrow> u32" where
  "get_random_stripe rand = ucast (1 + ucast rand mod (push_bit (unat CRYPTONOTE_PRUNING_LOG_STRIPES) 1 :: u64))"

section \<open>Specifications\<close>

text \<open>The stripe of a height when there are \<open>2 ^ L\<close> stripes, as a number from 1 on.\<close>

definition stripe_of :: "nat \<Rightarrow> nat \<Rightarrow> nat" where
  "stripe_of L h = h div 4096 mod 2 ^ L + 1"

text \<open>What a node of stripe \<open>s\<close> keeps of a chain of height \<open>n\<close>.\<close>

definition keeps :: "nat \<Rightarrow> nat \<Rightarrow> nat \<Rightarrow> nat \<Rightarrow> bool" where
  "keeps L s n h \<longleftrightarrow> n \<le> h + 5500 \<or> stripe_of L h = s"

section \<open>Words\<close>

lemmas pruning_constants = PRUNING_SEED_LOG_STRIPES_SHIFT_def PRUNING_SEED_LOG_STRIPES_MASK_def PRUNING_SEED_STRIPE_SHIFT_def
  PRUNING_SEED_STRIPE_MASK_def CRYPTONOTE_PRUNING_STRIPE_SIZE_def CRYPTONOTE_PRUNING_LOG_STRIPES_def
  CRYPTONOTE_PRUNING_TIP_BLOCKS_def CRYPTONOTE_MAX_BLOCK_NUMBER_def

lemma power_seven: "L \<le> 7 \<Longrightarrow> (2 :: nat) ^ L \<le> 128"
  using power_increasing [of L 7 "2 :: nat"] by simp

lemma length_64: "LENGTH(64) = 64"
  by simp

lemma add_less_power64: "a < 2 ^ 63 \<Longrightarrow> b < 2 ^ 63 \<Longrightarrow> a + b < (2 :: nat) ^ 64"
  by simp

lemma unat_and_mask: "unat (x AND (push_bit L 1 - 1)) = unat x mod 2 ^ L" for x :: u64
  by (simp add: push_bit_of_1 flip: mask_eq_exp_minus_1 take_bit_eq_mask) (simp add: unat_take_bit)

lemma unat_stripe:
  fixes x :: u64
  assumes "L \<le> 7"
  shows "unat (ucast (((x div 4096) AND (push_bit L 1 - 1)) + 1) :: u32) = stripe_of L (unat x)"
proof -
  let ?m = "(x div 4096) AND (push_bit L 1 - 1)"
  have m: "unat ?m = unat x div 4096 mod 2 ^ L" unfolding unat_and_mask by (simp add: unat_div)
  have "unat x div 4096 mod 2 ^ L < 2 ^ L" by simp
  then have b: "unat x div 4096 mod 2 ^ L < 128" using power_seven [OF assms] by linarith
  then have "unat (?m + 1) = unat x div 4096 mod 2 ^ L + 1"
    using m by (subst unat_add_no_overflow) simp_all
  then show ?thesis using b by (simp add: stripe_of_def unsigned_ucast_eq take_bit_eq_mod)
qed

lemma unat_seed:
  fixes L s :: u32
  assumes "unat L \<le> 7" and "0 < unat s" and "unat s \<le> 128"
  shows "unat (push_bit 7 L OR (s - 1)) = unat L * 128 + (unat s - 1)"
proof -
  have s: "unat (s - 1) = unat s - 1" using assms(2) by (subst unat_sub_no_underflow) simp_all
  then have "take_bit 7 (s - 1) = s - 1" using assms(3) by (simp add: word_unat_eq_iff unat_take_bit)
  then have "push_bit 7 L OR (s - 1) = push_bit 7 L + (s - 1)" using push_bit_or_take_bit [of 7 L "s - 1"] by simp
  moreover have "unat (push_bit 7 L) = unat L * 128" using assms(1) by (simp add: unat_push_bit)
  ultimately show ?thesis using s assms by (simp add: unat_add_no_overflow)
qed

lemma unat_log_stripes: "unat (get_pruning_log_stripes seed) = unat seed div 128 mod 8"
proof -
  have "drop_bit 7 seed AND 7 = take_bit 3 (drop_bit 7 seed)" by (simp add: take_bit_eq_mask mask_eq_exp_minus_1)
  then show ?thesis by (simp add: get_pruning_log_stripes_def pruning_constants unat_take_bit unat_drop_bit)
qed

lemma unat_seed_stripe: "unat (seed_stripe seed) = (if seed = 0 then 0 else unat seed mod 128 + 1)"
proof -
  have "seed AND 0x7F = take_bit 7 seed" by (simp add: take_bit_eq_mask mask_eq_exp_minus_1)
  then have "unat (seed AND 0x7F) = unat seed mod 128" by (simp add: unat_take_bit)
  moreover have "unat seed mod 128 < 128" by simp
  ultimately have "unat (1 + (seed AND 0x7F)) = unat seed mod 128 + 1"
    by (subst unat_add_no_overflow) simp_all
  then show ?thesis by (simp add: seed_stripe_def pruning_constants)
qed

section \<open>Seeds\<close>

lemma unat_stripes:
  assumes "L \<le> 7"
  shows "unat (push_bit L 1 :: u64) = 2 ^ L"
proof -
  have "unat (push_bit L 1 :: u64) = 2 ^ L mod 2 ^ 64" unfolding unat_push_bit by simp
  then show ?thesis using power_seven [OF assms] by simp
qed

lemma make_pruning_seed_iff:
  "make_pruning_seed s L = Some seed \<longleftrightarrow>
    unat L \<le> 7 \<and> 0 < unat s \<and> unat s \<le> 2 ^ unat L \<and> unat seed = unat L * 128 + (unat s - 1)"
proof (cases "unat L \<le> 7 \<and> 0 < unat s \<and> unat s \<le> 2 ^ unat L")
  case True
  then have "unat s \<le> 128" using power_seven [of "unat L"] by linarith
  note u = unat_seed [OF _ _ this, of L]
  note p = unat_stripes [of "unat L"]
  have "make_pruning_seed s L = Some (push_bit 7 L OR (s - 1))"
    using True p
    by (simp add: make_pruning_seed_def pruning_constants word_le_nat_alt word_less_nat_alt unat_ucast_up del: push_bit_of_1)
  then show ?thesis using True u by (auto simp: word_unat_eq_iff)
next
  case False
  then show ?thesis
    using unat_stripes [of "unat L"]
    by (auto simp: make_pruning_seed_def pruning_constants word_le_nat_alt word_less_nat_alt unat_ucast_up simp del: push_bit_of_1)
qed

lemma make_pruning_seed_ex:
  assumes "unat L \<le> 7" and "0 < unat s" and "unat s \<le> 2 ^ unat L"
  shows "\<exists>seed. make_pruning_seed s L = Some seed"
proof -
  have "unat s \<le> 128" using assms(3) power_seven [OF assms(1)] by linarith
  then show ?thesis using assms unat_seed [OF assms(1,2)] unfolding make_pruning_seed_iff by blast
qed

lemma seed_parts:
  assumes "make_pruning_seed s L = Some seed"
  shows "unat L \<le> 7" and "get_pruning_log_stripes seed = L" and "seed_stripe seed = (if L = 0 then 0 else s)"
    and "0 < unat s" and "unat s \<le> 2 ^ unat L"
proof -
  from assms have *: "unat L \<le> 7" "0 < unat s" "unat s \<le> 2 ^ unat L" "unat seed = unat L * 128 + (unat s - 1)"
    by (simp_all add: make_pruning_seed_iff)
  then have b: "unat s - 1 < 128" using power_seven [of "unat L"] by linarith
  have "unat seed div 128 = unat L" using b unfolding *(4) by simp
  then have l: "unat (get_pruning_log_stripes seed) = unat L" using *(1) by (simp add: unat_log_stripes)
  have "seed = 0 \<longleftrightarrow> L = 0"
    using * by (auto simp: word_unat_eq_iff)
  moreover have "unat seed mod 128 = unat s - 1" using b unfolding *(4) by simp
  ultimately have "unat (seed_stripe seed) = (if L = 0 then 0 else unat s)" using *(2) by (simp add: unat_seed_stripe)
  with l show "get_pruning_log_stripes seed = L" "seed_stripe seed = (if L = 0 then 0 else s)"
    by (auto simp: word_unat_eq_iff)
  show "unat L \<le> 7" "0 < unat s" "unat s \<le> 2 ^ unat L" using * by simp_all
qed

section \<open>Stripes\<close>

text \<open>The next piece that belongs to a stripe, counted in pieces: \<open>r\<close> is the stripe counted from 0.\<close>

lemma next_piece:
  fixes q N r :: nat
  assumes "r < N" and "q mod N \<noteq> r"
  defines "t \<equiv> (q div N + (if q mod N < r then 0 else 1)) * N + r"
  shows "q < t" and "t mod N = r" and "\<And>p. q \<le> p \<Longrightarrow> p < t \<Longrightarrow> p mod N \<noteq> r" and "t < q + N"
proof -
  have q: "q = q div N * N + q mod N" by simp
  have m: "q mod N < N" using assms(1) by simp
  show "t mod N = r" using assms(1) by (simp add: t_def)
  have t: "t = (if q mod N < r then q div N * N + r else q div N * N + N + r)" by (simp add: t_def algebra_simps)
  show "q < t" and gap: "t < q + N" using assms(1,2) m q unfolding t by (split if_split, linarith)+
  fix p assume p: "q \<le> p" "p < t"
  show "p mod N \<noteq> r"
  proof
    assume "p mod N = r"
    then have "N dvd t - p" using \<open>t mod N = r\<close> p(2) by (metis less_imp_le mod_eq_dvd_iff_nat)
    moreover have "0 < t - p" "t - p < N" using p gap by linarith+
    ultimately show False using nat_dvd_not_less by blast
  qed
qed

lemma piece_bounds: "h div 4096 < q \<longleftrightarrow> h < 4096 * q" for h q :: nat
  by (simp add: div_less_iff_less_mult mult.commute)

lemma has_unpruned_block_iff:
  assumes "make_pruning_seed s L = Some seed" and "unat h + 5500 < 2 ^ 64"
  shows "has_unpruned_block h n seed \<longleftrightarrow> L = 0 \<or> keeps (unat L) (unat s) (unat n) (unat h)"
proof -
  note p = seed_parts [OF assms(1)]
  have t: "h + 5500 \<ge> n \<longleftrightarrow> unat n \<le> unat h + 5500"
    using assms(2) by (simp add: word_le_nat_alt unat_add_no_overflow)
  have "unat (get_pruning_stripe h n L) = (if unat n \<le> unat h + 5500 then 0 else stripe_of (unat L) (unat h))"
    using unat_stripe [OF p(1), of h] t by (simp add: get_pruning_stripe_def pruning_constants)
  then show ?thesis
    unfolding has_unpruned_block_def Let_def p(2,3) keeps_def using p(4)
    by (auto simp: word_unat_eq_iff stripe_of_def split: if_splits)
qed

text \<open>A node with the seed of a height keeps the block of that height.\<close>

lemma get_pruning_seed_keeps:
  assumes "unat L \<le> 7" and "unat h + 5500 < 2 ^ 64"
  shows "\<exists>seed. get_pruning_seed h n L = Some seed \<and> has_unpruned_block h n seed"
proof (cases "get_pruning_stripe h n L = 0")
  case True
  then show ?thesis by (simp add: get_pruning_seed_def has_unpruned_block_def seed_stripe_def)
next
  case False
  then have s: "unat (get_pruning_stripe h n L) = stripe_of (unat L) (unat h)"
    using unat_stripe [OF assms(1), of h] by (simp add: get_pruning_stripe_def pruning_constants split: if_splits)
  have "stripe_of (unat L) (unat h) \<le> 2 ^ unat L" by (simp add: stripe_of_def Suc_le_eq)
  then obtain seed where seed: "make_pruning_seed (get_pruning_stripe h n L) L = Some seed"
    using make_pruning_seed_ex [OF assms(1), of "get_pruning_stripe h n L"] s by (auto simp: stripe_of_def)
  then have "has_unpruned_block h n seed"
    using has_unpruned_block_iff [OF seed assms(2)] s by (simp add: keeps_def)
  then show ?thesis using False seed by (simp add: get_pruning_seed_def)
qed

text \<open>The stripe of a new node is one that a seed can hold.\<close>

lemma get_random_stripe_seed: "\<exists>seed. make_pruning_seed (get_random_stripe rand) CRYPTONOTE_PRUNING_LOG_STRIPES = Some seed"
proof (rule make_pruning_seed_ex)
  have "unat (ucast rand mod (8 :: u64)) < 8" by (simp add: unat_mod)
  moreover from this have "unat (1 + ucast rand mod (8 :: u64)) = 1 + unat (ucast rand mod (8 :: u64))"
    by (subst unat_add_no_overflow) simp_all
  ultimately have "unat (get_random_stripe rand) = 1 + unat (ucast rand mod (8 :: u64))"
    and "unat (ucast rand mod (8 :: u64)) < 8"
    by (simp_all add: get_random_stripe_def pruning_constants unsigned_ucast_eq take_bit_eq_mod)
  then show "0 < unat (get_random_stripe rand)" "unat (get_random_stripe rand) \<le> 2 ^ unat CRYPTONOTE_PRUNING_LOG_STRIPES"
    by (simp_all add: pruning_constants)
qed (simp add: pruning_constants)

section \<open>The searches\<close>

text \<open>The first block of the next piece of stripe \<open>s\<close>, after a height of another stripe.\<close>

definition next_start :: "nat \<Rightarrow> nat \<Rightarrow> nat \<Rightarrow> nat" where
  "next_start L s h =
    (let q = h div 4096 in 4096 * ((q div 2 ^ L + (if q mod 2 ^ L < s - 1 then 0 else 1)) * 2 ^ L + (s - 1)))"

lemma next_start_facts:
  assumes "0 < s" and "s \<le> 2 ^ L" and "stripe_of L h \<noteq> s"
  shows "h < next_start L s h" and "stripe_of L (next_start L s h) = s"
    and "\<And>k. h \<le> k \<Longrightarrow> k < next_start L s h \<Longrightarrow> stripe_of L k \<noteq> s" and "next_start L s h < h + 4096 * 2 ^ L"
proof -
  have r: "s - 1 < 2 ^ L" and m: "h div 4096 mod 2 ^ L \<noteq> s - 1" using assms by (auto simp: stripe_of_def)
  note n = next_piece [OF r m]
  show "h < next_start L s h" using n(1) by (simp add: next_start_def Let_def piece_bounds)
  show "stripe_of L (next_start L s h) = s" using n(2) assms(1) by (simp add: next_start_def Let_def stripe_of_def)
  have "4096 * (h div 4096) \<le> h" by simp
  then have "4096 * t < h + 4096 * 2 ^ L" if "t < h div 4096 + 2 ^ L" for t using that by linarith
  from this [OF n(4)] show "next_start L s h < h + 4096 * 2 ^ L" unfolding next_start_def Let_def .
  show "stripe_of L k \<noteq> s" if "h \<le> k" "k < next_start L s h" for k
    using n(3) [of "k div 4096"] that assms(1) by (auto simp: next_start_def Let_def stripe_of_def piece_bounds div_le_mono)
qed

lemma unat_next_start:
  fixes x :: u64 and s b :: u32
  assumes "L \<le> 7" and "0 < unat s" and "unat s \<le> 2 ^ L" and "unat x \<le> 500000001" and "unat b = stripe_of L (unat x)"
    and "b \<noteq> s"
  shows "unat ((drop_bit L (x div 4096) + (if s > b then 0 else 1)) * push_bit L 4096 + ucast ((s - 1) * ucast (4096 :: u64)))
    = next_start L (unat s) (unat x)"
proof -
  let ?q = "unat x div 4096" and ?c = "drop_bit L (x div 4096) + (if s > b then 0 else 1)"
  have e: "unat s - 1 < 128" using power_seven [OF assms(1)] assms(3) by linarith
  have d: "unat (drop_bit L (x div 4096)) = ?q div 2 ^ L" by (simp add: unat_drop_bit unat_div)
  have "?q \<le> 122070" using div_le_mono [OF assms(4), of 4096] by simp
  with div_le_dividend [of ?q "2 ^ L"] have b: "?q div 2 ^ L \<le> 122071" by linarith
  have o: "s > b \<longleftrightarrow> ?q mod 2 ^ L < unat s - 1"
    using assms(5) by (auto simp: word_less_nat_alt stripe_of_def)
  have c: "unat ?c = ?q div 2 ^ L + (if ?q mod 2 ^ L < unat s - 1 then 0 else 1)"
    unfolding o using d b by (subst unat_add_no_overflow) auto
  have cb: "unat ?c \<le> 122072" unfolding c using b by simp
  have p: "unat (push_bit L 4096 :: u64) = 4096 * 2 ^ L" using power_seven [OF assms(1)] by (simp add: unat_push_bit)
  have "unat (s - 1) = unat s - 1" using assms(2) by (subst unat_sub_no_underflow) simp_all
  then have "unat ((s - 1) * ucast (4096 :: u64)) = (unat s - 1) * 4096"
    using e by (subst unat_mult_no_overflow) simp_all
  then have u: "unat (ucast ((s - 1) * ucast (4096 :: u64)) :: u64) = (unat s - 1) * 4096"
    by (subst unat_ucast_up) simp_all
  have "unat ?c * (4096 * 2 ^ L) \<le> 122072 * (4096 * 128)" using cb power_seven [OF assms(1)] by (intro mult_le_mono) simp_all
  then have cl: "unat ?c * (4096 * 2 ^ L) < 2 ^ 63" by (rule order.strict_trans1) simp
  have el: "(unat s - 1) * 4096 < 2 ^ 63" using e by simp
  have m: "unat (?c * push_bit L 4096) = unat ?c * (4096 * 2 ^ L)"
    using add_less_power64 [OF cl, of 0]
    by (subst unat_mult_no_overflow) (simp_all only: p length_64 add_0_right zero_less_power zero_less_numeral simp_thms)
  have "unat (?c * push_bit L 4096 + ucast ((s - 1) * ucast (4096 :: u64))) = unat ?c * (4096 * 2 ^ L) + (unat s - 1) * 4096"
    by (subst unat_add_no_overflow) (simp_all only: m u length_64 add_less_power64 [OF cl el])
  then show ?thesis unfolding c next_start_def Let_def by (simp only: algebra_simps)
qed

lemma next_unpruned_eq:
  assumes "make_pruning_seed s L = Some seed" and "L \<noteq> 0" and "unat x \<le> 500000001" and "unat n \<le> 500000001"
  shows "unat (get_next_unpruned_block_height x n seed) =
    (if keeps (unat L) (unat s) (unat n) (unat x) then unat x else min (next_start (unat L) (unat s) (unat x)) (unat n - 5500))"
proof -
  note p = seed_parts [OF assms(1)]
  let ?b = "ucast (((x div 4096) AND (push_bit (unat L) 1 - 1)) + 1) :: u32"
  let ?h = "(drop_bit (unat L) (x div 4096) + (if s > ?b then 0 else 1)) * push_bit (unat L) 4096
    + ucast ((s - 1) * ucast (4096 :: u64))"
  have b: "unat ?b = stripe_of (unat L) (unat x)" using p(1) by (rule unat_stripe)
  have tip: "x + 5500 \<ge> n \<longleftrightarrow> unat n \<le> unat x + 5500"
    using assms(3) by (simp add: word_le_nat_alt unat_add_no_overflow)
  have k: "?b = s \<longleftrightarrow> stripe_of (unat L) (unat x) = unat s" using b by (simp add: word_unat_eq_iff)
  have s0: "s \<noteq> 0" using p(4) by auto
  have range: "x \<le> 500000000 + 1" "n \<le> 500000000 + 1" using assms(3,4) by (simp_all add: word_le_nat_alt)
  have code: "get_next_unpruned_block_height x n seed =
    (if x + 5500 \<ge> n then x else if ?b = s then x
     else if ?h + 5500 > n then (if n < 5500 then 0 else n - 5500) else if \<not> ?h \<ge> x then x else ?h)"
    unfolding get_next_unpruned_block_height_def pruning_constants Let_def p(2,3)
    using assms(2) s0 range by (simp only: if_False if_True not_False_eq_True simp_thms)
  show ?thesis
  proof (cases "keeps (unat L) (unat s) (unat n) (unat x)")
    case True
    then have "get_next_unpruned_block_height x n seed = x"
      unfolding code using tip k by (auto simp only: keeps_def if_True if_False simp_thms split: if_split)
    then show ?thesis using True by simp
  next
    case False
    then have o: "\<not> x + 5500 \<ge> n" "?b \<noteq> s" "unat x + 5500 < unat n" "stripe_of (unat L) (unat x) \<noteq> unat s"
      using tip k by (auto simp: keeps_def)
    note f = next_start_facts [OF p(4,5) o(4)]
    have h: "unat ?h = next_start (unat L) (unat s) (unat x)"
      using unat_next_start [OF p(1,4,5) assms(3) b o(2)] .
    have "next_start (unat L) (unat s) (unat x) < 501024290"
      using f(4) assms(3) power_seven [OF p(1)] by linarith
    then have a: "unat (?h + 5500) = unat ?h + 5500" using h by (subst unat_add_no_overflow) simp_all
    have "unat (n - 5500) = unat n - 5500" using o(3) by (subst unat_sub_no_underflow) simp_all
    moreover have "\<not> n < 5500" using o(3) by (simp add: word_less_nat_alt)
    moreover have "?h \<ge> x" using f(1) h by (simp add: word_le_nat_alt)
    moreover have "?h + 5500 > n \<longleftrightarrow> unat n < unat ?h + 5500" using a by (simp add: word_less_nat_alt)
    ultimately show ?thesis
      unfolding code using False o(1,2) h by (auto simp only: if_True if_False simp_thms min_def split: if_split)
  qed
qed

text \<open>After a height of stripe \<open>s\<close>, the stripe that comes next starts with the next piece.\<close>

lemma next_stripe_start:
  assumes "0 < s" and "s \<le> 2 ^ L" and "0 < L" and "stripe_of L h = s"
  shows "stripe_of L h \<noteq> s mod 2 ^ L + 1" and "h \<le> k \<Longrightarrow> k < next_start L (s mod 2 ^ L + 1) h \<Longrightarrow> stripe_of L k = s"
proof -
  let ?q = "h div 4096"
  have q: "?q mod 2 ^ L = s - 1" using assms(4) by (auto simp: stripe_of_def)
  have "(2 :: nat) ^ 1 \<le> 2 ^ L" using assms(3) by (intro power_increasing) simp_all
  then show ne: "stripe_of L h \<noteq> s mod 2 ^ L + 1"
    using assms by (cases "s = 2 ^ L") simp_all
  assume k: "h \<le> k" "k < next_start L (s mod 2 ^ L + 1) h"
  have "(?q + 1) mod 2 ^ L = s mod 2 ^ L" using q assms(1) by (metis Suc_eq_plus1 Suc_pred' mod_Suc_eq)
  then have "stripe_of L (4096 * (?q + 1)) = s mod 2 ^ L + 1" by (simp add: stripe_of_def)
  moreover have "h \<le> 4096 * (?q + 1)" by (simp add: less_imp_le flip: piece_bounds)
  moreover have "s mod 2 ^ L + 1 \<le> 2 ^ L" by (simp add: Suc_le_eq)
  ultimately have "\<not> 4096 * (?q + 1) < next_start L (s mod 2 ^ L + 1) h"
    using next_start_facts(3) [OF _ _ ne, of "4096 * (?q + 1)"] by auto
  then have "k div 4096 < ?q + 1" using k(2) unfolding piece_bounds by linarith
  then have "k div 4096 = ?q" using div_le_mono [OF k(1), of 4096] by linarith
  then show "stripe_of L k = s" using assms(4) by (simp add: stripe_of_def)
qed

lemma next_pruned_eq:
  assumes "make_pruning_seed s L = Some seed" and "L \<noteq> 0" and "unat x \<le> 500000001" and "unat n \<le> 500000001"
  shows "map_option unat (get_next_pruned_block_height x n seed) = Some
    (if unat n \<le> unat x + 5500 then unat n
     else if stripe_of (unat L) (unat x) \<noteq> unat s then unat x
     else min (next_start (unat L) (unat s mod 2 ^ unat L + 1) (unat x)) (unat n - 5500))"
proof -
  note p = seed_parts [OF assms(1)]
  let ?b = "ucast (((x div 4096) AND (push_bit (unat L) 1 - 1)) + 1) :: u32"
  let ?t = "ucast (1 + (ucast ?b AND (push_bit (unat L) 1 - 1) :: u64)) :: u32"
  have b: "unat ?b = stripe_of (unat L) (unat x)" using p(1) by (rule unat_stripe)
  have tip: "x + 5500 \<ge> n \<longleftrightarrow> unat n \<le> unat x + 5500"
    using assms(3) by (simp add: word_le_nat_alt unat_add_no_overflow)
  have k: "?b = s \<longleftrightarrow> stripe_of (unat L) (unat x) = unat s" using b by (simp add: word_unat_eq_iff)
  have s0: "s \<noteq> 0" using p(4) by auto
  have code: "get_next_pruned_block_height x n seed =
    (if x + 5500 \<ge> n then Some n else if ?b \<noteq> s then Some x
     else map_option (get_next_unpruned_block_height x n) (make_pruning_seed ?t L))"
    unfolding get_next_pruned_block_height_def pruning_constants Let_def p(2,3)
    using assms(2) s0 by (simp only: if_False if_True not_False_eq_True simp_thms)
  show ?thesis
  proof (cases "x + 5500 \<ge> n \<or> ?b \<noteq> s")
    case True
    then show ?thesis unfolding code using tip k by auto
  next
    case False
    then have o: "\<not> unat n \<le> unat x + 5500" "stripe_of (unat L) (unat x) = unat s" "?b = s" using tip k by simp_all
    have "unat (ucast s AND (push_bit (unat L) 1 - 1) :: u64) = unat s mod 2 ^ unat L"
      unfolding unat_and_mask by (simp add: unat_ucast_up)
    moreover have m: "unat s mod 2 ^ unat L < 2 ^ unat L" by simp
    moreover have "unat s mod 2 ^ unat L < 128" using m power_seven [OF p(1)] by linarith
    ultimately have t: "unat ?t = unat s mod 2 ^ unat L + 1"
      unfolding o(3) by (simp add: unat_add_no_overflow unsigned_ucast_eq take_bit_eq_mod)
    obtain seed' where s': "make_pruning_seed ?t L = Some seed'"
      using make_pruning_seed_ex [OF p(1), of ?t] t m by (auto simp: Suc_le_eq)
    have "0 < unat L" using assms(2) by (simp add: word_neq_0_conv unat_gt_0)
    then have "\<not> keeps (unat L) (unat ?t) (unat n) (unat x)"
      using next_stripe_start(1) [OF p(4,5) _ o(2)] o(1) t by (simp add: keeps_def)
    then show ?thesis
      using next_unpruned_eq [OF s' assms(2-4)] False s' o(1,2) t unfolding code by simp
  qed
qed

section \<open>Properties\<close>

text \<open>
  C25. The search for the next block of a node with a pruning seed, on the heights that the code admits:
  the height found is at or after the start, the node keeps its block, and it keeps none of the blocks
  before it from the start on. So the closed formula over cycles, stripes and the tip misses nothing.
\<close>

theorem next_unpruned_is_least:
  assumes "make_pruning_seed stripe log_stripes = Some seed"
    and "x \<le> CRYPTONOTE_MAX_BLOCK_NUMBER + 1" and "n \<le> CRYPTONOTE_MAX_BLOCK_NUMBER + 1"
  shows "x \<le> get_next_unpruned_block_height x n seed
    \<and> has_unpruned_block (get_next_unpruned_block_height x n seed) n seed
    \<and> (\<forall>h. x \<le> h \<longrightarrow> h < get_next_unpruned_block_height x n seed \<longrightarrow> \<not> has_unpruned_block h n seed)"
proof (cases "log_stripes = 0")
  case True
  then have "seed_stripe seed = 0" using seed_parts(3) [OF assms(1)] by simp
  then show ?thesis by (simp add: get_next_unpruned_block_height_def has_unpruned_block_def Let_def not_less)
next
  case False
  let ?r = "get_next_unpruned_block_height x n seed" and ?s = "unat stripe" and ?L = "unat log_stripes"
  note p = seed_parts [OF assms(1)]
  have xn: "unat x \<le> 500000001" "unat n \<le> 500000001"
    using assms(2,3) by (simp_all add: word_le_nat_alt pruning_constants)
  note r = next_unpruned_eq [OF assms(1) False xn]
  have rb: "unat ?r \<le> 500000001" using r xn by (simp split: if_splits)
  have kept: "has_unpruned_block h n seed \<longleftrightarrow> keeps ?L ?s (unat n) (unat h)" if "unat h \<le> unat ?r" for h
    using has_unpruned_block_iff [OF assms(1), of h n] False that rb by simp
  have "unat x \<le> unat ?r \<and> keeps ?L ?s (unat n) (unat ?r)
    \<and> (\<forall>k. unat x \<le> k \<longrightarrow> k < unat ?r \<longrightarrow> \<not> keeps ?L ?s (unat n) k)"
    unfolding r using next_start_facts(1-3) [OF p(4,5)] by (auto simp: keeps_def min_def less_imp_le)
  then show ?thesis using kept by (auto simp: word_le_nat_alt word_less_nat_alt)
qed

theorem next_unpruned_is_least_witness:
  "make_pruning_seed 3 3 = Some 386 \<and> has_unpruned_block 8192 100000 386 \<and> \<not> has_unpruned_block 5000 100000 386"
proof -
  have m: "make_pruning_seed 3 3 = Some 386" by (simp add: make_pruning_seed_iff)
  have r: "get_next_unpruned_block_height 5000 100000 386 = 8192" by code_simp
  show ?thesis
    using next_unpruned_is_least [OF m, of 5000 100000] m unfolding r by (simp add: CRYPTONOTE_MAX_BLOCK_NUMBER_def)
qed

text \<open>
  The search for the next block that a node with a pruning seed has dropped never throws; all blocks
  from the start up to the height found are kept, and that height is one of a dropped block or lies in
  the tip of the chain, where nothing is dropped.
\<close>

lemma next_pruned_is_first:
  assumes "make_pruning_seed stripe log_stripes = Some seed" and "log_stripes \<noteq> 0"
    and "x \<le> CRYPTONOTE_MAX_BLOCK_NUMBER + 1" and "n \<le> CRYPTONOTE_MAX_BLOCK_NUMBER + 1"
  shows "\<exists>r. get_next_pruned_block_height x n seed = Some r
    \<and> (\<forall>h. x \<le> h \<longrightarrow> h < r \<longrightarrow> has_unpruned_block h n seed)
    \<and> (n \<le> r + CRYPTONOTE_PRUNING_TIP_BLOCKS \<or> x \<le> r \<and> \<not> has_unpruned_block r n seed)"
proof -
  let ?s = "unat stripe" and ?L = "unat log_stripes" and ?t = "unat stripe mod 2 ^ unat log_stripes + 1"
  note p = seed_parts [OF assms(1)]
  have xn: "unat x \<le> 500000001" "unat n \<le> 500000001"
    using assms(3,4) by (simp_all add: word_le_nat_alt pruning_constants)
  obtain r where r: "get_next_pruned_block_height x n seed = Some r"
    and u: "unat r = (if unat n \<le> unat x + 5500 then unat n
     else if stripe_of ?L (unat x) \<noteq> ?s then unat x else min (next_start ?L ?t (unat x)) (unat n - 5500))"
    using next_pruned_eq [OF assms(1,2) xn] by auto
  have rb: "unat r \<le> 500000001" using u xn by (simp split: if_splits)
  then have tip: "n \<le> r + 5500 \<longleftrightarrow> unat n \<le> unat r + 5500" by (simp add: word_le_nat_alt unat_add_no_overflow)
  have kept: "has_unpruned_block h n seed \<longleftrightarrow> keeps ?L ?s (unat n) (unat h)" if "unat h \<le> unat r" for h
    using has_unpruned_block_iff [OF assms(1), of h n] assms(2) that rb by simp
  have "0 < ?L" using assms(2) by (simp add: word_neq_0_conv unat_gt_0)
  note next_t = next_stripe_start [OF p(4,5) this]
  have t: "0 < ?t" "?t \<le> 2 ^ ?L" by (simp_all add: Suc_le_eq)
  have "(\<forall>k. unat x \<le> k \<longrightarrow> k < unat r \<longrightarrow> keeps ?L ?s (unat n) k)
    \<and> (unat n \<le> unat r + 5500 \<or> unat x \<le> unat r \<and> \<not> keeps ?L ?s (unat n) (unat r))"
  proof (cases "unat n \<le> unat x + 5500 \<or> stripe_of ?L (unat x) \<noteq> ?s")
    case True
    then show ?thesis using u by (auto simp: keeps_def)
  next
    case False
    then have o: "stripe_of ?L (unat x) = ?s" by simp
    note f = next_start_facts(1,2) [OF t next_t(1) [OF o]]
    have "unat r = min (next_start ?L ?t (unat x)) (unat n - 5500)" using u False by simp
    then show ?thesis using f next_t [OF o] o by (auto simp: keeps_def min_def)
  qed
  then show ?thesis using r kept tip by (auto simp: word_le_nat_alt word_less_nat_alt pruning_constants)
qed

lemma next_pruned_is_first_witness:
  "make_pruning_seed 3 3 = Some 386 \<and> get_next_pruned_block_height 9000 100000 386 = Some 12288
    \<and> has_unpruned_block 12287 100000 386 \<and> \<not> has_unpruned_block 12288 100000 386"
proof -
  have m: "make_pruning_seed 3 3 = Some 386" by (simp add: make_pruning_seed_iff)
  have r: "get_next_pruned_block_height 9000 100000 386 = Some 12288" by code_simp
  show ?thesis
    using next_pruned_is_first [OF m, of 9000 100000] m r by (simp add: pruning_constants)
qed

end
