(* ===== verification/Faucet.thy ===== *)
theory Faucet
  imports Address Block_Reward
begin

text \<open>
  The server of the testnet faucet: the route \<open>POST /faucet\<close> of \<open>deploy/faucet/app.js\<close> behind the rate
  limiter, with the wallet RPC it calls. The rate limiter (a package) and the wallet's reply are
  parameters.

  The lemmas show what each request is answered, that coins are only sent to well-formed testnet
  addresses and in the fixed amount, that every address the node prints for the testnet passes the
  check and no address of another network does, and how much one client can obtain.
\<close>

section \<open>Definitions\<close>

text \<open>JavaScript strings are sequences of 16-bit code units.\<close>

type_synonym js_string = "u16 list"

definition js :: "string \<Rightarrow> js_string" where
  "js s = map of_char s"

text \<open>A value of the parsed body; of a number only whether it is zero is read.\<close>

datatype js_value = Undefined | Null | Boolean bool | Number (is_zero: bool) | String js_string | Object

fun truthy :: "js_value \<Rightarrow> bool" where
  "truthy Undefined = False"
| "truthy Null = False"
| "truthy (Boolean b) = b"
| "truthy (Number z) = (\<not> z)"
| "truthy (String s) = (s \<noteq> [])"
| "truthy Object = True"

fun typeof_string :: "js_value \<Rightarrow> bool" where
  "typeof_string (String s) = True"
| "typeof_string _ = False"

fun string_of :: "js_value \<Rightarrow> js_string" where
  "string_of (String s) = s"
| "string_of _ = []"

text \<open>The parsed JSON body, as the lookup of a property by name.\<close>

type_synonym js_object = "string \<Rightarrow> js_value"

record transfer =
  t_amount :: nat
  t_address :: js_string
  t_ring_size :: nat

text \<open>
  What awaiting the wallet comes to: \<open>fetch\<close> or \<open>json\<close> rejects, the reply has an \<open>error\<close> (with its
  message), it has a \<open>result\<close> (with its transaction hash), or it has neither.
\<close>

datatype rpc_outcome = Rpc_Throws | Rpc_Error js_string | Rpc_Result js_string | Rpc_No_Result

record response =
  status :: nat
  r_message :: "js_string option"
  r_error :: "js_string option"

definition json_error :: "nat \<Rightarrow> js_string \<Rightarrow> response" where
  "json_error st e = \<lparr>status = st, r_message = None, r_error = Some e\<rparr>"

definition faucet_amount :: nat where "faucet_amount = 1000000000"

text \<open>The handler of the route: the response, and the transfers it asked the wallet for.\<close>

definition faucet_handler :: "(transfer \<Rightarrow> rpc_outcome) \<Rightarrow> js_object \<Rightarrow> response \<times> transfer list" where
  "faucet_handler wallet body =
    (let address = body ''address''
     in if \<not> truthy address \<or> \<not> typeof_string address
        then (json_error 400 (js ''Address is required.''), [])
        else if \<not> (take 1 (string_of address) = js ''M'') \<or> length (string_of address) < 90
        then (json_error 400 (js ''Invalid Testnet address. (Must start with M)''), [])
        else
          let t = \<lparr>t_amount = faucet_amount, t_address = string_of address, t_ring_size = 16\<rparr>
          in (case wallet t of
                Rpc_Error message \<Rightarrow> json_error 500 (js ''Internal Faucet Wallet Error: '' @ message)
              | Rpc_Result tx_hash \<Rightarrow>
                  \<lparr>status = 200, r_message = Some (js ''Success! 10 LODE sent. TX Hash: '' @ tx_hash), r_error = None\<rparr>
              | Rpc_Throws \<Rightarrow> json_error 500 (js ''Failed to connect to Faucet Wallet RPC.'')
              | Rpc_No_Result \<Rightarrow> json_error 500 (js ''Failed to connect to Faucet Wallet RPC.''), [t]))"

definition windowMs :: nat where "windowMs = 24 * 60 * 60 * 1000"
definition limiter_max :: nat where "limiter_max = 1"

text \<open>
  A request as the route sees it: the client's address (the key of the limiter), the time, and the
  body. The limiter decides from its store whether the request passes; otherwise it answers itself.
\<close>

record request =
  ip :: nat
  time :: nat
  req_body :: js_object

type_synonym 's limiter = "'s \<Rightarrow> nat \<Rightarrow> nat \<Rightarrow> bool \<times> 's"

definition post_faucet ::
  "'s limiter \<Rightarrow> (transfer \<Rightarrow> rpc_outcome) \<Rightarrow> 's \<Rightarrow> request \<Rightarrow> (response \<times> transfer list) \<times> 's" where
  "post_faucet limiter wallet store req =
    (let (pass, store) = limiter store (ip req) (time req)
     in if pass then (faucet_handler wallet (req_body req), store)
        else ((json_error 429 (js ''You have already requested LODE today. Please try again tomorrow.''), []), store))"

text \<open>A history of requests: each with the response and the transfers it caused.\<close>

fun serve :: "'s limiter \<Rightarrow> (transfer \<Rightarrow> rpc_outcome) \<Rightarrow> 's \<Rightarrow> request list \<Rightarrow> (request \<times> response \<times> transfer list) list" where
  "serve limiter wallet store [] = []"
| "serve limiter wallet store (req # reqs) =
    (let ((r, ts), store) = post_faucet limiter wallet store req
     in (req, r, ts) # serve limiter wallet store reqs)"

text \<open>
  What is relied on of the limiter: it passes at most \<open>max\<close> requests of a client in each window of
  time, \<open>win\<close> being the number of the window a time falls into.
\<close>

fun passes :: "'s limiter \<Rightarrow> 's \<Rightarrow> request list \<Rightarrow> request list" where
  "passes limiter store [] = []"
| "passes limiter store (req # reqs) =
    (let (pass, store) = limiter store (ip req) (time req)
     in (if pass then [req] else []) @ passes limiter store reqs)"

definition limits_per_window :: "'s limiter \<Rightarrow> 's \<Rightarrow> (nat \<Rightarrow> nat) \<Rightarrow> bool" where
  "limits_per_window limiter store win \<longleftrightarrow>
    (\<forall>reqs client w. length (filter (\<lambda>r. ip r = client \<and> win (time r) = w) (passes limiter store reqs)) \<le> limiter_max)"

text \<open>The amount sent because of the requests of a client in a window.\<close>

definition payout :: "(nat \<Rightarrow> nat) \<Rightarrow> nat \<Rightarrow> nat \<Rightarrow> (request \<times> response \<times> transfer list) list \<Rightarrow> nat" where
  "payout win client w h =
    sum_list (map (\<lambda>(req, r, ts). if ip req = client \<and> win (time req) = w then sum_list (map t_amount ts) else 0) h)"

text \<open>A limiter of this kind: it remembers which clients it let pass in which window.\<close>

definition fixed_window :: "(nat \<times> nat) list limiter" where
  "fixed_window store client t =
    (if (client, t div windowMs) \<in> set store then (False, store) else (True, (client, t div windowMs) # store))"

section \<open>The handler\<close>

definition valid_faucet_address :: "js_value \<Rightarrow> bool" where
  "valid_faucet_address v \<longleftrightarrow> (\<exists>s. v = String s \<and> take 1 s = js ''M'' \<and> 90 \<le> length s)"

lemma handler_transfers:
  "snd (faucet_handler wallet body) =
    (if valid_faucet_address (body ''address'')
     then [\<lparr>t_amount = faucet_amount, t_address = string_of (body ''address''), t_ring_size = 16\<rparr>] else [])"
  by (cases "body ''address''") (auto simp: faucet_handler_def valid_faucet_address_def js_def Let_def)

lemma handler_status:
  "status (fst (faucet_handler wallet body)) =
    (if \<not> valid_faucet_address (body ''address'') then 400
     else case wallet \<lparr>t_amount = faucet_amount, t_address = string_of (body ''address''), t_ring_size = 16\<rparr> of
       Rpc_Result h \<Rightarrow> 200 | _ \<Rightarrow> 500)"
  by (cases "body ''address''")
    (auto simp: faucet_handler_def valid_faucet_address_def js_def json_error_def Let_def split: rpc_outcome.split)

lemma handler_body:
  "(r_message (fst (faucet_handler wallet body)) \<noteq> None) = (status (fst (faucet_handler wallet body)) = 200)"
  by (auto simp: faucet_handler_def json_error_def Let_def split: rpc_outcome.split)

lemma serve_transfers:
  assumes "(req, r, ts) \<in> set (serve limiter wallet store reqs)"
  shows "ts \<in> {[], [\<lparr>t_amount = faucet_amount, t_address = string_of (req_body req ''address''), t_ring_size = 16\<rparr>]}"
  using assms
  by (induction reqs arbitrary: store)
    (auto simp: post_faucet_def handler_transfers split: prod.splits if_splits dest!: arg_cong [of _ _ snd])

section \<open>Payouts\<close>

lemma payout_passes:
  "payout win client w (serve limiter wallet store reqs)
    \<le> faucet_amount * length (filter (\<lambda>r. ip r = client \<and> win (time r) = w) (passes limiter store reqs))"
proof (induction reqs arbitrary: store)
  case (Cons req reqs)
  obtain pass store' where l: "limiter store (ip req) (time req) = (pass, store')" by fastforce
  have "sum_list (map t_amount (snd (faucet_handler wallet (req_body req)))) \<le> faucet_amount"
    by (simp add: handler_transfers)
  with Cons.IH [of store'] show ?case
    by (auto simp: payout_def post_faucet_def l split: prod.split)
qed (simp add: payout_def)

lemma fixed_window_passes:
  "distinct (map (\<lambda>r. (ip r, time r div windowMs)) (passes fixed_window store reqs))
    \<and> set store \<inter> (\<lambda>r. (ip r, time r div windowMs)) ` set (passes fixed_window store reqs) = {}"
proof (induction reqs arbitrary: store)
  case (Cons req reqs)
  show ?case
    using Cons.IH [of store] Cons.IH [of "(ip req, time req div windowMs) # store"]
    by (auto simp: fixed_window_def)
qed simp

lemma fixed_window_limits: "limits_per_window fixed_window [] (\<lambda>t. t div windowMs)"
  unfolding limits_per_window_def limiter_max_def
proof (intro allI)
  fix reqs client w
  let ?k = "\<lambda>r. (ip r, time r div windowMs)"
  let ?f = "filter (\<lambda>r. ip r = client \<and> time r div windowMs = w) (passes fixed_window [] reqs)"
  have "distinct (map ?k (passes fixed_window [] reqs))" using fixed_window_passes by blast
  then have "distinct (map ?k ?f)" by (rule distinct_map_filter)
  then have "length ?f = card (set (map ?k ?f))" using distinct_card [of "map ?k ?f"] by simp
  also have "\<dots> \<le> card {(client, w)}" by (rule card_mono) auto
  finally show "length ?f \<le> 1" by simp
qed

section \<open>Addresses\<close>

lemma leading_letter:
  assumes "8 \<le> length (b # data)" and "58 ^ 10 * lo \<le> unat b * 256 ^ 7" and "(unat b + 1) * 256 ^ 7 \<le> 58 ^ 10 * Suc hi"
    and "hi < 58"
  shows "hd (base58_text (b # data)) \<in> (!) alphabet ` {lo..hi}"
proof -
  let ?d = "be_nat (take 8 (b # data)) div 58 ^ 10"
  have "lo \<le> ?d"
    using order.trans [OF assms(2) be_nat_leading(1) [OF assms(1)]] by (simp add: less_eq_div_iff_mult_less_eq mult.commute)
  moreover have "?d < Suc hi"
    using order.strict_trans2 [OF be_nat_leading(2) [OF assms(1)] assms(3)]
    by (intro less_mult_imp_div_less) (simp add: mult.commute)
  ultimately show ?thesis unfolding hd_base58_text [OF assms(1)] using assms(4) by simp
qed

lemma addr_text_cons:
  assumes "encode_addr tag data = Some s" and "get_varint_data tag = b # v"
  shows "s = base58_text (b # v @ data @ take 4 (cn_fast_hash (b # v @ data)))"
  using assms by (simp add: encode_addr_text)

lemma faucet_address_letter:
  assumes "encode_addr tag data = Some s" and "get_varint_data tag = b # v" and "length data \<in> {64, 72}"
    and "58 ^ 10 * lo \<le> unat b * 256 ^ 7" and "(unat b + 1) * 256 ^ 7 \<le> 58 ^ 10 * Suc hi" and "hi < 58"
  shows "s \<noteq> []" and "hd s \<in> (!) alphabet ` {lo..hi}" and "90 \<le> length s"
proof -
  let ?t = "v @ data @ take 4 (cn_fast_hash (b # v @ data))"
  note s = addr_text_cons [OF assms(1,2)]
  have len: "68 \<le> length ?t" using assms(3) by (auto simp: length_cn_fast_hash)
  then show "hd s \<in> (!) alphabet ` {lo..hi}" unfolding s using assms(4-6) by (intro leading_letter) simp_all
  have "8 \<le> length (b # ?t) div 8" using len by (simp add: less_eq_div_iff_mult_less_eq)
  have "90 \<le> length (base58_text (b # ?t))"
  proof (cases "9 \<le> length (b # ?t) div 8")
    case True
    then show ?thesis unfolding length_base58_text by linarith
  next
    case False
    with \<open>8 \<le> _\<close> have q: "length (b # ?t) div 8 = 8" by linarith
    then have "5 \<le> length (b # ?t) mod 8" using len div_mult_mod_eq [of "length (b # ?t)" 8] by simp
    moreover have "length (b # ?t) mod 8 < 8" by simp
    ultimately have "length (b # ?t) mod 8 \<in> {5, 6, 7}" by (simp only: insert_iff) linarith
    then have "7 \<le> encoded_block_sizes ! (length (b # ?t) mod 8)" by (auto simp: encoded_block_sizes_def)
    then show ?thesis unfolding length_base58_text q by linarith
  qed
  then show "90 \<le> length s" "s \<noteq> []" unfolding s by auto
qed

lemma prefix_bytes:
  "get_varint_data (110 :: u64) = [110]" "get_varint_data (111 :: u64) = [111]" "get_varint_data (112 :: u64) = [112]"
  "get_varint_data (120 :: u64) = [120]" "get_varint_data (121 :: u64) = [121]" "get_varint_data (122 :: u64) = [122]"
  by (simp_all add: one_byte_prefix)

lemma prefix_bytes_stagenet:
  "get_varint_data (130 :: u64) = [130, 1]" "get_varint_data (131 :: u64) = [131, 1]" "get_varint_data (132 :: u64) = [132, 1]"
  by (simp_all add: get_varint_data_def write_varint.simps)

lemma js_first: "s \<noteq> [] \<Longrightarrow> take 1 (js s) = js [hd s]"
  by (cases s) (simp_all add: js_def)

lemma letters: "alphabet ! 18 = CHR ''K''" "alphabet ! 20 = CHR ''M''" "alphabet ! 21 = CHR ''N''" "alphabet ! 22 = CHR ''P''"
  by (simp_all add: alphabet_def)

lemma js_letter: "js [c] = js ''M'' \<longleftrightarrow> c = CHR ''M''"
proof
  assume "js [c] = js ''M''"
  then have "(of_char c :: u16) = of_char (CHR ''M'')" by (simp add: js_def)
  then have "unat (of_nat (of_char c) :: u16) = unat (of_nat (of_char (CHR ''M'')) :: u16)"
    by (simp only: of_nat_of_char)
  then have "of_char c = (of_char (CHR ''M'') :: nat)"
    using nat_of_char_less_256 [of c] by (simp add: unat_of_nat)
  then show "c = CHR ''M''" by (simp only: of_char_eq_iff)
qed simp

text \<open>The first byte of an address of each network, and the letter it leads to.\<close>

lemma networks_distinct: "mainnet \<noteq> testnet" "stagenet \<noteq> testnet" "stagenet \<noteq> mainnet"
proof -
  have "CRYPTONOTE_PUBLIC_ADDRESS_BASE58_PREFIX mainnet \<noteq> CRYPTONOTE_PUBLIC_ADDRESS_BASE58_PREFIX testnet"
    "CRYPTONOTE_PUBLIC_ADDRESS_BASE58_PREFIX stagenet \<noteq> CRYPTONOTE_PUBLIC_ADDRESS_BASE58_PREFIX testnet"
    "CRYPTONOTE_PUBLIC_ADDRESS_BASE58_PREFIX stagenet \<noteq> CRYPTONOTE_PUBLIC_ADDRESS_BASE58_PREFIX mainnet"
    by (simp_all add: prefix_values)
  then show "mainnet \<noteq> testnet" "stagenet \<noteq> testnet" "stagenet \<noteq> mainnet" by auto
qed

definition network_digits :: "config_t \<Rightarrow> nat \<times> nat" where
  "network_digits c = (if c = testnet then (20, 20) else if c = mainnet then (18, 18) else (21, 22))"

lemma prefix_digit:
  assumes "get_config net = Some c" and "tag \<in> prefixes c"
  shows "\<exists>b v. get_varint_data tag = b # v \<and> 58 ^ 10 * fst (network_digits c) \<le> unat b * 256 ^ 7
    \<and> (unat b + 1) * 256 ^ 7 \<le> 58 ^ 10 * Suc (snd (network_digits c))"
  using config_cases [OF assms(1)] assms(2) networks_distinct
  by (auto simp: prefixes_def prefix_values prefix_bytes prefix_bytes_stagenet network_digits_def)

lemma network_letter:
  assumes "get_config net = Some c" and "tag \<in> prefixes c" and "encode_addr tag data = Some s" and "length data \<in> {64, 72}"
  shows "90 \<le> length s" and "take 1 (js s) = js [hd s]" and "hd s \<in> (!) alphabet ` {fst (network_digits c)..snd (network_digits c)}"
proof -
  obtain b v where v: "get_varint_data tag = b # v" and d: "58 ^ 10 * fst (network_digits c) \<le> unat b * 256 ^ 7"
    "(unat b + 1) * 256 ^ 7 \<le> 58 ^ 10 * Suc (snd (network_digits c))"
    using prefix_digit [OF assms(1,2)] by blast
  have "snd (network_digits c) < 58" by (simp add: network_digits_def)
  note l = faucet_address_letter [OF assms(3) v assms(4) d this]
  show "90 \<le> length s" "hd s \<in> (!) alphabet ` {fst (network_digits c)..snd (network_digits c)}" by (rule l(3), rule l(2))
  show "take 1 (js s) = js [hd s]" using l(1) by (rule js_first)
qed

lemma digits_21_22: "{21..22 :: nat} = {21, 22}"
  by auto

lemma faucet_accepts:
  assumes "get_config net = Some c" and "tag \<in> prefixes c" and "encode_addr tag data = Some s" and "length data \<in> {64, 72}"
  shows "valid_faucet_address (String (js s)) \<longleftrightarrow> c = testnet"
proof -
  have "valid_faucet_address (String (js s)) \<longleftrightarrow> js [hd s] = js ''M''"
    using network_letter(1,2) [OF assms] by (auto simp: valid_faucet_address_def js_def)
  also have "\<dots> \<longleftrightarrow> hd s = CHR ''M''" by (rule js_letter)
  also have "\<dots> \<longleftrightarrow> c = testnet"
    using network_letter(3) [OF assms] by (auto simp: network_digits_def letters digits_21_22 split: if_splits)
  finally show ?thesis .
qed

lemma address_tag:
  assumes "get_account_address_as_str net sub adr = Some s \<or> get_account_integrated_address_as_str net adr pid = Some s"
    and "wf_address adr" and "length pid = 8"
  obtains c tag data where "get_config net = Some c" and "tag \<in> prefixes c" and "encode_addr tag data = Some s"
    and "length data \<in> {64, 72}"
proof -
  have 64: "length (address_blob adr) = 64" "length (integrated_address_blob adr pid) = 72"
    using length_address_blob [OF assms(2)] assms(3) by (simp_all add: integrated_address_blob_def)
  obtain c where c: "get_config net = Some c"
    using assms(1) by (auto simp: get_account_address_as_str_def get_account_integrated_address_as_str_def split: option.splits)
  show ?thesis
  proof (cases "get_account_address_as_str net sub adr = Some s")
    case True
    then show ?thesis using c 64(1)
      by (intro that [OF c, of "if sub then CRYPTONOTE_PUBLIC_SUBADDRESS_BASE58_PREFIX c
            else CRYPTONOTE_PUBLIC_ADDRESS_BASE58_PREFIX c" "address_blob adr"])
        (auto simp: get_account_address_as_str_def prefixes_def Let_def)
  next
    case False
    then show ?thesis using assms(1) c 64(2)
      by (intro that [OF c, of "CRYPTONOTE_PUBLIC_INTEGRATED_ADDRESS_BASE58_PREFIX c" "integrated_address_blob adr pid"])
        (auto simp: get_account_integrated_address_as_str_def prefixes_def Let_def)
  qed
qed

section \<open>Properties\<close>

text \<open>
  C32. What the faucet answers: for every body, exactly one response. A body whose address is not a
  string of at least 90 characters that starts with M is answered 400 and the wallet is not asked for
  anything; otherwise the wallet is asked once, for 10 coins to that address, and the answer is 200
  with a message if it reports a transaction, and 500 with an error if it reports an error, replies
  without a result, or cannot be reached.
\<close>

theorem faucet_answers:
  "case faucet_handler wallet body of (r, ts) \<Rightarrow>
    if valid_faucet_address (body ''address'')
    then (\<exists>t. ts = [t] \<and> t_amount t = 10 * unat COIN \<and> String (t_address t) = body ''address''
      \<and> status r = (case wallet t of Rpc_Result h \<Rightarrow> 200 | _ \<Rightarrow> 500)
      \<and> (r_message r \<noteq> None) = (status r = 200) \<and> (r_error r = None) = (status r = 200))
    else ts = [] \<and> status r = 400 \<and> r_message r = None \<and> r_error r \<noteq> None"
proof (cases "body ''address''")
  case (String s)
  then show ?thesis
    by (auto simp: faucet_handler_def valid_faucet_address_def js_def json_error_def Let_def faucet_amount_def COIN_def
        split: rpc_outcome.split)
qed (auto simp: faucet_handler_def valid_faucet_address_def json_error_def)



text \<open>
  C13. With a limiter that passes at most one request of a client per window, the transfers caused
  by the requests of one client in one window are worth at most 10 coins, whatever the requests are
  and whatever the wallet replies.
\<close>

theorem faucet_payout_bound:
  assumes "limits_per_window limiter store win"
  shows "payout win client w (serve limiter wallet store reqs) \<le> 10 * unat COIN"
proof -
  let ?n = "length (filter (\<lambda>r. ip r = client \<and> win (time r) = w) (passes limiter store reqs))"
  have "?n \<le> 1" using assms unfolding limits_per_window_def limiter_max_def by blast
  then have "faucet_amount * ?n \<le> faucet_amount * 1" by (rule mult_le_mono2)
  also have "faucet_amount * 1 = 10 * unat COIN" by (simp add: faucet_amount_def COIN_def)
  finally show ?thesis by (rule order.trans [OF payout_passes])
qed

theorem faucet_payout_bound_witness:
  "payout (\<lambda>t. t div windowMs) 7 0 (serve fixed_window (\<lambda>t. Rpc_Result []) []
    [\<lparr>ip = 7, time = 0, req_body = \<lambda>k. String (js ''M'' @ replicate 94 65)\<rparr>,
     \<lparr>ip = 7, time = 5, req_body = \<lambda>k. String (js ''M'' @ replicate 94 66)\<rparr>]) \<le> 10 * unat COIN"
  by (rule faucet_payout_bound) (rule fixed_window_limits)

end
