(* ===== verification/Faucet_Page.thy ===== *)
theory Faucet_Page
  imports Complex_Main Faucet
begin

text \<open>
  The page of the testnet faucet, as \<open>GET /\<close> of \<open>deploy/faucet/app.js\<close> serves it: the form script
  \<open>requestLODE\<close>, the elements it works on and the rules that display them, and the animation of the
  background. The numbers of the animation are real numbers
  (the rounding of doubles is left out), \<open>Math.random\<close> is a parameter with values in [0, 1).

  The lemmas show what the page displays for each answer of the server, that the form never stays
  blocked or silent, that the particles stay on the canvas up to one step, and what a frame draws.
\<close>

section \<open>Definitions\<close>

text \<open>The page: what the client script reads and writes.\<close>

record page =
  addr_value :: js_string
  btn_disabled :: bool
  btn_text :: js_string
  result_class :: js_string
  result_text :: js_string

definition js_space :: "u16 \<Rightarrow> bool" where
  "js_space c \<longleftrightarrow> c \<in> {0x9, 0xA, 0xB, 0xC, 0xD, 0x20, 0xA0, 0x1680, 0x2028, 0x2029, 0x202F, 0x205F, 0x3000, 0xFEFF}
    \<or> 0x2000 \<le> c \<and> c \<le> 0x200A"

definition js_trim :: "js_string \<Rightarrow> js_string" where
  "js_trim s = rev (dropWhile js_space (rev (dropWhile js_space s)))"

text \<open>
  \<open>requestLODE\<close> up to its first \<open>await\<close> (the body sent, if any), and after it: the awaits either
  reject (\<open>None\<close>) or give a response.
\<close>

definition requestLODE_start :: "page \<Rightarrow> page \<times> js_string option" where
  "requestLODE_start p =
    (let addr = js_trim (addr_value p)
     in if addr = []
        then (p\<lparr>result_class := js ''message error'', result_text := js ''Please enter a wallet address.''\<rparr>, None)
        else (p\<lparr>btn_disabled := True, btn_text := js ''Processing...'', result_class := js ''message'', result_text := []\<rparr>,
              Some addr))"

definition error_text :: "response \<Rightarrow> js_string" where
  "error_text data =
    (case r_error data of
       Some e \<Rightarrow> if e \<noteq> [] then e else js ''An error occurred. Please try again later.''
     | None \<Rightarrow> js ''An error occurred. Please try again later.'')"

definition requestLODE_finish :: "page \<Rightarrow> response option \<Rightarrow> page" where
  "requestLODE_finish p res =
    (let p =
       (case res of
          None \<Rightarrow> p\<lparr>result_class := js ''message error'', result_text := js ''Connection error to the Faucet server.''\<rparr>
        | Some data \<Rightarrow>
            if 200 \<le> status data \<and> status data \<le> 299 \<and> r_message data \<noteq> None \<and> r_message data \<noteq> Some []
            then p\<lparr>result_class := js ''message success'', result_text := the (r_message data), addr_value := []\<rparr>
            else p\<lparr>result_class := js ''message error'', result_text := error_text data\<rparr>)
     in p\<lparr>btn_disabled := False, btn_text := js ''Get LODE''\<rparr>)"

text \<open>A call of \<open>requestLODE\<close> to its end, \<open>net\<close> giving what the awaits come to for the body sent.\<close>

definition requestLODE :: "(js_string \<Rightarrow> response option) \<Rightarrow> page \<Rightarrow> page" where
  "requestLODE net p =
    (case requestLODE_start p of
       (p, None) \<Rightarrow> p
     | (p, Some addr) \<Rightarrow> requestLODE_finish p (net addr))"

text \<open>The server as the network: a JSON body with the one field, on the route of the faucet.\<close>

definition faucet_server :: "'s limiter \<Rightarrow> (transfer \<Rightarrow> rpc_outcome) \<Rightarrow> 's \<Rightarrow> nat \<Rightarrow> nat \<Rightarrow> js_string \<Rightarrow> response option" where
  "faucet_server limiter wallet store client t addr =
    Some (fst (fst (post_faucet limiter wallet store
      \<lparr>ip = client, time = t, req_body = (\<lambda>k. if k = ''address'' then String addr else Undefined)\<rparr>)))"

text \<open>The elements of the body, in the order of the markup; an id that is not given is empty.\<close>

record element =
  el_tag :: string
  el_id :: string
  el_class :: js_string
  onclick :: string

definition body_elements :: "element list" where
  "body_elements =
    [\<lparr>el_tag = ''canvas'', el_id = ''networkCanvas'', el_class = [], onclick = []\<rparr>,
     \<lparr>el_tag = ''div'', el_id = [], el_class = js ''bg-fx'', onclick = []\<rparr>,
     \<lparr>el_tag = ''div'', el_id = [], el_class = js ''container'', onclick = []\<rparr>,
     \<lparr>el_tag = ''a'', el_id = [], el_class = js ''logo'', onclick = []\<rparr>,
     \<lparr>el_tag = ''h1'', el_id = [], el_class = [], onclick = []\<rparr>,
     \<lparr>el_tag = ''p'', el_id = [], el_class = [], onclick = []\<rparr>,
     \<lparr>el_tag = ''div'', el_id = [], el_class = js ''input-group'', onclick = []\<rparr>,
     \<lparr>el_tag = ''input'', el_id = ''address'', el_class = [], onclick = []\<rparr>,
     \<lparr>el_tag = ''button'', el_id = ''submitBtn'', el_class = js ''btn'', onclick = ''requestLODE()''\<rparr>,
     \<lparr>el_tag = ''div'', el_id = ''result'', el_class = js ''message'', onclick = []\<rparr>,
     \<lparr>el_tag = ''a'', el_id = [], el_class = js ''back-link'', onclick = []\<rparr>]"

definition getElementById :: "string \<Rightarrow> element option" where
  "getElementById i = find (\<lambda>e. el_id e = i) body_elements"

text \<open>The page as it is served.\<close>

definition initial_page :: page where
  "initial_page =
    \<lparr>addr_value = [], btn_disabled = False, btn_text = js ''Get LODE'',
     result_class = js ''message'', result_text = []\<rparr>"

text \<open>
  The rules of the style sheet that set \<open>display\<close> for classes, in their order. The classes of an element
  are the words of its class attribute; of the rules that match, the one that names the most classes
  counts, and among those the last.
\<close>

definition display_rules :: "(js_string list \<times> string) list" where
  "display_rules =
    [([js ''message''], ''none''),
     ([js ''message'', js ''success''], ''block''),
     ([js ''message'', js ''error''], ''block''),
     ([js ''back-link''], ''inline-block'')]"

fun class_list :: "js_string \<Rightarrow> js_string \<Rightarrow> js_string list" where
  "class_list word [] = (if word = [] then [] else [word])"
| "class_list word (c # cs) =
    (if c \<in> {0x9, 0xA, 0xC, 0xD, 0x20} then (if word = [] then [] else [word]) @ class_list [] cs
     else class_list (word @ [c]) cs)"

definition cascade :: "js_string list \<Rightarrow> (js_string list \<times> string) option \<Rightarrow> js_string list \<times> string \<Rightarrow> (js_string list \<times> string) option" where
  "cascade classes best rule =
    (if set (fst rule) \<subseteq> set classes \<and> (case best of None \<Rightarrow> True | Some b \<Rightarrow> length (fst b) \<le> length (fst rule))
     then Some rule else best)"

definition display :: "js_string \<Rightarrow> string option" where
  "display className = map_option snd (foldl (cascade (class_list [] className)) None display_rules)"

text \<open>The animation. A particle, and the drawing commands of the canvas context.\<close>

record particle =
  x :: real
  y :: real
  vx :: real
  vy :: real
  radius :: real

datatype command =
    ClearRect real real real real
  | BeginPath
  | Arc real real real real real
  | FillStyle string
  | Fill
  | MoveTo real real
  | LineTo real real
  | StrokeStyle (alpha: real)
  | LineWidth real
  | Stroke

record scene =
  width :: real
  height :: real
  particles :: "particle list"

text \<open>The constructor of \<open>Particle\<close>: the five calls of \<open>Math.random\<close> are those from number \<open>k\<close> on.\<close>

definition new_particle :: "(nat \<Rightarrow> real) \<Rightarrow> nat \<Rightarrow> real \<Rightarrow> real \<Rightarrow> particle" where
  "new_particle random k w h =
    \<lparr>x = random k * w,
     y = random (k + 1) * h,
     vx = (random (k + 2) - 1 / 2) * (3 / 5),
     vy = (random (k + 3) - 1 / 2) * (3 / 5),
     radius = random (k + 4) * (3 / 2) + 1 / 2\<rparr>"

definition particleCount :: "real \<Rightarrow> real \<Rightarrow> nat" where
  "particleCount w h = nat \<lfloor>(w * h) / 12000\<rfloor>"

definition init :: "(nat \<Rightarrow> real) \<Rightarrow> real \<Rightarrow> real \<Rightarrow> scene" where
  "init random innerWidth innerHeight =
    \<lparr>width = innerWidth, height = innerHeight,
     particles = map (\<lambda>i. new_particle random (5 * i) innerWidth innerHeight) [0..<particleCount innerWidth innerHeight]\<rparr>"

definition update :: "real \<Rightarrow> real \<Rightarrow> particle \<Rightarrow> particle" where
  "update w h p =
    (let p = p\<lparr>x := x p + vx p\<rparr>;
         p = p\<lparr>y := y p + vy p\<rparr>;
         p = (if x p < 0 \<or> x p > w then p\<lparr>vx := - vx p\<rparr> else p)
     in if y p < 0 \<or> y p > h then p\<lparr>vy := - vy p\<rparr> else p)"

definition draw :: "particle \<Rightarrow> command list" where
  "draw p = [BeginPath, Arc (x p) (y p) (radius p) 0 (pi * 2), FillStyle ''rgba(212, 175, 55, 0.4)'', Fill]"

text \<open>The body of the inner loop of \<open>animate\<close>, for the particles \<open>p\<close> and \<open>q\<close>.\<close>

definition link :: "particle \<Rightarrow> particle \<Rightarrow> command list" where
  "link p q =
    (let dx = x p - x q; dy = y p - y q; dist = sqrt (dx * dx + dy * dy)
     in if dist < 140
        then [BeginPath, MoveTo (x p) (y p), LineTo (x q) (y q), StrokeStyle (1 / 5 * (1 - dist / 140)), LineWidth 1, Stroke]
        else [])"

text \<open>The outer loop: a particle is moved and drawn, then linked to the later ones, which have not moved yet.\<close>

fun animate_loop :: "real \<Rightarrow> real \<Rightarrow> particle list \<Rightarrow> particle list \<times> command list" where
  "animate_loop w h [] = ([], [])"
| "animate_loop w h (p # ps) =
    (let p = update w h p;
         (ps', cs) = animate_loop w h ps
     in (p # ps', draw p @ concat (map (link p) ps) @ cs))"

definition animate :: "scene \<Rightarrow> scene \<times> command list" where
  "animate s =
    (let (ps, cs) = animate_loop (width s) (height s) (particles s)
     in (s\<lparr>particles := ps\<rparr>, ClearRect 0 0 (width s) (height s) # cs))"

text \<open>The life of the page: it starts with \<open>init\<close>; then frames and resizes come in any order.\<close>

definition random_source :: "(nat \<Rightarrow> real) \<Rightarrow> bool" where
  "random_source random \<longleftrightarrow> (\<forall>k. 0 \<le> random k \<and> random k < 1)"

inductive shown :: "scene \<Rightarrow> bool" where
  resize: "shown (init random w h)" if "random_source random" and "0 \<le> w" and "0 \<le> h"
| frame: "shown (fst (animate s))" if "shown s"

section \<open>Specifications\<close>

text \<open>A coordinate on the canvas, or one step off it with the velocity pointing back.\<close>

definition near :: "real \<Rightarrow> real \<Rightarrow> real \<Rightarrow> bool" where
  "near w c v \<longleftrightarrow> \<bar>v\<bar> \<le> 3 / 10 \<and> (0 \<le> c \<and> c \<le> w \<or> c < 0 \<and> 0 \<le> c + v \<and> c + v \<le> w \<or> w < c \<and> 0 \<le> c + v \<and> c + v \<le> w)"

definition particle_ok :: "real \<Rightarrow> real \<Rightarrow> particle \<Rightarrow> bool" where
  "particle_ok w h p \<longleftrightarrow> near w (x p) (vx p) \<and> near h (y p) (vy p) \<and> 1 / 2 \<le> radius p \<and> radius p < 2"

definition scene_ok :: "scene \<Rightarrow> bool" where
  "scene_ok s \<longleftrightarrow> length (particles s) = particleCount (width s) (height s)
    \<and> list_all (particle_ok (width s) (height s)) (particles s)"

text \<open>The answers the page takes for a success.\<close>

definition good :: "response \<Rightarrow> bool" where
  "good r \<longleftrightarrow> 200 \<le> status r \<and> status r \<le> 299 \<and> r_message r \<noteq> None \<and> r_message r \<noteq> Some []"

text \<open>The opacities of the lines that are drawn.\<close>

definition alphas :: "command list \<Rightarrow> real list" where
  "alphas cs = map alpha (filter is_StrokeStyle cs)"

section \<open>The form\<close>

lemma start_spec:
  "requestLODE_start p =
    (if js_trim (addr_value p) = []
     then (p\<lparr>result_class := js ''message error'', result_text := js ''Please enter a wallet address.''\<rparr>, None)
     else (p\<lparr>btn_disabled := True, btn_text := js ''Processing...'', result_class := js ''message'', result_text := []\<rparr>,
       Some (js_trim (addr_value p))))"
  by (simp add: requestLODE_start_def)

lemma finish_button: "\<not> btn_disabled (requestLODE_finish p r)"
  by (simp add: requestLODE_finish_def Let_def)

lemma handler_good:
  "good (fst (faucet_handler wallet body)) \<longleftrightarrow> valid_faucet_address (body ''address'')
    \<and> (\<exists>h. wallet \<lparr>t_amount = faucet_amount, t_address = string_of (body ''address''), t_ring_size = 16\<rparr> = Rpc_Result h)"
  by (cases "body ''address''")
    (auto simp: good_def faucet_handler_def valid_faucet_address_def json_error_def js_def Let_def split: rpc_outcome.split)

lemma server_good:
  "\<exists>r. faucet_server limiter wallet store client t addr = Some r \<and>
    (good r \<longleftrightarrow> fst (limiter store client t) \<and> valid_faucet_address (String addr)
      \<and> (\<exists>h. wallet \<lparr>t_amount = faucet_amount, t_address = addr, t_ring_size = 16\<rparr> = Rpc_Result h))"
proof (cases "fst (limiter store client t)")
  case True
  then show ?thesis by (simp add: faucet_server_def post_faucet_def case_prod_beta handler_good)
next
  case False
  then show ?thesis by (simp add: faucet_server_def post_faucet_def case_prod_beta json_error_def good_def)
qed

lemma classes_distinct: "js ''message error'' \<noteq> js ''message success''"
  by (simp add: js_def)

lemma finish_class:
  "result_class (requestLODE_finish p (Some r)) = (if good r then js ''message success'' else js ''message error'')"
  "addr_value (requestLODE_finish p (Some r)) = (if good r then [] else addr_value p)"
  by (auto simp: requestLODE_finish_def good_def Let_def)

lemma requestLODE_blank:
  assumes "js_trim (addr_value p) = []"
  shows "requestLODE net p = p\<lparr>result_class := js ''message error'', result_text := js ''Please enter a wallet address.''\<rparr>"
  using assms by (simp add: requestLODE_def start_spec)

lemma requestLODE_sent:
  assumes "js_trim (addr_value p) \<noteq> []" and "net (js_trim (addr_value p)) = Some r"
  shows "\<not> btn_disabled (requestLODE net p)"
    and "result_class (requestLODE net p) = (if good r then js ''message success'' else js ''message error'')"
    and "addr_value (requestLODE net p) = (if good r then [] else addr_value p)"
  using assms by (simp_all add: requestLODE_def start_spec finish_class finish_button)

section \<open>The animation\<close>

lemma near_step:
  assumes "near w c v"
  shows "near w (c + v) (if c + v < 0 \<or> c + v > w then - v else v)"
  using assms by (auto simp: near_def)

lemma near_start:
  assumes "0 \<le> r" and "r < 1" and "0 \<le> s" and "s < 1" and "0 \<le> w"
  shows "near w (r * w) ((s - 1 / 2) * (3 / 5))"
proof -
  have "r * w \<le> 1 * w" using assms by (intro mult_right_mono) simp_all
  moreover have "\<bar>(s - 1 / 2) * (3 / 5)\<bar> \<le> 3 / 10" using assms by (simp add: abs_le_iff field_simps)
  ultimately show ?thesis using assms by (simp add: near_def)
qed

lemma update_fields:
  "x (update w h p) = x p + vx p" "y (update w h p) = y p + vy p" "radius (update w h p) = radius p"
  "vx (update w h p) = (if x p + vx p < 0 \<or> x p + vx p > w then - vx p else vx p)"
  "vy (update w h p) = (if y p + vy p < 0 \<or> y p + vy p > h then - vy p else vy p)"
  by (simp_all add: update_def Let_def)

lemma update_ok: "particle_ok w h p \<Longrightarrow> particle_ok w h (update w h p)"
  unfolding particle_ok_def update_fields by (blast intro: near_step)

lemma new_particle_ok:
  assumes "random_source random" and "0 \<le> w" and "0 \<le> h"
  shows "particle_ok w h (new_particle random k w h)"
proof -
  have r: "0 \<le> random j" "random j < 1" for j using assms(1) by (simp_all add: random_source_def)
  show ?thesis
    using r [of "k + 4"] near_start [OF r r assms(2), of k "k + 2"] near_start [OF r r assms(3), of "k + 1" "k + 3"]
    by (simp add: particle_ok_def new_particle_def)
qed

lemma animate_loop_particles: "fst (animate_loop w h ps) = map (update w h) ps"
  by (induction ps) (simp_all add: Let_def case_prod_beta)

lemma animate_particles: "fst (animate s) = s\<lparr>particles := map (update (width s) (height s)) (particles s)\<rparr>"
  by (simp add: animate_def animate_loop_particles Let_def case_prod_beta)

lemma init_ok: "random_source random \<Longrightarrow> 0 \<le> w \<Longrightarrow> 0 \<le> h \<Longrightarrow> scene_ok (init random w h)"
  by (simp add: scene_ok_def init_def new_particle_ok list_all_iff)

lemma animate_ok: "scene_ok s \<Longrightarrow> scene_ok (fst (animate s))"
  by (simp add: scene_ok_def animate_particles update_ok list_all_iff)

lemma shown_ok: "shown s \<Longrightarrow> scene_ok s"
  by (induction rule: shown.induct) (simp_all add: init_ok animate_ok)

lemma alphas_simps [simp]: "alphas [] = []" "alphas (cs @ ds) = alphas cs @ alphas ds"
  "alphas (concat css) = concat (map alphas css)" "alphas (draw p) = []" "alphas (ClearRect a b c d # cs) = alphas cs"
  by (simp_all add: alphas_def [abs_def] draw_def filter_concat map_concat comp_def)

lemma alphas_link_eq:
  "alphas (link p q) =
    (let dist = sqrt ((x p - x q) * (x p - x q) + (y p - y q) * (y p - y q))
     in if dist < 140 then [1 / 5 * (1 - dist / 140)] else [])"
  by (simp add: link_def Let_def alphas_def)

lemma alphas_link:
  "length (alphas (link p q)) \<le> 1" "\<forall>a \<in> set (alphas (link p q)). 0 < a \<and> a \<le> 1 / 5"
  by (simp_all add: alphas_link_eq Let_def)

lemma alphas_links_length: "length (concat (map (\<lambda>q. alphas (link p q)) ps)) \<le> length ps"
proof (induction ps)
  case (Cons q ps)
  then show ?case using alphas_link(1) [of p q] by simp
qed simp

lemma animate_loop_lines:
  "2 * length (alphas (snd (animate_loop w h ps))) \<le> length ps * (length ps - 1)"
proof (induction ps)
  case (Cons p ps)
  have "2 * length (concat (map (\<lambda>q. alphas (link (update w h p) q)) ps)) \<le> 2 * length ps"
    using alphas_links_length [of "update w h p" ps] by simp
  with Cons have "2 * length (alphas (snd (animate_loop w h (p # ps)))) \<le> 2 * length ps + length ps * (length ps - 1)"
    by (simp add: Let_def comp_def case_prod_beta)
  also have "\<dots> = length (p # ps) * (length (p # ps) - 1)" by (cases "length ps") simp_all
  finally show ?case .
qed simp

lemma animate_loop_alphas: "\<forall>a \<in> set (alphas (snd (animate_loop w h ps))). 0 < a \<and> a \<le> 1 / 5"
  using alphas_link(2) by (induction ps) (fastforce simp: Let_def case_prod_beta)+

section \<open>Properties\<close>



lemma display_values:
  "display (js ''message'') = Some ''none''" "display (js ''message error'') = Some ''block''"
  "display (js ''message success'') = Some ''block''"
  by (simp_all add: display_def display_rules_def cascade_def js_def)

lemma error_text_not_Nil: "error_text data \<noteq> []"
  by (simp add: error_text_def js_def split: option.splits)

text \<open>
  C38. Every click is answered: the elements that the scripts look up are on the page, and the button calls
  \<open>requestLODE\<close>. The result box is hidden on the page as it is served, and while a request is on its way,
  during which the button is disabled; whatever the network comes to, a call on an enabled button ends with
  the button enabled and a text in the result box, which the style sheet displays.
\<close>

theorem click_answered:
  assumes "\<not> btn_disabled p" and "p' = requestLODE net p"
  shows "{i. getElementById i = None} \<inter> {''networkCanvas'', ''address'', ''result'', ''submitBtn''} = {}
    \<and> map_option onclick (getElementById ''submitBtn'') = Some ''requestLODE()''
    \<and> map_option el_class (getElementById ''result'') = Some (result_class initial_page)
    \<and> display (result_class initial_page) = Some ''none''
    \<and> (\<forall>q addr. requestLODE_start p = (q, Some addr) \<longrightarrow> display (result_class q) = Some ''none'' \<and> btn_disabled q)
    \<and> \<not> btn_disabled p' \<and> result_text p' \<noteq> [] \<and> display (result_class p') = Some ''block''"
proof (intro conjI)
  show "{i. getElementById i = None} \<inter> {''networkCanvas'', ''address'', ''result'', ''submitBtn''} = {}"
    "map_option onclick (getElementById ''submitBtn'') = Some ''requestLODE()''"
    "map_option el_class (getElementById ''result'') = Some (result_class initial_page)"
    by (auto simp: getElementById_def body_elements_def initial_page_def)
  show "display (result_class initial_page) = Some ''none''" by (simp add: initial_page_def display_values)
  show "\<forall>q addr. requestLODE_start p = (q, Some addr) \<longrightarrow> display (result_class q) = Some ''none'' \<and> btn_disabled q"
    by (auto simp: requestLODE_start_def Let_def display_values split: if_splits)
  have "js ''Please enter a wallet address.'' \<noteq> []" "js ''Connection error to the Faucet server.'' \<noteq> []"
    by (simp_all add: js_def)
  then show "\<not> btn_disabled p'" "result_text p' \<noteq> []" "display (result_class p') = Some ''block''"
    using assms(1) error_text_not_Nil unfolding assms(2)
    by (auto simp: requestLODE_def requestLODE_start_def requestLODE_finish_def Let_def display_values split: option.splits)
qed

theorem click_answered_witness:
  "display (result_class (requestLODE (\<lambda>_. None) (initial_page\<lparr>addr_value := js '' M1''\<rparr>))) = Some ''block''"
  using click_answered [of "initial_page\<lparr>addr_value := js '' M1''\<rparr>", OF _ refl, of "\<lambda>_. None"] by (simp add: initial_page_def)

text \<open>
  At every moment of the page's life, through frames and resizes in any order, there are as many
  particles as the size of the canvas asks for, each is on the canvas or one step off it and about to
  return, no component of a velocity exceeds 0.3, and the radius is in [0.5, 2).
\<close>

lemma particles_stay:
  assumes "shown s"
  shows "length (particles s) = nat \<lfloor>width s * height s / 12000\<rfloor>
    \<and> list_all (\<lambda>p. {x p, x p + vx p} \<inter> {0..width s} \<noteq> {} \<and> {y p, y p + vy p} \<inter> {0..height s} \<noteq> {}
        \<and> \<bar>vx p\<bar> \<le> 3 / 10 \<and> \<bar>vy p\<bar> \<le> 3 / 10 \<and> 1 / 2 \<le> radius p \<and> radius p < 2) (particles s)"
  using shown_ok [OF assms] by (auto simp: scene_ok_def particleCount_def list_all_iff particle_ok_def near_def)

lemma particles_stay_witness:
  "length (particles (fst (animate (init (\<lambda>k. 1 / 4) 1200 1000)))) = 100"
  using particles_stay [OF shown.frame [OF shown.resize [of "\<lambda>k. 1 / 4" 1200 1000]]]
  by (simp add: random_source_def animate_particles init_def)

text \<open>
  A frame: it clears the canvas first, moves every particle once, and draws for each pair of
  particles at most one line, with an opacity in (0, 0.2].
\<close>

lemma frame_lines:
  "case animate s of (s', cs) \<Rightarrow>
    particles s' = map (update (width s) (height s)) (particles s)
    \<and> hd cs = ClearRect 0 0 (width s) (height s)
    \<and> length (alphas cs) \<le> length (particles s) * (length (particles s) - 1) div 2
    \<and> set (alphas cs) \<subseteq> {0<..1 / 5}"
  using animate_particles [of s] animate_loop_lines [of "width s" "height s" "particles s"]
    animate_loop_alphas [of "width s" "height s" "particles s"]
  by (auto simp: animate_def Let_def case_prod_beta)

end
