(* ===== verification/Spec2Isabelle.thy ===== *)
theory Spec2Isabelle
  imports Miner_Tx Hard_Fork Fee_Estimate Checkpoints Pruning Faucet_Page
begin

text \<open>
  A verification library for the LODE chain: the consensus arithmetic of the node (C++), the encodings
  its addresses rest on, and the testnet faucet (JavaScript) that hands out coins to such addresses.

  \<^bold>\<open>The program and the theories.\<close>

  \<^item> \<open>Prelude\<close>: byte and word types (\<open>u8\<close> to \<open>u256\<close>), little-endian values, writing into a buffer, and
    the contracts of codecs as locales: \<open>codec\<close> (what is written reads back), \<open>canonical_codec\<close> (and
    only what is written is read), \<open>prefix_codec\<close> (fields that can be put in a row).
  \<^item> \<open>Int_Util\<close>: \<open>contrib/epee/include/int-util.h\<close> and \<open>src/int-util.cpp\<close>, multiplication and division on
    pairs of 64-bit words, and the portable \<open>mul\<close> of \<open>difficulty.cpp\<close>.
  \<^item> \<open>Difficulty\<close>: \<open>src/cryptonote_basic/difficulty.cpp\<close>, the proof-of-work test and the next difficulty.
  \<^item> \<open>Block_Reward\<close>: \<open>get_min_block_weight\<close> and \<open>get_block_reward\<close> of \<open>cryptonote_basic_impl.cpp\<close>, with the
    count of generated coins that \<open>blockchain.cpp\<close> keeps.
  \<^item> \<open>Block_Weight\<close>: the median of \<open>contrib/epee/include/misc_language.h\<close> and, of
    \<open>src/cryptonote_core/blockchain.cpp\<close>, the timestamp checks, the long-term weight of a block, the limit
    on the weight of the next one and the fee of a transaction.
  \<^item> \<open>Rolling_Median\<close>: \<open>contrib/epee/include/rolling_median.h\<close>, the median of the last values of a stream in
    two heaps around it; the locale \<open>heap_side\<close> has the lemmas on a heap once for both directions.
  \<^item> \<open>Long_Term_Weight\<close>: the cache of the median of long-term weights of \<open>blockchain.cpp\<close>, over the rolling
    median, and the two functions that ask it.
  \<^item> \<open>Money\<close>: printing, parsing and rounding of amounts of \<open>cryptonote_format_utils.cpp\<close>.
  \<^item> \<open>Fee_Estimate\<close>: the fees that \<open>blockchain.cpp\<close> suggests to wallets, over the rolling median, the block
    reward and the rounding of amounts.
  \<^item> \<open>Checkpoints\<close>: \<open>src/checkpoints/checkpoints.cpp\<close> and how \<open>blockchain.cpp\<close> enforces the points.
  \<^item> \<open>Pruning\<close>: \<open>src/common/pruning.cpp\<close>, which blocks a pruned node keeps.
  \<^item> \<open>Miner_Tx\<close>: \<open>prevalidate_miner_transaction\<close> and \<open>validate_miner_transaction\<close> of \<open>blockchain.cpp\<close>; the
    relation \<open>mined\<close> is a chain of blocks that both accept.
  \<^item> \<open>Hard_Fork\<close>: \<open>src/cryptonote_basic/hardfork.cpp\<close>, the tables of \<open>src/hardforks/hardforks.cpp\<close> and their
    set-up in \<open>Blockchain::init\<close>; the relation \<open>running\<close> is the life of the object beside its database.
  \<^item> \<open>Varint\<close> (\<open>src/common/varint.h\<close>), \<open>Base58\<close> (\<open>src/common/base58.cpp\<close>), \<open>Keccak\<close> (\<open>src/crypto/keccak.c\<close>,
    \<open>cn_fast_hash\<close> of \<open>hash.c\<close>) and \<open>Hex\<close> (\<open>contrib/epee/src/hex.cpp\<close>): the encodings and the hash.
  \<^item> \<open>Tree_Hash\<close>: \<open>src/crypto/tree-hash.c\<close>, the root of the transactions of a block and branches to it,
    over \<open>cn_fast_hash\<close>.
  \<^item> \<open>Address\<close>: \<open>encode_addr\<close> and \<open>decode_addr\<close> of \<open>base58.cpp\<close>, the network configurations of
    \<open>cryptonote_config.h\<close>, and the printing and parsing of addresses of \<open>cryptonote_basic_impl.cpp\<close>.
    It composes the encodings and the hash.
  \<^item> \<open>Faucet\<close> and \<open>Faucet_Page\<close>: \<open>deploy/faucet/app.js\<close>, the route that pays, and the page with its form
    and its animation.

  \<^bold>\<open>How code becomes definitions.\<close> Machine integers are words of their width and wrap as in the code.
  A call that may fail returns an option, a sum, or an outcome type with one value for each way to end
  (\<open>keccak_result\<close>, \<open>parse_result\<close>, \<open>rpc_outcome\<close>). Buffers that are written in place are lists that are
  passed on. Loops are recursive functions with a termination proof; the absorbing loop of \<open>keccak\<close>,
  which does not end for one parameter, is a partial function whose \<open>None\<close> is the endless run, and so
  is the doubling loop of \<open>tree_hash_cnt\<close>, which is shown to end within the limits the code asserts. No
  model has fuel. In \<open>Hard_Fork\<close>, \<open>Rolling_Median\<close> and \<open>Checkpoints\<close> heights, indices and counts are natural
  numbers or integers that stay within their types; the one difference that wraps is a word. A JavaScript string is a list of 16-bit code units.

  \<^bold>\<open>What is shown.\<close> The proof-of-work test decides exactly whether hash times difficulty fits in 256
  bits, and the next difficulty is the rounded-up quotient of the textbook formula for every window. The
  subsidy follows the halving schedule and the total emission is computed to the grain; along every
  chain of accepted blocks the counted coins are exactly what miners were paid beyond the fees. The
  medians are exact, weights and limits move within fixed bounds, and the fee is the rounded quotient.
  The rolling median is the median of the last values for every history, hence the cached long-term
  median is that of the chain it is asked on, through extensions, removals and reorganisations, and the
  four suggested fees are their formulas, in ascending order. Amounts survive printing, a decimal text is
  read exactly if it is a whole number of atomic units, and rounding goes to the next multiple. Loading
  never changes a checkpoint; what enforcing them does to a chain is stated with its two defects. The
  next height that a pruned node keeps is the least one.
  The fork object keeps its votes consistent through additions, removals, reorganisations and
  restarts, and on the tables of the three networks the schedule alone decides. The tree hash is the
  root of the Merkle tree it is meant to be, two lists with one root exhibit a collision of the hash,
  and the branch of a leaf is accepted. Base58, varints
  and hexadecimal text round trip, the first two with a single encoding for each value; the unrolled
  Keccak round is the textbook round, and hashing in pieces is hashing the concatenation. Hence
  addresses round trip, have one text, and are refused on other networks. The faucet accepts exactly
  the addresses of the testnet, pays a fixed amount, and no client more than one payment a window.

  \<^bold>\<open>Parameters.\<close> \<open>check_key\<close> (is a 32-byte string a point of the curve), the rate limiter (a package,
  with the hypothesis that it passes at most one request of a client in a window), the reply of the
  wallet, \<open>Math.random\<close> (in [0, 1)), the clock, \<open>trim\<close> and \<open>lexical_cast\<close> of Boost (for texts of digits),
  Boost's reader of a difficulty, the file and the name server records with checkpoints. The ids of
  blocks are taken to identify the chain below them where the cache relies on it. The block database is a
  list of blocks with what is stored beside them. The coordinates of the animation are real numbers: rounding of
  doubles is left out.

  \<^bold>\<open>Not modelled.\<close> Elliptic curve and ring signature code, the RandomX and CryptoNight hashes, the
  databases, peer-to-peer networking, the RPC servers and the wallets; the manifest lists them.
\<close>

end
